(* ===== verification/Prelude.thy ===== *)
theory Prelude
  imports Main "HOL-Library.Word"
begin

text \<open>
  Shared vocabulary of the development: the machine integers of the C sources, the
  directly mapped memory as a store of 8-byte words, the outcome type of code that can hit
  \<open>BUG_ON\<close>, and the lemmas on sums, words and powers of two that more than one component
  uses.
\<close>

unbundle bit_operations_syntax

section \<open>Integers, memory and outcomes\<close>

type_synonym u8 = "8 word"
type_synonym u16 = "16 word"
type_synonym u32 = "32 word"
type_synonym u64 = "64 word"

text \<open>
  Memory is a store of 8-byte words, read and written at the address of the word's first
  byte. Every structure the module keeps in memory (\<open>struct list_head\<close>, \<open>struct block\<close>,
  page-table entries, page frames) is made of such words.
\<close>

type_synonym mem = "u64 \<Rightarrow> u64"

text \<open>
  \<open>BUG\<close> is a failed \<open>BUG_ON\<close>: the kernel stops the calling task there, so nothing after it runs.
  \<open>OOB\<close> is an access past the end of an array, where C leaves open what happens, and \<open>NULLPTR\<close> the
  use of a null pointer.
  \<open>ebind\<close> is sequencing of two C statements of which the first may fail.
\<close>

datatype kfault = BUG | OOB | NULLPTR

type_synonym 'a outcome = "kfault + 'a"

definition ebind :: "'e + 'a \<Rightarrow> ('a \<Rightarrow> 'e + 'b) \<Rightarrow> 'e + 'b" where
  "ebind r f = (case r of Inl e \<Rightarrow> Inl e | Inr x \<Rightarrow> f x)"

lemma ebind_simps [simp]:
  "ebind (Inl e) f = Inl e"
  "ebind (Inr x) f = f x"
  by (simp_all add: ebind_def)

lemma ebind_Inr_iff: "ebind r f = Inr y \<longleftrightarrow> (\<exists>x. r = Inr x \<and> f x = Inr y)"
  by (cases r) auto

lemma ebind_cong [fundef_cong]:
  "r = r' \<Longrightarrow> (\<And>x. r' = Inr x \<Longrightarrow> f x = g x) \<Longrightarrow> ebind r f = ebind r' g"
  by (cases r') auto

text \<open>
  Code with a loop that need not end has a result of type \<open>'a run\<close>: \<open>None\<close> when it does not
  return. \<open>rbind\<close> is its sequencing, \<open>lift_run\<close> the call of code that always returns.
\<close>

type_synonym 'a run = "'a outcome option"

definition rbind :: "'a run \<Rightarrow> ('a \<Rightarrow> 'b run) \<Rightarrow> 'b run" where
  "rbind r f = (case r of None \<Rightarrow> None | Some (Inl e) \<Rightarrow> Some (Inl e) | Some (Inr x) \<Rightarrow> f x)"

abbreviation returns :: "'a \<Rightarrow> 'a run" where "returns x \<equiv> Some (Inr x)"

lemma rbind_simps [simp]:
  "rbind None f = None" "rbind (Some (Inl e)) f = Some (Inl e)" "rbind (returns x) f = f x"
  by (simp_all add: rbind_def)

section \<open>Words as numbers\<close>

text \<open>Rewriting of machine arithmetic that does not wrap into arithmetic on numbers.\<close>

named_theorems to_nat \<open>values of words as natural numbers\<close>

lemma unat_of_nat_u64: "n < 2 ^ 64 \<Longrightarrow> unat (of_nat n :: u64) = n"
  by (simp add: unat_of_nat take_bit_nat_eq_self)

lemma unat_pow2 [to_nat]: "i < LENGTH('a) \<Longrightarrow> unat (2 ^ i :: 'a::len word) = 2 ^ i"
  using unat_of_nat [of "2 ^ i", where ?'a = 'a] power_strict_increasing [of i "LENGTH('a)" "2 :: nat"]
  by (simp add: take_bit_nat_eq_self)

lemmas unat_pow2_u64 = unat_pow2 [where ?'a = 64, simplified]

lemma unat_drop_bit [to_nat]: "unat (drop_bit n x) = unat x div 2 ^ n"
  by (simp only: unat_drop_bit_eq) (simp add: drop_bit_eq_div)

lemma unat_less_pow2: "unat (x :: 'a::len word) < 2 ^ LENGTH('a)"
  by (rule unsigned_less)

lemma unat_add_small [to_nat]:
  "unat x + unat y < 2 ^ LENGTH('a) \<Longrightarrow> unat (x + y :: 'a::len word) = unat x + unat y"
  by (simp add: unat_word_ariths)

lemma unat_sub_small [to_nat]:
  "unat y \<le> unat x \<Longrightarrow> unat (x - y :: 'a::len word) = unat x - unat y"
  by (simp add: unat_sub word_le_nat_alt)

lemma unat_push_bit [to_nat]:
  "unat x * 2 ^ n < 2 ^ LENGTH('a) \<Longrightarrow> unat (push_bit n x :: 'a::len word) = unat x * 2 ^ n"
  by (simp only: unsigned_push_bit_eq) (simp add: push_bit_eq_mult take_bit_nat_eq_self)

text \<open>The conversion of a non-negative \<open>int\<close> to \<open>unsigned long\<close> keeps the value.\<close>

lemma scast_of_nat_u32: "n < 2 ^ 31 \<Longrightarrow> (scast (of_nat n :: u32) :: u64) = of_nat n"
proof -
  assume n: "n < 2 ^ 31"
  then have "uint (of_nat n :: u32) = int n"
    by (simp add: unsigned_of_nat take_bit_nat_eq_self)
  then have "sint (of_nat n :: u32) = int n"
    using n by (simp add: sint_uint signed_take_bit_int_eq_self)
  then show ?thesis by (simp add: scast_eq)
qed

end
