(* ===== verification/Klist.thy ===== *)
theory Klist
  imports Prelude
begin

text \<open>
  The kernel's intrusive doubly linked lists (\<open>struct list_head\<close> of \<open>linux/list.h\<close>), at
  the level of pointers in memory: \<open>next\<close> is the word at the node's address, \<open>prev\<close> the
  word 8 bytes further. The buddy allocator threads its free lists through the free memory
  itself with them. \<open>dlist m h xs\<close> says that the list with head \<open>h\<close> holds the nodes
  \<open>xs\<close>; the lemmas say what each operation does to \<open>xs\<close> and which writes leave it alone.
\<close>

section \<open>Operations\<close>

definition INIT_LIST_HEAD :: "u64 \<Rightarrow> mem \<Rightarrow> mem" where
  "INIT_LIST_HEAD l m = m(l := l, l + 8 := l)"

definition list_empty :: "u64 \<Rightarrow> mem \<Rightarrow> bool" where
  "list_empty h m \<longleftrightarrow> m h = h"

definition list_add :: "u64 \<Rightarrow> u64 \<Rightarrow> mem \<Rightarrow> mem" where
  "list_add new h m =
     (let nxt = m h in m(nxt + 8 := new, new := nxt, new + 8 := h, h := new))"

definition LIST_POISON1 :: u64 where "LIST_POISON1 = 0xdead000000100100"
definition LIST_POISON2 :: u64 where "LIST_POISON2 = 0xdead000000200200"

definition list_del :: "u64 \<Rightarrow> mem \<Rightarrow> mem" where
  "list_del e m =
     (let nxt = m e; prv = m (e + 8)
      in m(nxt + 8 := prv, prv := nxt, e := LIST_POISON1, e + 8 := LIST_POISON2))"

text \<open>
  \<open>list_for_each(pos, h) ++n;\<close> follows \<open>next\<close> until it is back at the head; on a list that
  is not circular it need not end, which is the value \<open>None\<close>.
\<close>

partial_function (option) list_count :: "mem \<Rightarrow> u64 \<Rightarrow> u64 \<Rightarrow> nat \<Rightarrow> nat option" where
  "list_count m h pos n = (if pos = h then Some n else list_count m h (m pos) (Suc n))"

declare list_count.simps [code]

section \<open>The nodes of a list\<close>

fun chain :: "mem \<Rightarrow> u64 \<Rightarrow> u64 list \<Rightarrow> u64 \<Rightarrow> bool" where
  "chain m a [] z \<longleftrightarrow> m a = z \<and> m (z + 8) = a"
| "chain m a (x # xs) z \<longleftrightarrow> m a = x \<and> m (x + 8) = a \<and> chain m x xs z"

definition dlist :: "mem \<Rightarrow> u64 \<Rightarrow> u64 list \<Rightarrow> bool" where
  "dlist m h xs \<longleftrightarrow> chain m h xs h \<and> distinct (h # xs)"

text \<open>Node addresses none of which is the \<open>prev\<close> word of another.\<close>

definition sep :: "u64 set \<Rightarrow> bool" where
  "sep S \<longleftrightarrow> (\<forall>a \<in> S. a + 8 \<notin> S)"

lemma sepD [dest]: "sep S \<Longrightarrow> a \<in> S \<Longrightarrow> b \<in> S \<Longrightarrow> a + 8 \<noteq> b"
  by (auto simp: sep_def)

lemma sep_subset: "sep S \<Longrightarrow> T \<subseteq> S \<Longrightarrow> sep T"
  by (auto simp: sep_def)

lemma add8_neq [simp]: "a + 8 \<noteq> (a :: u64)" "a \<noteq> (a + 8 :: u64)"
  by simp_all

lemma chain_cong:
  assumes "\<And>l. l \<in> insert a (set xs) \<Longrightarrow> m' l = m l"
    and "\<And>l. l \<in> insert z (set xs) \<Longrightarrow> m' (l + 8) = m (l + 8)"
  shows "chain m' a xs z = chain m a xs z"
  using assms by (induction xs arbitrary: a) auto

lemma chain_append:
  "chain m a (xs @ y # ys) z \<longleftrightarrow> chain m a xs y \<and> chain m y ys z"
  by (induction xs arbitrary: a) auto

lemma chain_first: "chain m a xs z \<Longrightarrow> m a = hd (xs @ [z])"
  by (cases xs) auto

lemma chain_last: "chain m a xs z \<Longrightarrow> m (z + 8) = last (a # xs)"
  by (induction xs arbitrary: a) auto

section \<open>Frame and update lemmas\<close>

lemma dlist_frame:
  assumes "dlist m h xs"
    and "\<And>l. l \<in> insert h (set xs) \<Longrightarrow> m' l = m l \<and> m' (l + 8) = m (l + 8)"
  shows "dlist m' h xs"
  using assms chain_cong [of h xs m' m h] by (simp add: dlist_def)

lemma dlist_INIT: "dlist (INIT_LIST_HEAD h m) h []"
  by (simp add: dlist_def INIT_LIST_HEAD_def)

lemma dlist_empty_iff: "dlist m h xs \<Longrightarrow> list_empty h m \<longleftrightarrow> xs = []"
  by (cases xs) (auto simp: dlist_def list_empty_def)

lemma dlist_first: "dlist m h (x # xs) \<Longrightarrow> m h = x"
  by (simp add: dlist_def)

lemma dlist_list_add:
  assumes l: "dlist m h xs" and new: "new \<notin> set (h # xs)"
    and s: "sep (insert new (set (h # xs)))"
  shows "dlist (list_add new h m) h (new # xs)"
proof (cases xs)
  case Nil
  with assms show ?thesis by (auto simp: dlist_def list_add_def sep_def)
next
  case (Cons x ys)
  let ?m = "list_add new h m"
  from l Cons have hx: "m h = x" and c: "chain m x ys h" and d: "distinct (h # x # ys)"
    by (auto simp: dlist_def)
  have "chain ?m x ys h = chain m x ys h"
    using d new s Cons hx
    by (intro chain_cong) (auto simp: list_add_def Let_def sep_def)
  moreover have "?m h = new" "?m (new + 8) = h" "?m new = x" "?m (x + 8) = new"
    using d new s Cons hx by (auto simp: list_add_def Let_def sep_def)
  ultimately show ?thesis using c d new Cons by (auto simp: dlist_def)
qed

lemma list_add_frame:
  assumes "dlist m h xs" and "l \<notin> {h, h + 8, new, new + 8}" and "l \<notin> (\<lambda>x. x + 8) ` set xs"
  shows "list_add new h m l = m l"
  using assms chain_first [of m h xs h]
  by (cases xs) (auto simp: list_add_def Let_def dlist_def)

text \<open>
  Taking a node out: the two halves of the chain around it are untouched but for the link
  that now joins them.
\<close>

lemma chain_join:
  assumes "chain m a xs e" "chain m e ys z" and d: "distinct (xs @ e # ys)" "a \<notin> set (e # ys)"
    and z: "z \<notin> set (e # xs @ ys)"
    and keep: "\<And>l. l \<in> set (a # xs @ ys) \<Longrightarrow> l \<noteq> last (a # xs) \<Longrightarrow> m' l = m l"
    and keep8: "\<And>l. l \<in> set (z # xs @ ys) \<Longrightarrow> l \<noteq> hd (ys @ [z]) \<Longrightarrow> m' (l + 8) = m (l + 8)"
    and link: "m' (last (a # xs)) = hd (ys @ [z])" "m' (hd (ys @ [z]) + 8) = last (a # xs)"
    and a: "a \<notin> set xs"
  shows "chain m' a (xs @ ys) z"
  using assms
proof (induction xs arbitrary: a)
  case Nil
  show ?case
  proof (cases ys)
    case Nil
    with Nil.prems(8,9) show ?thesis by simp
  next
    case (Cons y zs)
    have "chain m' y zs z = chain m y zs z"
      using Nil.prems(3-7) Cons by (intro chain_cong) auto
    with Nil.prems(2,8,9) Cons show ?thesis by simp
  qed
next
  case (Cons x xs)
  have ch: "chain m' x (xs @ ys) z"
    using Cons.prems by (intro Cons.IH) (auto split: if_splits)
  have "a \<noteq> last (x # xs)"
    using Cons.prems(10) last_in_set [of "x # xs"] by fastforce
  then have "m' a = m a" using Cons.prems(6) [of a] by simp
  moreover have "x \<noteq> hd (ys @ [z])"
    using Cons.prems(3,5) hd_in_set [of "ys @ [z]"] by auto
  then have "m' (x + 8) = m (x + 8)" using Cons.prems(7) [of x] by simp
  ultimately have "m' a = m a" "m' (x + 8) = m (x + 8)" by simp_all
  with ch Cons.prems(1) show ?case by simp
qed

lemma list_del_eq:
  assumes "dlist m h (xs @ e # ys)"
  defines "p \<equiv> last (h # xs)" and "n \<equiv> hd (ys @ [h])"
  shows "list_del e m = m(n + 8 := p, p := n, e := LIST_POISON1, e + 8 := LIST_POISON2)"
    and "p \<in> set (h # xs)" and "n \<in> set (ys @ [h])"
proof -
  from assms(1) have "chain m h xs e" "chain m e ys h"
    by (auto simp: dlist_def chain_append)
  then have "m e = n" "m (e + 8) = p"
    unfolding p_def n_def using chain_first chain_last by blast+
  then show "list_del e m = m(n + 8 := p, p := n, e := LIST_POISON1, e + 8 := LIST_POISON2)"
    by (simp add: list_del_def Let_def)
  show "p \<in> set (h # xs)" "n \<in> set (ys @ [h])"
    unfolding p_def n_def by (rule last_in_set hd_in_set; simp)+
qed

lemma dlist_list_del:
  assumes l: "dlist m h (xs @ e # ys)" and s: "sep (set (h # xs @ e # ys))"
  shows "dlist (list_del e m) h (xs @ ys)"
proof -
  define p n where "p = last (h # xs)" and "n = hd (ys @ [h])"
  have m: "list_del e m = m(n + 8 := p, p := n, e := LIST_POISON1, e + 8 := LIST_POISON2)"
    and pn: "p \<in> set (h # xs)" "n \<in> set (ys @ [h])"
    using list_del_eq [OF l] by (simp_all only: p_def n_def)
  from l have c: "chain m h xs e" "chain m e ys h" and d: "distinct (h # xs @ e # ys)"
    by (auto simp: dlist_def chain_append)
  have sp: "a + 8 \<noteq> b" if "a \<in> set (h # xs @ e # ys)" "b \<in> set (h # xs @ e # ys)" for a b
    using s that by (rule sepD)
  have "chain (list_del e m) h (xs @ ys) h"
  proof (rule chain_join [OF c])
    fix l assume l: "l \<in> set (h # xs @ ys)"
    show "l \<noteq> last (h # xs) \<Longrightarrow> list_del e m l = m l"
      unfolding m p_def [symmetric] using l d pn sp [of n l] sp [of e l] by auto
    show "l \<noteq> hd (ys @ [h]) \<Longrightarrow> list_del e m (l + 8) = m (l + 8)"
      unfolding m n_def [symmetric] using l d pn sp [of l p] sp [of l e] by auto
  next
    show "list_del e m (last (h # xs)) = hd (ys @ [h])"
      unfolding m p_def [symmetric] n_def [symmetric] using d pn sp [of e p] by auto
    show "list_del e m (hd (ys @ [h]) + 8) = last (h # xs)"
      unfolding m p_def [symmetric] n_def [symmetric] using d pn sp [of n e] sp [of n p] by auto
  qed (use d in auto)
  with d show ?thesis by (simp add: dlist_def)
qed

lemma list_del_frame:
  assumes "dlist m h (xs @ e # ys)"
    and "l \<notin> set (h # xs @ e # ys)" and "l \<notin> (\<lambda>x. x + 8) ` set (h # xs @ e # ys)"
  shows "list_del e m l = m l"
  using assms(2,3) list_del_eq [OF assms(1)] by auto

lemma list_count_chain:
  "chain m a xs h \<Longrightarrow> h \<notin> set xs \<Longrightarrow> list_count m h (m a) n = Some (n + length xs)"
proof (induction xs arbitrary: a n)
  case Nil
  then show ?case by (simp add: list_count.simps)
next
  case (Cons x xs)
  then show ?case by (subst list_count.simps) auto
qed

lemma dlist_list_count: "dlist m h xs \<Longrightarrow> list_count m h (m h) 0 = Some (length xs)"
  using list_count_chain [of m h xs h 0] by (simp add: dlist_def)

text \<open>A circular list seen from another of its nodes; insertion behind a node in the middle.\<close>

lemma dlist_rotate: "dlist m h (xs @ n # ys) \<Longrightarrow> dlist m n (ys @ h # xs)"
  by (auto simp: dlist_def chain_append)

lemma dlist_list_add_after:
  assumes l: "dlist m h (xs @ n # ys)" and new: "new \<notin> set (h # xs @ n # ys)"
    and s: "sep (insert new (set (h # xs @ n # ys)))"
  shows "dlist (list_add new n m) h (xs @ n # new # ys)"
proof -
  have "dlist (list_add new n m) n (new # ys @ h # xs)"
    by (rule dlist_list_add [OF dlist_rotate [OF l]]) (use new in simp, rule sep_subset [OF s], auto)
  then show ?thesis using dlist_rotate [of "list_add new n m" n "new # ys" h xs] by simp
qed

lemma list_add_after_frame:
  assumes l: "dlist m h (xs @ n # ys)" and "a \<notin> {new, new + 8}"
    and "a \<notin> set (h # xs @ n # ys)" "a \<notin> (\<lambda>x. x + 8) ` set (h # xs @ n # ys)"
  shows "list_add new n m a = m a"
  by (rule list_add_frame [OF dlist_rotate [OF l]]) (use assms in auto)

lemma dlist_next: "dlist m h (xs @ n # ys) \<Longrightarrow> m n = hd (ys @ [h])"
  and dlist_prev: "dlist m h (xs @ n # ys) \<Longrightarrow> m (n + 8) = last (h # xs)"
  unfolding dlist_def chain_append using chain_first chain_last by blast+

end
