(* ===== verification/Bitops.thy ===== *)
theory Bitops
  imports Prelude
begin

text \<open>
  Arrays of bits. The locale \<open>bit_array\<close> is the contract a client of such an array relies on;
  it is interpreted here on the kernel's bitmaps (\<open>__set_bit\<close>, \<open>__clear_bit\<close>, \<open>test_bit\<close>
  on an array of \<open>unsigned long\<close>), which hold the buddy allocator's tag bits, and in theory
  Swap on the byte array of \<open>swap.c\<close>.
\<close>

section \<open>The contract\<close>

locale bit_array =
  fixes valid :: "'b \<Rightarrow> nat \<Rightarrow> bool"
    and test :: "'b \<Rightarrow> nat \<Rightarrow> bool"
    and put :: "'b \<Rightarrow> nat \<Rightarrow> bool \<Rightarrow> 'b"
  assumes valid_put: "valid (put b i v) j = valid b j"
    and test_put: "valid b i \<Longrightarrow> valid b j \<Longrightarrow> test (put b i v) j = (if j = i then v else test b j)"
begin

lemma test_put_same: "valid b i \<Longrightarrow> test (put b i v) i = v"
  by (simp add: test_put)

lemma test_put_other: "valid b i \<Longrightarrow> valid b j \<Longrightarrow> j \<noteq> i \<Longrightarrow> test (put b i v) j = test b j"
  by (simp add: test_put)

definition ones :: "'b \<Rightarrow> nat set" where
  "ones b = {i. valid b i \<and> test b i}"

lemma ones_put_True: "valid b i \<Longrightarrow> ones (put b i True) = insert i (ones b)"
  by (auto simp: ones_def valid_put test_put)

lemma ones_put_False: "valid b i \<Longrightarrow> ones (put b i False) = ones b - {i}"
  by (auto simp: ones_def valid_put test_put split: if_splits)

lemma put_restore:
  assumes "valid b i" "\<not> test b i"
  shows "ones (put (put b i True) i False) = ones b"
proof -
  have "ones (put (put b i True) i False) = insert i (ones b) - {i}"
    using assms by (simp add: ones_put_False ones_put_True valid_put)
  with assms(2) show ?thesis by (auto simp: ones_def)
qed

end

section \<open>Kernel bitmaps\<close>

type_synonym bitmap = "u64 list"

definition BITS_TO_LONGS :: "nat \<Rightarrow> nat" where
  "BITS_TO_LONGS n = (n + 63) div 64"

definition kset_bit :: "nat \<Rightarrow> bitmap \<Rightarrow> bitmap" where
  "kset_bit nr bs = bs[nr div 64 := (bs ! (nr div 64)) OR push_bit (nr mod 64) 1]"

definition kclear_bit :: "nat \<Rightarrow> bitmap \<Rightarrow> bitmap" where
  "kclear_bit nr bs = bs[nr div 64 := (bs ! (nr div 64)) AND NOT (push_bit (nr mod 64) 1)]"

definition ktest_bit :: "nat \<Rightarrow> bitmap \<Rightarrow> bool" where
  "ktest_bit nr bs \<longleftrightarrow> drop_bit (nr mod 64) (bs ! (nr div 64)) AND 1 = 1"

definition bitmap_zero :: "nat \<Rightarrow> bitmap" where
  "bitmap_zero n = replicate (BITS_TO_LONGS n) 0"

definition kput_bit :: "bitmap \<Rightarrow> nat \<Rightarrow> bool \<Rightarrow> bitmap" where
  "kput_bit bs nr v = (if v then kset_bit nr bs else kclear_bit nr bs)"

definition in_bitmap :: "bitmap \<Rightarrow> nat \<Rightarrow> bool" where
  "in_bitmap bs nr \<longleftrightarrow> nr < 64 * length bs"

lemma ktest_bit_alt: "ktest_bit nr bs \<longleftrightarrow> bit (bs ! (nr div 64)) (nr mod 64)"
  by (auto simp: ktest_bit_def bit_iff_odd_drop_bit even_iff_mod_2_eq_zero and_one_eq odd_iff_mod_2_eq_one)

lemma length_kbits [simp]:
  "length (kset_bit i bs) = length bs" "length (kclear_bit i bs) = length bs"
  "length (kput_bit bs i v) = length bs"
  by (simp_all add: kset_bit_def kclear_bit_def kput_bit_def)

interpretation kbit: bit_array in_bitmap "\<lambda>bs i. ktest_bit i bs" kput_bit
proof
  fix bs :: bitmap and i j v
  show "in_bitmap (kput_bit bs i v) j = in_bitmap bs j"
    by (simp add: in_bitmap_def)
  assume v: "in_bitmap bs i" "in_bitmap bs j"
  then have l: "i div 64 < length bs" "j div 64 < length bs"
    by (auto simp: in_bitmap_def less_mult_imp_div_less mult.commute)
  have ij: "j = i \<longleftrightarrow> j div 64 = i div 64 \<and> j mod 64 = i mod 64"
    by (metis div_mult_mod_eq)
  show "ktest_bit j (kput_bit bs i v) = (if j = i then v else ktest_bit j bs)"
    using l unfolding ij
    by (cases "j div 64 = i div 64")
      (auto simp: ktest_bit_alt kput_bit_def kset_bit_def kclear_bit_def bit_simps)
qed

lemma kset_bit_put: "kset_bit i bs = kput_bit bs i True"
  and kclear_bit_put: "kclear_bit i bs = kput_bit bs i False"
  by (simp_all add: kput_bit_def)

lemma BITS_TO_LONGS_enough: "i < n \<Longrightarrow> in_bitmap (bitmap_zero n) i"
  by (simp add: in_bitmap_def bitmap_zero_def BITS_TO_LONGS_def)

lemma ktest_bitmap_zero: "i < n \<Longrightarrow> \<not> ktest_bit i (bitmap_zero n)"
  using BITS_TO_LONGS_enough [of i n]
  by (simp add: ktest_bit_alt bitmap_zero_def in_bitmap_def less_mult_imp_div_less mult.commute)

end
