(* ===== verification/Buddy.thy ===== *)
theory Buddy
  imports Klist Bitops
begin

text \<open>
  The buddy allocator of \<open>buddy.c\<close>. A pool is the record of \<open>struct buddy_mempool\<close>; its free
  lists live in memory, their heads in the array at \<open>avail\<close> and their nodes in the free
  blocks themselves (\<open>struct block\<close>: \<open>link.next\<close>, \<open>link.prev\<close> and \<open>order\<close> at byte
  offsets 0, 8 and 16). Every operation takes the pool and the memory and returns both, or
  \<open>BUG\<close> where a \<open>BUG_ON\<close> fires. Orders are natural numbers: the code only compares them,
  increments them below \<open>pool_order\<close> and decrements them above the requested order.
\<close>

section \<open>Data\<close>

record buddy_mempool =
  base_addr :: u64
  pool_order :: nat
  min_order :: nat
  num_blocks :: u64
  tag_bits :: bitmap
  avail :: u64

text \<open>The list head \<open>&mp->avail[i]\<close>: a \<open>struct list_head\<close> is 16 bytes.\<close>

definition avail_head :: "buddy_mempool \<Rightarrow> nat \<Rightarrow> u64" where
  "avail_head mp i = avail mp + 16 * of_nat i"

definition SIZEOF_BLOCK :: u64 where "SIZEOF_BLOCK = 24"

text \<open>The address of \<open>block->order\<close>.\<close>

definition order_field :: "u64 \<Rightarrow> u64" where
  "order_field block = block + 16"

section \<open>Block tags and buddies\<close>

definition block_to_id :: "buddy_mempool \<Rightarrow> u64 \<Rightarrow> u64 outcome" where
  "block_to_id mp block =
     (let block_id = drop_bit (min_order mp) (block - base_addr mp)
      in if block_id \<ge> num_blocks mp then Inl BUG else Inr block_id)"

definition mark_available :: "buddy_mempool \<Rightarrow> u64 \<Rightarrow> buddy_mempool outcome" where
  "mark_available mp block =
     ebind (block_to_id mp block)
       (\<lambda>i. Inr (mp\<lparr>tag_bits := kset_bit (unat i) (tag_bits mp)\<rparr>))"

definition mark_allocated :: "buddy_mempool \<Rightarrow> u64 \<Rightarrow> buddy_mempool outcome" where
  "mark_allocated mp block =
     ebind (block_to_id mp block)
       (\<lambda>i. Inr (mp\<lparr>tag_bits := kclear_bit (unat i) (tag_bits mp)\<rparr>))"

definition is_available :: "buddy_mempool \<Rightarrow> u64 \<Rightarrow> bool outcome" where
  "is_available mp block =
     ebind (block_to_id mp block) (\<lambda>i. Inr (ktest_bit (unat i) (tag_bits mp)))"

definition find_buddy :: "buddy_mempool \<Rightarrow> u64 \<Rightarrow> nat \<Rightarrow> u64 outcome" where
  "find_buddy mp block order =
     (if block < base_addr mp then Inl BUG
      else Inr (((block - base_addr mp) XOR push_bit order 1) + base_addr mp))"

section \<open>Initialisation\<close>

text \<open>
  \<open>buddy_init\<close> takes one more argument than the C function: the address \<open>kmalloc\<close> returns for
  the array of list heads. \<open>ilog2(roundup_pow_of_two(24))\<close> is 5.
\<close>

fun init_lists :: "u64 \<Rightarrow> nat \<Rightarrow> mem \<Rightarrow> mem" where
  "init_lists av 0 m = m"
| "init_lists av (Suc n) m = INIT_LIST_HEAD (av + 16 * of_nat n) (init_lists av n m)"

definition buddy_init ::
    "u64 \<Rightarrow> u64 \<Rightarrow> nat \<Rightarrow> nat \<Rightarrow> mem \<Rightarrow> (buddy_mempool \<times> mem) option" where
  "buddy_init av base porder morder m =
     (let morder' = (if (push_bit morder 1 :: u64) < SIZEOF_BLOCK then 5 else morder)
      in if morder' > porder then None
         else let nb = (push_bit porder 1 :: u64) div push_bit morder' 1
              in Some (\<lparr>base_addr = base, pool_order = porder, min_order = morder',
                        num_blocks = nb, tag_bits = bitmap_zero (unat nb), avail = av\<rparr>,
                       init_lists av (Suc porder) m))"

text \<open>
  \<open>buddy_deinit\<close> works on the objects of the kernel heap, by their addresses; the addresses of the pool
  structure and of its bitmap, which the record holds by value, are arguments.
\<close>

definition kfree :: "u64 \<Rightarrow> u64 set \<Rightarrow> u64 set" where
  "kfree a heap = heap - {a}"

definition buddy_deinit :: "u64 \<Rightarrow> u64 \<Rightarrow> buddy_mempool \<Rightarrow> u64 set \<Rightarrow> u64 set" where
  "buddy_deinit mp_addr tag_addr mp heap = kfree mp_addr (kfree tag_addr (kfree (avail mp) heap))"

text \<open>A pool made by \<open>buddy_init\<close> leaves no object of its own behind, and takes no other with it.\<close>

lemma buddy_init_deinit:
  assumes "buddy_init av base porder morder m = Some (mp, m')" "{mp_addr, tag_addr, av} \<inter> heap = {}"
  shows "buddy_deinit mp_addr tag_addr mp ({mp_addr, tag_addr, av} \<union> heap) = heap"
  using assms by (auto simp: buddy_init_def buddy_deinit_def kfree_def Let_def split: if_splits)

section \<open>Allocation\<close>

text \<open>
  The trimming loop: while the block in hand is larger than asked for, its upper half goes
  to the free list of its order.
\<close>

function buddy_trim ::
    "buddy_mempool \<Rightarrow> mem \<Rightarrow> u64 \<Rightarrow> nat \<Rightarrow> nat \<Rightarrow> (buddy_mempool \<times> mem) outcome" where
  "buddy_trim mp m block order j =
     (if j > order then
        let j' = j - 1;
            buddy_block = block + push_bit j' 1;
            m1 = m(order_field buddy_block := of_nat j')
        in ebind (mark_available mp buddy_block)
             (\<lambda>mp1. buddy_trim mp1 (list_add buddy_block (avail_head mp j') m1) block order j')
      else Inr (mp, m))"
  by pat_completeness auto
termination
  by (relation "measure (\<lambda>(mp, m, block, order, j). j)") auto

text \<open>The search for the first non-empty list; the result 0 is \<open>NULL\<close>.\<close>

function buddy_scan ::
    "buddy_mempool \<Rightarrow> mem \<Rightarrow> nat \<Rightarrow> nat \<Rightarrow> (u64 \<times> buddy_mempool \<times> mem) outcome" where
  "buddy_scan mp m order j =
     (if j \<le> pool_order mp then
        if list_empty (avail_head mp j) m then buddy_scan mp m order (Suc j)
        else let block = m (avail_head mp j);
                 m1 = list_del block m
             in ebind (mark_allocated mp block)
                  (\<lambda>mp1. ebind (buddy_trim mp1 m1 block order j)
                     (\<lambda>(mp2, m2). Inr (block, mp2, m2)))
      else Inr (0, mp, m))"
  by pat_completeness auto
termination
  by (relation "measure (\<lambda>(mp, m, order, j). Suc (pool_order mp) - j)") auto

definition buddy_alloc ::
    "buddy_mempool \<Rightarrow> nat \<Rightarrow> mem \<Rightarrow> (u64 \<times> buddy_mempool \<times> mem) outcome" where
  "buddy_alloc mp order m =
     (if order > pool_order mp then Inl BUG
      else let order' = (if order < min_order mp then min_order mp else order)
           in buddy_scan mp m order' order')"

section \<open>Release\<close>

function buddy_coalesce ::
    "buddy_mempool \<Rightarrow> mem \<Rightarrow> u64 \<Rightarrow> nat \<Rightarrow> (u64 \<times> nat \<times> mem) outcome" where
  "buddy_coalesce mp m block order =
     (if order < pool_order mp then
        ebind (find_buddy mp block order) (\<lambda>buddy.
        ebind (is_available mp buddy) (\<lambda>av.
          if \<not> av then Inr (block, order, m)
          else if av \<and> m (order_field buddy) \<noteq> of_nat order then Inr (block, order, m)
          else let m1 = list_del buddy m;
                   block1 = (if buddy < block then buddy else block);
                   order1 = Suc order;
                   m2 = m1(order_field block1 := of_nat order1)
               in buddy_coalesce mp m2 block1 order1))
      else Inr (block, order, m))"
  by pat_completeness auto
termination
  by (relation "measure (\<lambda>(mp, m, block, order). pool_order mp - order)") auto

definition buddy_free ::
    "buddy_mempool \<Rightarrow> u64 \<Rightarrow> nat \<Rightarrow> mem \<Rightarrow> (buddy_mempool \<times> mem) outcome" where
  "buddy_free mp addr order m =
     (if order > pool_order mp then Inl BUG
      else let order0 = (if order < min_order mp then min_order mp else order)
           in ebind (is_available mp addr) (\<lambda>av.
                if av then Inl BUG
                else ebind (buddy_coalesce mp m addr order0) (\<lambda>(block, order1, m1).
                       let m2 = m1(order_field block := of_nat order1)
                       in ebind (mark_available mp block) (\<lambda>mp1.
                            Inr (mp1, list_add block (avail_head mp order1) m2)))))"

section \<open>Dump\<close>

text \<open>
  \<open>buddy_dump_mempool\<close> prints, for each order from \<open>min_order\<close> up, the length of its list; the
  model returns what is printed.
\<close>

definition buddy_dump_mempool :: "buddy_mempool \<Rightarrow> mem \<Rightarrow> (nat \<times> nat option) list" where
  "buddy_dump_mempool mp m =
     map (\<lambda>i. (i, list_count m (avail_head mp i) (m (avail_head mp i)) 0))
       [min_order mp ..< Suc (pool_order mp)]"

declare buddy_trim.simps [simp del] buddy_scan.simps [simp del] buddy_coalesce.simps [simp del]

end
