(* ===== verification/Blocks.thy ===== *)
theory Blocks
  imports Prelude
begin

text \<open>
  The abstract side of the buddy system: a block is an offset into the pool and an order,
  it covers \<open>2 ^ order\<close> bytes and is aligned to its size. A state of the allocator is a tiling
  of the pool by such blocks, some free and some allocated. Here is the algebra of splitting
  and merging, and the two facts the allocator's quality rests on: when no two free buddies
  are left unmerged, every aligned run of free memory lies in one free block, and the
  free blocks are determined by the free bytes.
\<close>

section \<open>Blocks, families and tilings\<close>

type_synonym blk = "nat \<times> nat"

definition ext :: "blk \<Rightarrow> nat set" where
  "ext b = {fst b ..< fst b + 2 ^ snd b}"

definition wf_blk :: "nat \<Rightarrow> blk \<Rightarrow> bool" where
  "wf_blk N b \<longleftrightarrow> 2 ^ snd b dvd fst b \<and> snd b \<le> N \<and> fst b + 2 ^ snd b \<le> 2 ^ N"

definition family :: "nat \<Rightarrow> blk set \<Rightarrow> bool" where
  "family N S \<longleftrightarrow> (\<forall>b \<in> S. wf_blk N b) \<and> (\<forall>b \<in> S. \<forall>c \<in> S. \<forall>x. x \<in> ext b \<longrightarrow> x \<in> ext c \<longrightarrow> b = c)"

definition covered :: "blk set \<Rightarrow> nat set" where
  "covered S = (\<Union>b \<in> S. ext b)"

definition tiling :: "nat \<Rightarrow> blk set \<Rightarrow> bool" where
  "tiling N S \<longleftrightarrow> family N S \<and> covered S = {0 ..< 2 ^ N}"

definition buddy_of :: "nat \<Rightarrow> nat \<Rightarrow> nat" where
  "buddy_of k i = (if even (k div 2 ^ i) then k + 2 ^ i else k - 2 ^ i)"

definition coalesced :: "nat \<Rightarrow> blk set \<Rightarrow> bool" where
  "coalesced N S \<longleftrightarrow> (\<forall>(k, i) \<in> S. i < N \<longrightarrow> (buddy_of k i, i) \<notin> S)"

section \<open>Arithmetic of one block\<close>

lemma ext_simp: "x \<in> ext (k, i) \<longleftrightarrow> k \<le> x \<and> x < k + 2 ^ i"
  by (auto simp: ext_def)

lemma start_in_ext [simp]: "k \<in> ext (k, i)"
  by (simp add: ext_simp)

lemma ext_nonempty [simp]: "ext b \<noteq> {}"
  by (simp add: ext_def)

lemma ext_div:
  assumes "2 ^ i dvd k"
  shows "x \<in> ext (k, i) \<longleftrightarrow> x div 2 ^ i = k div 2 ^ i"
proof -
  from assms obtain q where k: "k = 2 ^ i * q" by (auto elim: dvdE)
  have "x div 2 ^ i = q \<longleftrightarrow> 2 ^ i * q \<le> x \<and> x < 2 ^ i * q + 2 ^ i"
  proof
    assume "x div 2 ^ i = q"
    then show "2 ^ i * q \<le> x \<and> x < 2 ^ i * q + 2 ^ i"
      using dividend_less_times_div [of "2 ^ i" x] by (auto simp: add.commute)
  qed (simp add: div_nat_eqI add.commute)
  then show ?thesis by (simp add: ext_simp k)
qed

lemma ext_nested:
  assumes "2 ^ i dvd k" "2 ^ j dvd l" "i \<le> j" "ext (k, i) \<inter> ext (l, j) \<noteq> {}"
  shows "ext (k, i) \<subseteq> ext (l, j)"
proof -
  from assms(4) obtain x where x: "x div 2 ^ i = k div 2 ^ i" "x div 2 ^ j = l div 2 ^ j"
    using assms(1,2) by (auto simp: ext_div)
  have dd: "y div 2 ^ j = y div 2 ^ i div 2 ^ (j - i)" for y :: nat
    using assms(3) by (simp add: div_mult2_eq [symmetric] power_add [symmetric])
  show ?thesis using assms(1,2) x dd by (auto simp: ext_div)
qed

lemma ext_subset_order: "ext (k, i) \<subseteq> ext (l, j) \<Longrightarrow> i \<le> j"
proof -
  assume "ext (k, i) \<subseteq> ext (l, j)"
  then have "card (ext (k, i)) \<le> card (ext (l, j))"
    by (intro card_mono) (auto simp: ext_def)
  then show ?thesis by (simp add: ext_def)
qed

lemma ext_inject: "ext (k, i) = ext (l, j) \<longleftrightarrow> k = l \<and> i = j"
proof
  assume e: "ext (k, i) = ext (l, j)"
  then have "i = j" using ext_subset_order by (metis order_antisym order_refl)
  moreover have "k = l"
    using e start_in_ext [of k i] start_in_ext [of l j] by (metis ext_simp order_antisym)
  ultimately show "k = l \<and> i = j" by simp
qed simp

lemma ext_halves: "ext (k, Suc i) = ext (k, i) \<union> ext (k + 2 ^ i, i)"
  by (auto simp: ext_def)

lemma ext_halves_disjoint: "ext (k, i) \<inter> ext (k + 2 ^ i, i) = {}"
  by (auto simp: ext_def)

lemma aligned_next:
  fixes k d n :: nat
  assumes "k < n" "d dvd k" "d dvd n"
  shows "k + d \<le> n"
proof -
  from assms have "d dvd n - k" "0 < n - k" by simp_all
  then have "d \<le> n - k" by (rule dvd_imp_le)
  with assms(1) show ?thesis by simp
qed

section \<open>Buddies\<close>

lemma buddy_of_low: "2 ^ Suc i dvd k \<Longrightarrow> buddy_of k i = k + 2 ^ i"
  by (auto simp: buddy_of_def elim!: dvdE)

lemma buddy_of_high:
  assumes "2 ^ Suc i dvd k"
  shows "buddy_of (k + 2 ^ i) i = k"
proof -
  from assms obtain q where "k = 2 ^ Suc i * q" by (auto elim: dvdE)
  then have "(k + 2 ^ i) div 2 ^ i = 2 * q + 1"
    by (simp add: div_add1_eq mult.assoc)
  then show ?thesis by (simp add: buddy_of_def)
qed

text \<open>An aligned block is the lower or the upper half of an aligned block of twice its size.\<close>

lemma halves_cases:
  fixes k :: nat
  assumes "2 ^ i dvd k"
  obtains (low) "2 ^ Suc i dvd k" | (high) l where "k = l + 2 ^ i" "2 ^ Suc i dvd l"
proof -
  from assms obtain q where k: "k = 2 ^ i * q" by (auto elim: dvdE)
  show thesis
  proof (cases "even q")
    case True
    then show thesis using low k by (auto elim!: evenE simp: mult.assoc [symmetric] mult.commute)
  next
    case False
    then obtain r where "q = 2 * r + 1" by (auto elim: oddE)
    then show thesis using high [of "2 ^ Suc i * r"] k by (simp add: algebra_simps)
  qed
qed

lemma buddy_of_dvd: "2 ^ i dvd k \<Longrightarrow> 2 ^ i dvd buddy_of k i"
  by (erule halves_cases) (auto simp: buddy_of_low buddy_of_high intro: dvd_trans [OF le_imp_power_dvd])

lemma buddy_of_neq: "2 ^ i dvd k \<Longrightarrow> buddy_of k i \<noteq> k"
  by (erule halves_cases) (auto simp: buddy_of_low buddy_of_high)

lemma buddy_of_involutive: "2 ^ i dvd k \<Longrightarrow> buddy_of (buddy_of k i) i = k"
  by (erule halves_cases) (auto simp: buddy_of_low buddy_of_high)

lemma merge_dvd: "2 ^ i dvd k \<Longrightarrow> 2 ^ Suc i dvd min k (buddy_of k i)"
  by (erule halves_cases) (auto simp: buddy_of_low buddy_of_high min_def)

lemma merge_ext:
  "2 ^ i dvd k \<Longrightarrow> ext (min k (buddy_of k i), Suc i) = ext (k, i) \<union> ext (buddy_of k i, i)"
  by (erule halves_cases) (auto simp: buddy_of_low buddy_of_high min_def ext_halves)

lemma wf_half_low: "wf_blk N (k, Suc i) \<Longrightarrow> wf_blk N (k, i)"
  and wf_half_high: "wf_blk N (k, Suc i) \<Longrightarrow> wf_blk N (k + 2 ^ i, i)"
  by (auto simp: wf_blk_def intro: dvd_trans [OF le_imp_power_dvd])

text \<open>Below the order of the pool, a block's parent is again a block of the pool.\<close>

lemma wf_merge:
  assumes "wf_blk N (k, i)" "i < N"
  shows "wf_blk N (min k (buddy_of k i), Suc i)"
proof -
  let ?l = "min k (buddy_of k i)"
  have d: "2 ^ Suc i dvd ?l" using assms by (intro merge_dvd) (simp add: wf_blk_def)
  have dN: "(2 :: nat) ^ Suc i dvd 2 ^ N" using assms(2) by (intro le_imp_power_dvd) simp
  have "?l < 2 ^ N"
    using assms(1) by (auto simp: wf_blk_def min_less_iff_disj intro: less_le_trans [of _ "k + 2 ^ i"])
  then have "?l + 2 ^ Suc i \<le> 2 ^ N"
    using d dN by (rule aligned_next)
  with d assms(2) show ?thesis by (simp add: wf_blk_def)
qed

lemma wf_buddy: "wf_blk N (k, i) \<Longrightarrow> i < N \<Longrightarrow> wf_blk N (buddy_of k i, i)"
  using wf_merge [of N k i]
  by (auto simp: wf_blk_def min_def buddy_of_dvd buddy_of_def split: if_splits)

section \<open>Families under replacement\<close>

lemma family_subset: "family N S \<Longrightarrow> T \<subseteq> S \<Longrightarrow> family N T"
  unfolding family_def by blast

lemma family_unique:
  "family N S \<Longrightarrow> b \<in> S \<Longrightarrow> c \<in> S \<Longrightarrow> x \<in> ext b \<Longrightarrow> x \<in> ext c \<Longrightarrow> b = c"
  unfolding family_def by blast

lemma family_start_unique: "family N S \<Longrightarrow> (k, i) \<in> S \<Longrightarrow> (k, j) \<in> S \<Longrightarrow> i = j"
  using family_unique [of N S "(k, i)" "(k, j)" k] by simp

lemma family_wf: "family N S \<Longrightarrow> b \<in> S \<Longrightarrow> wf_blk N b"
  by (simp add: family_def)

lemma in_covered: "x \<in> covered S \<longleftrightarrow> (\<exists>b \<in> S. x \<in> ext b)"
  by (simp add: covered_def)

lemma covered_insert [simp]: "covered (insert b S) = ext b \<union> covered S"
  and covered_Un [simp]: "covered (S \<union> T) = covered S \<union> covered T"
  and covered_empty [simp]: "covered {} = {}"
  by (auto simp: covered_def)

lemma family_Un_iff:
  "family N (X \<union> R) \<and> X \<inter> R = {} \<longleftrightarrow>
     family N X \<and> family N R \<and> covered X \<inter> covered R = {}" (is "?l \<longleftrightarrow> ?r")
proof
  assume l: ?l
  then have "x \<notin> covered R" if "x \<in> covered X" for x
    using that family_unique [of N "X \<union> R" _ _ x] unfolding in_covered by blast
  with l show ?r using family_subset [of N "X \<union> R"] by blast
next
  assume r: ?r
  then have d: "\<not> (x \<in> ext b \<and> x \<in> ext c)" if "b \<in> X" "c \<in> R" for b c x
    using that unfolding covered_def by blast
  then have "X \<inter> R = {}" using ext_nonempty by blast
  moreover have "family N (X \<union> R)"
    using r d unfolding family_def by blast
  ultimately show ?l by simp
qed

lemma tiling_replace:
  assumes "tiling N (X \<union> R)" "X \<inter> R = {}" "family N Y" "covered Y = covered X"
  shows "tiling N (Y \<union> R) \<and> Y \<inter> R = {}"
  using assms family_Un_iff [of N X R] family_Un_iff [of N Y R] by (simp add: tiling_def)

text \<open>Splitting a block of a tiling, and merging two buddies of it.\<close>

lemma tiling_split:
  assumes "tiling N (insert (k, Suc i) R)" "(k, Suc i) \<notin> R"
  shows "tiling N (insert (k, i) (insert (k + 2 ^ i, i) R))"
    and "(k, i) \<notin> R" and "(k + 2 ^ i, i) \<notin> R"
proof -
  let ?Y = "{(k, i), (k + 2 ^ i, i)}"
  have w: "wf_blk N (k, Suc i)" using assms(1) by (simp add: tiling_def family_def)
  have "family N ?Y"
    using wf_half_low [OF w] wf_half_high [OF w] ext_halves_disjoint [of k i]
    by (auto simp: family_def)
  moreover have "covered ?Y = covered {(k, Suc i)}"
    by (simp add: ext_halves)
  ultimately have "tiling N (?Y \<union> R) \<and> ?Y \<inter> R = {}"
    using assms by (intro tiling_replace [of N "{(k, Suc i)}"]) simp_all
  then show "tiling N (insert (k, i) (insert (k + 2 ^ i, i) R))"
    and "(k, i) \<notin> R" and "(k + 2 ^ i, i) \<notin> R" by auto
qed

lemma tiling_merge:
  assumes t: "tiling N (insert (k, i) (insert (buddy_of k i, i) R))" and "i < N"
    and nR: "(k, i) \<notin> R" "(buddy_of k i, i) \<notin> R"
  shows "tiling N (insert (min k (buddy_of k i), Suc i) R)"
    and "(min k (buddy_of k i), Suc i) \<notin> R"
proof -
  let ?X = "{(k, i), (buddy_of k i, i)}" and ?b = "(min k (buddy_of k i), Suc i)"
  have w: "wf_blk N (k, i)" using t by (simp add: tiling_def family_def)
  then have "family N {?b}" using wf_merge \<open>i < N\<close> by (simp add: family_def)
  moreover have "covered {?b} = covered ?X"
    using w by (simp add: merge_ext wf_blk_def)
  ultimately have "tiling N ({?b} \<union> R) \<and> {?b} \<inter> R = {}"
    using t nR by (intro tiling_replace [of N ?X]) (simp_all add: insert_is_Un [symmetric])
  then show "tiling N (insert ?b R)" and "?b \<notin> R" by auto
qed

text \<open>
  The place where a block's buddy would start is the start of a block of the tiling, of the
  same order or smaller: what is read at that address as a block header is one.
\<close>

lemma buddy_start:
  assumes t: "tiling N S" and b: "(k, i) \<in> S" and i: "i < N"
  obtains j where "j \<le> i" "(buddy_of k i, j) \<in> S"
proof -
  let ?b = "buddy_of k i"
  have f: "family N S" using t by (simp add: tiling_def)
  have w: "wf_blk N (k, i)" using family_wf [OF f b] .
  then have d: "2 ^ i dvd k" "2 ^ i dvd ?b" by (simp_all add: wf_blk_def buddy_of_dvd)
  have "wf_blk N (?b, i)" using w i by (rule wf_buddy)
  then have "?b < 2 ^ N" by (simp add: wf_blk_def less_le_trans [of _ "?b + 2 ^ i"])
  then have "?b \<in> covered S" using t by (simp add: tiling_def)
  then obtain l j where l: "(l, j) \<in> S" "?b \<in> ext (l, j)" by (auto simp: in_covered)
  have dl: "2 ^ j dvd l" using family_wf [OF f l(1)] by (simp add: wf_blk_def)
  have ji: "j \<le> i"
  proof (rule ccontr)
    assume "\<not> j \<le> i"
    then have "ext (min k ?b, Suc i) \<subseteq> ext (l, j)"
      using l(2) dl d merge_dvd [OF d(1)] merge_ext [OF d(1)] start_in_ext [of ?b i]
      by (intro ext_nested) (auto simp del: power_Suc)
    then have "k \<in> ext (l, j)" using merge_ext [OF d(1)] start_in_ext [of k i] by blast
    then have "(l, j) = (k, i)" using family_unique [OF f l(1) b] by simp
    with \<open>\<not> j \<le> i\<close> show False by simp
  qed
  then have "ext (l, j) \<subseteq> ext (?b, i)"
    using l(2) dl d by (intro ext_nested) (auto intro: start_in_ext)
  then have "l = ?b" using l(2) start_in_ext [of l j] by (metis ext_simp order_antisym subsetD)
  with ji l(1) that show thesis by blast
qed

section \<open>Fully merged families\<close>

lemma coalesced_subset: "coalesced N S \<Longrightarrow> T \<subseteq> S \<Longrightarrow> coalesced N T"
  by (fastforce simp: coalesced_def)

lemma coalesced_insert:
  assumes "coalesced N S" "2 ^ i dvd k" "i < N \<longrightarrow> (buddy_of k i, i) \<notin> S" 
    and "\<forall>b \<in> S. wf_blk N b"
  shows "coalesced N (insert (k, i) S)"
proof -
  have "(k, i) \<noteq> (buddy_of l j, j)" if "(l, j) \<in> S" "j < N" for l j
  proof
    assume e: "(k, i) = (buddy_of l j, j)"
    have "2 ^ j dvd l" using assms(4) that by (auto simp: wf_blk_def)
    then have "buddy_of k i = l" using e by (simp add: buddy_of_involutive)
    with e assms(3) that show False by simp
  qed
  with assms(1-3) buddy_of_neq [OF assms(2)] show ?thesis
    unfolding coalesced_def by fastforce
qed

text \<open>Every aligned run of covered bytes lies inside one block of the family.\<close>

lemma coalesced_run:
  assumes f: "family N F" "coalesced N F"
  shows "wf_blk N (K, J) \<Longrightarrow> ext (K, J) \<subseteq> covered F \<Longrightarrow>
           \<exists>k i. (k, i) \<in> F \<and> J \<le> i \<and> ext (K, J) \<subseteq> ext (k, i)"
proof (induction J arbitrary: K)
  case 0
  then have "K \<in> covered F" by auto
  then show ?case by (fastforce simp: in_covered ext_def)
next
  case (Suc J)
  have w: "wf_blk N (K, J)" "wf_blk N (K + 2 ^ J, J)"
    using Suc.prems(1) by (rule wf_half_low, rule wf_half_high)
  from Suc obtain k i where ki: "(k, i) \<in> F" "J \<le> i" "ext (K, J) \<subseteq> ext (k, i)"
    using w(1) by (fastforce simp: ext_halves)
  from Suc obtain l j where lj: "(l, j) \<in> F" "J \<le> j" "ext (K + 2 ^ J, J) \<subseteq> ext (l, j)"
    using w(2) by (fastforce simp: ext_halves)
  have dK: "2 ^ Suc J dvd K" "J < N" using Suc.prems(1) by (auto simp: wf_blk_def)
  have grow: "\<exists>k i. (k, i) \<in> F \<and> Suc J \<le> i \<and> ext (K, Suc J) \<subseteq> ext (k, i)"
    if "(a, b) \<in> F" "Suc J \<le> b" "ext (K, Suc J) \<inter> ext (a, b) \<noteq> {}" for a b
    using that family_wf [OF f(1)] dK ext_nested [of "Suc J" K b a]
    by (fastforce simp: wf_blk_def)
  have eq: "a = L" if "(a, J) \<in> F" "ext (L, J) \<subseteq> ext (a, J)" for a L
    using that(2) by (auto simp: ext_def)
  show ?case
  proof (cases "J < i \<or> J < j")
    case True
    have "ext (K, Suc J) \<inter> ext (k, i) \<noteq> {}" "ext (K, Suc J) \<inter> ext (l, j) \<noteq> {}"
      using ki(3) lj(3) ext_nonempty [of "(K, J)"] ext_nonempty [of "(K + 2 ^ J, J)"]
      unfolding ext_halves by blast+
    with True ki(1) lj(1) grow show ?thesis by (meson Suc_leI)
  next
    case False
    then have "i = J" "j = J" using ki(2) lj(2) by simp_all
    then have "(K, J) \<in> F" "(K + 2 ^ J, J) \<in> F"
      using eq [of k K] eq [of l "K + 2 ^ J"] ki(1,3) lj(1,3) by auto
    then show ?thesis using f(2) dK by (fastforce simp: coalesced_def buddy_of_low)
  qed
qed

text \<open>So the bytes a fully merged family covers determine the family.\<close>

lemma coalesced_canonical:
  assumes "family N F" "coalesced N F" "family N G" "coalesced N G" "covered F = covered G"
  shows "F \<subseteq> G"
proof
  fix b assume b: "b \<in> F"
  obtain k i where bk: "b = (k, i)" by (cases b)
  have sub: "ext c \<subseteq> covered S" if "c \<in> S" for c S using that by (auto simp: in_covered)
  obtain l j where l: "(l, j) \<in> G" "i \<le> j" "ext (k, i) \<subseteq> ext (l, j)"
    using coalesced_run [OF assms(3,4), of k i] family_wf [OF assms(1) b] sub [OF b] assms(5) bk
    by auto
  obtain k' i' where k': "(k', i') \<in> F" "j \<le> i'" "ext (l, j) \<subseteq> ext (k', i')"
    using coalesced_run [OF assms(1,2), of l j] family_wf [OF assms(3) l(1)] sub [OF l(1)] assms(5)
    by auto
  have "(k, i) = (k', i')"
    using family_unique [OF assms(1) b [unfolded bk] k'(1), of k] l(3) k'(3) start_in_ext by blast
  then have "ext (k, i) = ext (l, j)" using l(3) k'(3) by auto
  then show "b \<in> G" using l(1) bk by (simp add: ext_inject)
qed

end
