(* ===== verification/Buddy_Layout.thy ===== *)
theory Buddy_Layout
  imports Buddy Blocks
begin

text \<open>
  Where a pool's list heads, block headers and order fields are in memory, and that under the
  layout a pool is created with no two of them overlap. Offsets into the pool are natural
  numbers; \<open>baddr mp k\<close> is the address of offset \<open>k\<close>.
\<close>

section \<open>Layout\<close>

definition baddr :: "buddy_mempool \<Rightarrow> nat \<Rightarrow> u64" where
  "baddr mp k = base_addr mp + of_nat k"

text \<open>
  The pool does not wrap around the address space, the array of list heads lies outside it,
  and the bitmap has a bit for every block of the minimum order. The pool is not at address
  0, so that no block's address is \<open>NULL\<close>.
\<close>

definition pool_layout :: "buddy_mempool \<Rightarrow> bool" where
  "pool_layout mp \<longleftrightarrow>
     5 \<le> min_order mp \<and> min_order mp \<le> pool_order mp \<and> pool_order mp < 64 \<and>
     0 < unat (base_addr mp) \<and> unat (base_addr mp) + 2 ^ pool_order mp \<le> 2 ^ 64 \<and>
     unat (avail mp) + 16 * Suc (pool_order mp) \<le> 2 ^ 64 \<and>
     (unat (avail mp) + 16 * Suc (pool_order mp) \<le> unat (base_addr mp) \<or>
      unat (base_addr mp) + 2 ^ pool_order mp \<le> unat (avail mp)) \<and>
     num_blocks mp = of_nat (2 ^ (pool_order mp - min_order mp)) \<and>
     length (tag_bits mp) = BITS_TO_LONGS (2 ^ (pool_order mp - min_order mp))"

text \<open>The offsets at which a block can start.\<close>

definition slot :: "buddy_mempool \<Rightarrow> nat \<Rightarrow> bool" where
  "slot mp k \<longleftrightarrow> 2 ^ min_order mp dvd k \<and> k < 2 ^ pool_order mp"

definition nodes :: "buddy_mempool \<Rightarrow> u64 set" where
  "nodes mp = avail_head mp ` {..pool_order mp} \<union> baddr mp ` {k. slot mp k}"

lemma pool_layout_orders:
  assumes "pool_layout mp"
  shows "5 \<le> min_order mp" "min_order mp \<le> pool_order mp" "pool_order mp < 64"
    "pool_order mp - min_order mp < 64"
  using assms by (auto simp: pool_layout_def)

lemma slot_room:
  assumes "pool_layout mp" "slot mp k"
  shows "k + 32 \<le> 2 ^ pool_order mp"
proof -
  have "k + 2 ^ min_order mp \<le> 2 ^ pool_order mp"
    using assms by (intro aligned_next) (auto simp: slot_def pool_layout_def le_imp_power_dvd)
  moreover have "(2 :: nat) ^ 5 \<le> 2 ^ min_order mp"
    using assms(1) by (intro power_increasing) (auto simp: pool_layout_def)
  ultimately show ?thesis by simp
qed

lemma unat_baddr_plus:
  assumes "pool_layout mp" "slot mp k" "unat c < 32"
  shows "unat (baddr mp k + c) = unat (base_addr mp) + k + unat c"
proof -
  have b: "unat (base_addr mp) + k + unat c < 2 ^ 64"
    using assms slot_room [OF assms(1,2)] by (simp add: pool_layout_def)
  then have "unat (of_nat (unat (base_addr mp) + k + unat c) :: u64) = unat (base_addr mp) + k + unat c"
    by (rule unat_of_nat_u64)
  then show ?thesis by (simp add: baddr_def)
qed

lemma unat_head_plus:
  assumes "pool_layout mp" "i \<le> pool_order mp" "unat c < 16"
  shows "unat (avail_head mp i + c) = unat (avail mp) + 16 * i + unat c"
proof -
  have b: "unat (avail mp) + 16 * i + unat c < 2 ^ 64"
    using assms by (simp add: pool_layout_def)
  then have "unat (of_nat (unat (avail mp) + 16 * i + unat c) :: u64) = unat (avail mp) + 16 * i + unat c"
    by (rule unat_of_nat_u64)
  then show ?thesis by (simp add: avail_head_def)
qed

lemma unat_baddr: "pool_layout mp \<Longrightarrow> slot mp k \<Longrightarrow> unat (baddr mp k) = unat (base_addr mp) + k"
  using unat_baddr_plus [of mp k 0] by simp

lemma unat_head: "pool_layout mp \<Longrightarrow> i \<le> pool_order mp \<Longrightarrow>
    unat (avail_head mp i) = unat (avail mp) + 16 * i"
  using unat_head_plus [of mp i 0] by simp

text \<open>Two positions inside block headers agree only if block and field agree.\<close>

lemma slot_field_inject:
  assumes "pool_layout mp" "slot mp k" "slot mp l" "d < 32" "e < 32"
  shows "k + d = l + e \<longleftrightarrow> k = l \<and> d = e"
proof -
  have "(2 :: nat) ^ 5 \<le> 2 ^ min_order mp"
    using assms(1) by (intro power_increasing) (auto simp: pool_layout_def)
  then have "(k + d) mod 2 ^ min_order mp = d" "(l + e) mod 2 ^ min_order mp = e"
    using assms by (auto simp: slot_def mod_add_left_eq [symmetric] dvd_eq_mod_eq_0)
  then show ?thesis by auto
qed

lemma baddr_field_inject:
  assumes "pool_layout mp" "slot mp k" "slot mp l" "unat c < 32" "unat d < 32"
  shows "baddr mp k + c = baddr mp l + d \<longleftrightarrow> k = l \<and> c = d"
  using slot_field_inject [OF assms] unat_baddr_plus [OF assms(1,2,4)] unat_baddr_plus [OF assms(1,3,5)]
  by (simp add: word_unat_eq_iff)

lemma head_field_inject:
  assumes "pool_layout mp" "i \<le> pool_order mp" "j \<le> pool_order mp" "unat c < 16" "unat d < 16"
  shows "avail_head mp i + c = avail_head mp j + d \<longleftrightarrow> i = j \<and> c = d"
proof -
  have "avail_head mp i + c = avail_head mp j + d \<longleftrightarrow> 16 * i + unat c = 16 * j + unat d"
    using unat_head_plus [OF assms(1,2,4)] unat_head_plus [OF assms(1,3,5)]
    by (simp add: word_unat_eq_iff)
  also have "\<dots> \<longleftrightarrow> i = j \<and> unat c = unat d" using assms(4,5) by arith
  finally show ?thesis by (simp add: word_unat_eq_iff)
qed

lemma head_field_neq_baddr:
  assumes "pool_layout mp" "i \<le> pool_order mp" "slot mp k" "unat c < 16" "unat d < 32"
  shows "avail_head mp i + c \<noteq> baddr mp k + d" "baddr mp k + d \<noteq> avail_head mp i + c"
  using assms unat_head_plus [OF assms(1,2,4)] unat_baddr_plus [OF assms(1,3,5)]
    slot_room [OF assms(1,3)]
  by (auto simp: pool_layout_def dest!: arg_cong [where f = unat])

lemma order_field_inject:
  "pool_layout mp \<Longrightarrow> slot mp k \<Longrightarrow> slot mp l \<Longrightarrow>
     order_field (baddr mp k) = order_field (baddr mp l) \<longleftrightarrow> k = l"
  using baddr_field_inject [of mp k l 16 16] by (simp add: order_field_def)

lemma baddr_inject: "pool_layout mp \<Longrightarrow> slot mp k \<Longrightarrow> slot mp l \<Longrightarrow> baddr mp k = baddr mp l \<longleftrightarrow> k = l"
  using baddr_field_inject [of mp k l 0 0] by simp

lemma head_inject:
  "pool_layout mp \<Longrightarrow> i \<le> pool_order mp \<Longrightarrow> j \<le> pool_order mp \<Longrightarrow>
     avail_head mp i = avail_head mp j \<longleftrightarrow> i = j"
  using head_field_inject [of mp i j 0 0] by simp

lemma head_neq_baddr:
  "pool_layout mp \<Longrightarrow> i \<le> pool_order mp \<Longrightarrow> slot mp k \<Longrightarrow> avail_head mp i \<noteq> baddr mp k"
  using head_field_neq_baddr(1) [of mp i k 0 0] by simp

lemma baddr_nonnull: "pool_layout mp \<Longrightarrow> slot mp k \<Longrightarrow> baddr mp k \<noteq> 0"
  using unat_baddr [of mp k] by (auto simp: pool_layout_def)

lemma baddr_less_iff:
  "pool_layout mp \<Longrightarrow> slot mp k \<Longrightarrow> slot mp l \<Longrightarrow> baddr mp k < baddr mp l \<longleftrightarrow> k < l"
  by (simp add: word_less_nat_alt unat_baddr)

text \<open>No node of a free list is the second word of another.\<close>

lemma sep_nodes:
  assumes "pool_layout mp"
  shows "sep (nodes mp)"
  unfolding sep_def
proof
  fix a assume "a \<in> nodes mp"
  then consider (head) i where "i \<le> pool_order mp" "a = avail_head mp i"
    | (block) k where "slot mp k" "a = baddr mp k"
    by (auto simp: nodes_def)
  then show "a + 8 \<notin> nodes mp"
  proof cases
    case head
    then show ?thesis
      using assms head_field_inject [OF assms, of i _ 8 0] head_field_neq_baddr(1) [OF assms, of i _ 8 0]
      by (auto simp: nodes_def)
  next
    case block
    then show ?thesis
      using assms baddr_field_inject [OF assms, of k _ 8 0] head_field_neq_baddr(2) [OF assms, of _ k 0 8]
      by (auto simp: nodes_def)
  qed
qed

text \<open>An order field is no word of any list node.\<close>

lemma order_field_not_node:
  assumes "pool_layout mp" "slot mp k" "a \<in> nodes mp"
  shows "order_field (baddr mp k) \<noteq> a" "order_field (baddr mp k) \<noteq> a + 8"
proof -
  from assms(3) consider (head) i where "i \<le> pool_order mp" "a = avail_head mp i"
    | (block) l where "slot mp l" "a = baddr mp l"
    by (auto simp: nodes_def)
  then have "order_field (baddr mp k) \<noteq> a \<and> order_field (baddr mp k) \<noteq> a + 8"
  proof cases
    case head
    then show ?thesis
      using head_field_neq_baddr(2) [OF assms(1) _ assms(2), of i 0 16]
        head_field_neq_baddr(2) [OF assms(1) _ assms(2), of i 8 16]
      by (simp add: order_field_def)
  next
    case block
    then show ?thesis
      using baddr_field_inject [OF assms(1,2), of l 16 0] baddr_field_inject [OF assms(1,2), of l 16 8]
      by (simp add: order_field_def)
  qed
  then show "order_field (baddr mp k) \<noteq> a" "order_field (baddr mp k) \<noteq> a + 8" by auto
qed

section \<open>Tags\<close>

definition tag :: "buddy_mempool \<Rightarrow> nat \<Rightarrow> bool" where
  "tag mp k = ktest_bit (k div 2 ^ min_order mp) (tag_bits mp)"

definition set_tag :: "buddy_mempool \<Rightarrow> nat \<Rightarrow> bool \<Rightarrow> buddy_mempool" where
  "set_tag mp k v = mp\<lparr>tag_bits := kput_bit (tag_bits mp) (k div 2 ^ min_order mp) v\<rparr>"

lemma set_tag_fields [simp]:
  "base_addr (set_tag mp k v) = base_addr mp" "pool_order (set_tag mp k v) = pool_order mp"
  "min_order (set_tag mp k v) = min_order mp" "num_blocks (set_tag mp k v) = num_blocks mp"
  "avail (set_tag mp k v) = avail mp" "avail_head (set_tag mp k v) = avail_head mp"
  "baddr (set_tag mp k v) = baddr mp" "slot (set_tag mp k v) = slot mp"
  "nodes (set_tag mp k v) = nodes mp" "pool_layout (set_tag mp k v) = pool_layout mp"
  by (auto simp: set_tag_def avail_head_def baddr_def slot_def nodes_def pool_layout_def fun_eq_iff)

lemma slot_id:
  assumes "pool_layout mp" "slot mp k"
  shows "k div 2 ^ min_order mp < 2 ^ (pool_order mp - min_order mp)"
    and "in_bitmap (tag_bits mp) (k div 2 ^ min_order mp)"
proof -
  have "(2 :: nat) ^ pool_order mp = 2 ^ (pool_order mp - min_order mp) * 2 ^ min_order mp"
    using assms(1) by (simp add: pool_layout_def power_add [symmetric])
  then show *: "k div 2 ^ min_order mp < 2 ^ (pool_order mp - min_order mp)"
    using assms(2) by (simp add: slot_def less_mult_imp_div_less)
  show "in_bitmap (tag_bits mp) (k div 2 ^ min_order mp)"
    using BITS_TO_LONGS_enough [OF *] assms(1)
    by (simp add: in_bitmap_def pool_layout_def bitmap_zero_def)
qed

lemma tag_set_tag:
  assumes "pool_layout mp" "slot mp k" "slot mp l"
  shows "tag (set_tag mp k v) l = (if l = k then v else tag mp l)"
proof -
  have "l div 2 ^ min_order mp = k div 2 ^ min_order mp \<longleftrightarrow> l = k"
    using assms(2,3) by (auto simp: slot_def elim!: dvdE)
  then show ?thesis
    using kbit.test_put [OF slot_id(2) [OF assms(1,2)] slot_id(2) [OF assms(1,3)]]
    by (simp add: tag_def set_tag_def)
qed

section \<open>The address computations of the code\<close>

lemma block_to_id_slot:
  assumes "pool_layout mp" "slot mp k"
  shows "block_to_id mp (baddr mp k) = Inr (of_nat (k div 2 ^ min_order mp))"
    and "unat (of_nat (k div 2 ^ min_order mp) :: u64) = k div 2 ^ min_order mp"
proof -
  let ?id = "k div 2 ^ min_order mp"
  have po: "(2 :: nat) ^ pool_order mp < 2 ^ 64" "(2 :: nat) ^ (pool_order mp - min_order mp) < 2 ^ 64"
    using pool_layout_orders [OF assms(1)] by (intro power_strict_increasing; simp)+
  then have uk: "unat (of_nat k :: u64) = k" using assms(2) by (intro unat_of_nat_u64) (simp add: slot_def)
  show uid: "unat (of_nat ?id :: u64) = ?id"
    using slot_id(1) [OF assms] po by (intro unat_of_nat_u64) simp
  have "unat (drop_bit (min_order mp) (of_nat k :: u64)) = ?id"
    by (simp only: unat_drop_bit_eq uk) (simp add: drop_bit_eq_div)
  then have "drop_bit (min_order mp) (of_nat k :: u64) = of_nat ?id"
    by (simp add: word_unat_eq_iff uid)
  moreover have "unat (num_blocks mp) = 2 ^ (pool_order mp - min_order mp)"
    using assms(1) unat_pow2_u64 [OF pool_layout_orders(4) [OF assms(1)]] by (simp add: pool_layout_def)
  ultimately show "block_to_id mp (baddr mp k) = Inr (of_nat ?id)"
    using slot_id(1) [OF assms] uid by (simp add: block_to_id_def baddr_def word_le_nat_alt)
qed

lemma tag_ops_slot:
  assumes "pool_layout mp" "slot mp k"
  shows "is_available mp (baddr mp k) = Inr (tag mp k)"
    and "mark_available mp (baddr mp k) = Inr (set_tag mp k True)"
    and "mark_allocated mp (baddr mp k) = Inr (set_tag mp k False)"
  using block_to_id_slot [OF assms]
  by (simp_all add: is_available_def mark_available_def mark_allocated_def tag_def set_tag_def
      kset_bit_put kclear_bit_put)

text \<open>Flipping bit \<open>i\<close> of a multiple of \<open>2 ^ i\<close> is going to its buddy.\<close>

lemma xor_buddy_of:
  assumes "2 ^ i dvd k"
  shows "(of_nat k :: u64) XOR push_bit i 1 = of_nat (buddy_of k i)"
proof -
  from assms obtain q where k: "k = 2 ^ i * q" by (auto elim: dvdE)
  have "(of_nat k :: u64) XOR push_bit i 1 = push_bit i (of_nat q XOR 1)"
    unfolding push_bit_xor by (simp add: k push_bit_eq_mult mult.commute)
  also have "(of_nat q XOR 1 :: u64) = of_nat (if even q then q + 1 else q - 1)"
    by (auto simp: xor_one_eq elim!: oddE)
  also have "push_bit i (of_nat (if even q then q + 1 else q - 1)) = (of_nat (buddy_of k i) :: u64)"
    by (auto simp: push_bit_eq_mult buddy_of_def k algebra_simps elim!: oddE)
  finally show ?thesis .
qed

lemma find_buddy_slot:
  assumes "pool_layout mp" "slot mp k" "2 ^ i dvd k"
  shows "find_buddy mp (baddr mp k) i = Inr (baddr mp (buddy_of k i))"
proof -
  have "\<not> baddr mp k < base_addr mp"
    using unat_baddr [OF assms(1,2)] by (simp add: word_less_nat_alt)
  then show ?thesis
    using xor_buddy_of [OF assms(3)] by (simp add: find_buddy_def baddr_def add.commute)
qed

lemma upper_half_addr: "baddr mp k + push_bit i 1 = baddr mp (k + 2 ^ i)"
  by (simp add: baddr_def push_bit_eq_mult)

end
