(* ===== verification/Buddy_Inv.thy ===== *)
theory Buddy_Inv
  imports Buddy_Layout
begin

text \<open>
  The representation invariant of a pool. Ghost state beside the C state: \<open>fl i\<close>, the offsets
  on the free list of order \<open>i\<close>, and \<open>A\<close>, the blocks handed out. \<open>pool_core\<close> ties both to
  the memory and the bitmap; \<open>pool_inv\<close> adds what holds between two calls. Each elementary step of
  the allocator (unlinking a block, linking one, splitting, merging, setting a tag) has one
  lemma that says how it changes the ghost state.
\<close>

section \<open>The invariant\<close>

definition free_set :: "(nat \<Rightarrow> nat list) \<Rightarrow> blk set" where
  "free_set fl = {(k, i). k \<in> set (fl i)}"

definition pool_core :: "buddy_mempool \<Rightarrow> mem \<Rightarrow> (nat \<Rightarrow> nat list) \<Rightarrow> blk set \<Rightarrow> bool" where
  "pool_core mp m fl A \<longleftrightarrow>
     pool_layout mp \<and>
     (\<forall>i \<le> pool_order mp. dlist m (avail_head mp i) (map (baddr mp) (fl i))) \<and>
     (\<forall>(k, i) \<in> free_set fl \<union> A. min_order mp \<le> i) \<and>
     free_set fl \<inter> A = {} \<and> tiling (pool_order mp) (free_set fl \<union> A) \<and>
     (\<forall>(k, i) \<in> free_set fl. m (order_field (baddr mp k)) = of_nat i \<and> tag mp k)"

definition pool_inv :: "buddy_mempool \<Rightarrow> mem \<Rightarrow> (nat \<Rightarrow> nat list) \<Rightarrow> blk set \<Rightarrow> bool" where
  "pool_inv mp m fl A \<longleftrightarrow>
     pool_core mp m fl A \<and> (\<forall>(k, i) \<in> A. \<not> tag mp k) \<and> coalesced (pool_order mp) (free_set fl)"

lemma in_free_set [simp]: "(k, i) \<in> free_set fl \<longleftrightarrow> k \<in> set (fl i)"
  by (simp add: free_set_def)

lemma free_set_Cons: "free_set (fl(i := k # ks)) = insert (k, i) (free_set (fl(i := ks)))"
  by (auto simp: free_set_def)

lemma core_layout: "pool_core mp m fl A \<Longrightarrow> pool_layout mp"
  by (simp add: pool_core_def)

lemma core_list:
  "pool_core mp m fl A \<Longrightarrow> i \<le> pool_order mp \<Longrightarrow> dlist m (avail_head mp i) (map (baddr mp) (fl i))"
  by (simp add: pool_core_def)

lemma core_tiling: "pool_core mp m fl A \<Longrightarrow> tiling (pool_order mp) (free_set fl \<union> A)"
  and core_disjoint: "pool_core mp m fl A \<Longrightarrow> free_set fl \<inter> A = {}"
  by (simp_all add: pool_core_def)

lemma core_family: "pool_core mp m fl A \<Longrightarrow> family (pool_order mp) (free_set fl \<union> A)"
  using core_tiling by (auto simp: tiling_def)

lemma core_free:
  assumes "pool_core mp m fl A" "k \<in> set (fl i)"
  shows "m (order_field (baddr mp k)) = of_nat i" "tag mp k"
  using assms by (auto simp: pool_core_def free_set_def)

lemma core_block:
  assumes c: "pool_core mp m fl A" and b: "(k, i) \<in> free_set fl \<union> A"
  shows "slot mp k" "min_order mp \<le> i" "i \<le> pool_order mp" "2 ^ i dvd k"
    "k + 2 ^ i \<le> 2 ^ pool_order mp"
proof -
  have w: "wf_blk (pool_order mp) (k, i)" using core_family [OF c] b by (rule family_wf)
  show o: "min_order mp \<le> i" using c b by (auto simp: pool_core_def)
  from w show "i \<le> pool_order mp" "2 ^ i dvd k" "k + 2 ^ i \<le> 2 ^ pool_order mp"
    by (simp_all add: wf_blk_def)
  moreover have "2 ^ min_order mp dvd (2 :: nat) ^ i" using o by (rule le_imp_power_dvd)
  ultimately show "slot mp k"
    unfolding slot_def by (metis dvd_trans less_le_trans less_add_same_cancel1 zero_less_numeral zero_less_power)
qed

lemmas core_free_block = core_block [OF _ UnI1, simplified]
lemmas core_alloc_block = core_block [OF _ UnI2]

lemma core_start_neq:
  assumes c: "pool_core mp m fl A" and "(k, i) \<in> A" "l \<in> set (fl j)"
  shows "l \<noteq> k"
proof
  assume "l = k"
  then have "(k, i) \<in> free_set fl \<inter> A"
    using family_start_unique [OF core_family [OF c], of k j i] assms(2,3) by auto
  then show False using core_disjoint [OF c] by auto
qed

section \<open>The nodes of one list\<close>

definition lnodes :: "buddy_mempool \<Rightarrow> (nat \<Rightarrow> nat list) \<Rightarrow> nat \<Rightarrow> u64 set" where
  "lnodes mp fl i = set (avail_head mp i # map (baddr mp) (fl i))"

lemma lnodes_nodes:
  assumes "pool_core mp m fl A" "i \<le> pool_order mp"
  shows "lnodes mp fl i \<subseteq> nodes mp"
  using assms core_free_block(1) [OF assms(1)] by (auto simp: lnodes_def nodes_def)

lemma lnodes_disjoint:
  assumes c: "pool_core mp m fl A" and i: "i \<le> pool_order mp" "j \<le> pool_order mp" "i \<noteq> j"
  shows "lnodes mp fl i \<inter> lnodes mp fl j = {}"
proof -
  note lay = core_layout [OF c]
  have "k \<notin> set (fl j)" if "k \<in> set (fl i)" for k
    using family_start_unique [OF core_family [OF c], of k i j] that i(3) by auto
  then show ?thesis
    using i lay core_free_block(1) [OF c]
    by (auto simp: lnodes_def head_inject baddr_inject head_neq_baddr)
qed

lemma lists_distinct: "pool_core mp m fl A \<Longrightarrow> i \<le> pool_order mp \<Longrightarrow> distinct (fl i)"
  using core_list [of mp m fl A i] by (simp add: dlist_def distinct_map)

text \<open>A write next to no word of list \<open>j\<close> leaves it alone.\<close>

lemma other_list_frame:
  assumes c: "pool_core mp m fl A" and j: "j \<le> pool_order mp"
    and T: "T \<subseteq> nodes mp" "T \<inter> lnodes mp fl j = {}"
    and frame: "\<And>l. l \<notin> T \<Longrightarrow> l \<notin> (\<lambda>x. x + 8) ` T \<Longrightarrow> m' l = m l"
  shows "dlist m' (avail_head mp j) (map (baddr mp) (fl j))"
proof (rule dlist_frame [OF core_list [OF c j]])
  fix l assume "l \<in> insert (avail_head mp j) (set (map (baddr mp) (fl j)))"
  then have l: "l \<in> lnodes mp fl j" by (simp add: lnodes_def)
  then have "l \<in> nodes mp" using lnodes_nodes [OF c j] by auto
  then have "l \<notin> T" "l \<notin> (\<lambda>x. x + 8) ` T" "l + 8 \<notin> T" "l + 8 \<notin> (\<lambda>x. x + 8) ` T"
    using l T sepD [OF sep_nodes [OF core_layout [OF c]]] by auto
  then show "m' l = m l \<and> m' (l + 8) = m (l + 8)" using frame by simp
qed

section \<open>Elementary steps\<close>

lemma core_take:
  assumes c: "pool_core mp m fl A" and f: "fl i = xs @ k # ys"
  shows "pool_core mp (list_del (baddr mp k) m) (fl(i := xs @ ys)) (insert (k, i) A)"
proof -
  let ?m = "list_del (baddr mp k) m" and ?fl = "fl(i := xs @ ys)"
  note lay = core_layout [OF c]
  have ki: "k \<in> set (fl i)" using f by simp
  note i = core_free_block(3) [OF c ki]
  have d: "dlist m (avail_head mp i) (map (baddr mp) xs @ baddr mp k # map (baddr mp) ys)"
    using core_list [OF c i] f by simp
  have L: "set (avail_head mp i # map (baddr mp) xs @ baddr mp k # map (baddr mp) ys) = lnodes mp fl i"
    by (simp add: lnodes_def f)
  have sub: "lnodes mp fl i \<subseteq> nodes mp" using lnodes_nodes [OF c i] .
  have fr: "?m l = m l" if "l \<notin> lnodes mp fl i" "l \<notin> (\<lambda>x. x + 8) ` lnodes mp fl i" for l
    using list_del_frame [OF d] that unfolding L by blast
  have fs: "free_set ?fl = free_set fl - {(k, i)}"
    using lists_distinct [OF c i] f by (auto simp: free_set_def split: if_splits)
  have U: "free_set ?fl \<union> insert (k, i) A = free_set fl \<union> A"
    unfolding fs using ki by (auto simp del: in_free_set simp: in_free_set [symmetric])
  have "dlist ?m (avail_head mp j) (map (baddr mp) (?fl j))" if j: "j \<le> pool_order mp" for j
  proof (cases "j = i")
    case True
    have "sep (lnodes mp fl i)" using sep_nodes [OF lay] sub by (rule sep_subset)
    with dlist_list_del [OF d] True show ?thesis unfolding L by simp
  next
    case False
    with other_list_frame [OF c j sub] lnodes_disjoint [OF c i j] fr show ?thesis by simp
  qed
  moreover have "?m (order_field (baddr mp l)) = m (order_field (baddr mp l))" if "slot mp l" for l
    using fr order_field_not_node [OF lay that] sub by blast
  then have "\<forall>(l, j) \<in> free_set ?fl. ?m (order_field (baddr mp l)) = of_nat j \<and> tag mp l"
    using fs core_free [OF c] core_free_block(1) [OF c] by auto
  moreover have "free_set ?fl \<inter> insert (k, i) A = {}"
    using fs core_disjoint [OF c] by auto
  ultimately show ?thesis
    using c unfolding pool_core_def U by blast
qed

lemma core_write_order:
  assumes c: "pool_core mp m fl A" and b: "(k, i) \<in> A"
  shows "pool_core mp (m(order_field (baddr mp k) := v)) fl A"
proof -
  let ?m = "m(order_field (baddr mp k) := v)"
  note lay = core_layout [OF c] and k = core_alloc_block(1) [OF c b]
  have "dlist ?m (avail_head mp j) (map (baddr mp) (fl j))" if j: "j \<le> pool_order mp" for j
  proof (rule dlist_frame [OF core_list [OF c j]])
    fix l assume "l \<in> insert (avail_head mp j) (set (map (baddr mp) (fl j)))"
    then have "l \<in> nodes mp" using lnodes_nodes [OF c j] by (auto simp: lnodes_def)
    then show "?m l = m l \<and> ?m (l + 8) = m (l + 8)"
      using order_field_not_node [OF lay k, of l] by simp
  qed
  moreover have "\<forall>(l, j) \<in> free_set fl. ?m (order_field (baddr mp l)) = of_nat j \<and> tag mp l"
    using core_free [OF c] core_free_block(1) [OF c] core_start_neq [OF c b] k lay by (auto simp: order_field_inject)
  ultimately show ?thesis using c unfolding pool_core_def by blast
qed

lemma core_clear_tag:
  assumes c: "pool_core mp m fl A" and b: "(k, i) \<in> A"
  shows "pool_core (set_tag mp k False) m fl A"
proof -
  note lay = core_layout [OF c] and k = core_alloc_block(1) [OF c b]
  have "\<forall>(l, j) \<in> free_set fl. tag (set_tag mp k False) l"
    using core_free [OF c] core_free_block(1) [OF c] core_start_neq [OF c b] k lay by (auto simp: tag_set_tag)
  with c show ?thesis by (auto simp: pool_core_def)
qed

lemma core_give:
  assumes c0: "pool_core mp m fl (insert (k, i) A)" and nA: "(k, i) \<notin> A"
  shows "pool_core (set_tag mp k True)
           (list_add (baddr mp k) (avail_head mp i) (m(order_field (baddr mp k) := of_nat i)))
           (fl(i := k # fl i)) A"
proof -
  let ?m1 = "m(order_field (baddr mp k) := of_nat i)"
  let ?m = "list_add (baddr mp k) (avail_head mp i) ?m1" and ?fl = "fl(i := k # fl i)"
  have c: "pool_core mp ?m1 fl (insert (k, i) A)" by (rule core_write_order [OF c0, of k i]) simp
  note lay = core_layout [OF c] and b = core_alloc_block [OF c, of k i, simplified]
  have neq: "k \<notin> set (fl j)" for j using core_start_neq [OF c, of k i k j] by auto
  have d: "dlist ?m1 (avail_head mp i) (map (baddr mp) (fl i))" using core_list [OF c b(3)] .
  let ?T = "insert (baddr mp k) (lnodes mp fl i)"
  have sub: "?T \<subseteq> nodes mp" using lnodes_nodes [OF c b(3)] b(1) by (auto simp: nodes_def)
  have fr: "?m l = ?m1 l" if "l \<notin> ?T" "l \<notin> (\<lambda>x. x + 8) ` ?T" for l
    using list_add_frame [OF d, of l "baddr mp k"] that by (auto simp: lnodes_def)
  have new: "baddr mp k \<notin> lnodes mp fl j" if "j \<le> pool_order mp" for j
    using that neq core_free_block(1) [OF c] b(1) lay head_neq_baddr [OF lay that b(1)]
    by (auto simp: lnodes_def baddr_inject)
  have "dlist ?m (avail_head mp j) (map (baddr mp) (?fl j))" if j: "j \<le> pool_order mp" for j
  proof (cases "j = i")
    case True
    have "sep ?T" using sep_nodes [OF lay] sub by (rule sep_subset)
    with dlist_list_add [OF d] new [OF b(3)] True show ?thesis by (simp add: lnodes_def)
  next
    case False
    then have "?T \<inter> lnodes mp fl j = {}" using lnodes_disjoint [OF c b(3) j] new [OF j] by auto
    with other_list_frame [OF c j sub] fr False show ?thesis by simp
  qed
  moreover have "?m (order_field (baddr mp l)) = ?m1 (order_field (baddr mp l))" if "slot mp l" for l
    using fr order_field_not_node [OF lay that] sub by blast
  then have "\<forall>(l, j) \<in> free_set ?fl. ?m (order_field (baddr mp l)) = of_nat j \<and> tag (set_tag mp k True) l"
    using core_free [OF c] core_free_block(1) [OF c] b(1) lay by (auto simp: tag_set_tag split: if_splits)
  moreover have fs: "free_set ?fl = insert (k, i) (free_set fl)" by (auto simp: free_set_def)
  moreover have "free_set ?fl \<inter> A = {}" using core_disjoint [OF c] nA fs by auto
  ultimately show ?thesis
    using c unfolding pool_core_def by simp
qed

lemma core_split:
  assumes c: "pool_core mp m fl (insert (k, Suc i) A)" and nA: "(k, Suc i) \<notin> A" and i: "min_order mp \<le> i"
  shows "pool_core mp m fl (insert (k + 2 ^ i, i) (insert (k, i) A))"
    and "(k, i) \<notin> A" "(k + 2 ^ i, i) \<notin> insert (k, i) A"
proof -
  let ?R = "free_set fl \<union> A"
  have "tiling (pool_order mp) (insert (k, Suc i) ?R)" "(k, Suc i) \<notin> ?R"
    using core_tiling [OF c] core_disjoint [OF c] nA by auto
  note t = tiling_split [OF this]
  then show "(k, i) \<notin> A" "(k + 2 ^ i, i) \<notin> insert (k, i) A" by auto
  have "free_set fl \<union> insert (k + 2 ^ i, i) (insert (k, i) A)
      = insert (k, i) (insert (k + 2 ^ i, i) ?R)" by auto
  with t c i show "pool_core mp m fl (insert (k + 2 ^ i, i) (insert (k, i) A))"
    by (auto simp: pool_core_def)
qed

lemma core_merge:
  assumes c: "pool_core mp m fl (insert (buddy_of k i, i) (insert (k, i) A))"
    and nA: "(k, i) \<notin> A" "(buddy_of k i, i) \<notin> A" and i: "i < pool_order mp"
  shows "pool_core mp m fl (insert (min k (buddy_of k i), Suc i) A)"
    and "(min k (buddy_of k i), Suc i) \<notin> A"
proof -
  let ?R = "free_set fl \<union> A" and ?b = "(min k (buddy_of k i), Suc i)"
  have e: "free_set fl \<union> insert (buddy_of k i, i) (insert (k, i) A)
      = insert (k, i) (insert (buddy_of k i, i) ?R)" by auto
  have o: "min_order mp \<le> i" using core_alloc_block(2) [OF c, of k i] by simp
  have "tiling (pool_order mp) (insert (k, i) (insert (buddy_of k i, i) ?R))"
    "(k, i) \<notin> ?R" "(buddy_of k i, i) \<notin> ?R"
    using core_tiling [OF c] core_disjoint [OF c] nA unfolding e by auto
  note t = tiling_merge [OF this(1) i this(2,3)]
  then show "?b \<notin> A" by auto
  have "free_set fl \<union> insert ?b A = insert ?b ?R" by auto
  with t c o show "pool_core mp m fl (insert ?b A)"
    by (auto simp: pool_core_def)
qed

section \<open>What an operation may write\<close>

text \<open>The addresses that belong to a pool: its array of list heads and its memory.\<close>

definition footprint :: "buddy_mempool \<Rightarrow> u64 set" where
  "footprint mp = {a. unat (avail mp) \<le> unat a \<and> unat a < unat (avail mp) + 16 * Suc (pool_order mp)} \<union>
     {a. unat (base_addr mp) \<le> unat a \<and> unat a < unat (base_addr mp) + 2 ^ pool_order mp}"

text \<open>The addresses of the blocks \<open>A\<close>: what has been handed out, and is not the allocator's to write.\<close>

definition held :: "buddy_mempool \<Rightarrow> blk set \<Rightarrow> u64 set" where
  "held mp A = {a. \<exists>x \<in> covered A. unat a = unat (base_addr mp) + x}"

definition agree_off :: "buddy_mempool \<Rightarrow> blk set \<Rightarrow> mem \<Rightarrow> mem \<Rightarrow> bool" where
  "agree_off mp A m m' \<longleftrightarrow> (\<forall>a. a \<notin> footprint mp \<or> a \<in> held mp A \<longrightarrow> m' a = m a)"

lemma agree_off_refl [simp]: "agree_off mp A m m"
  by (simp add: agree_off_def)

lemma agree_off_trans: "agree_off mp A m m' \<Longrightarrow> agree_off mp A m' m'' \<Longrightarrow> agree_off mp A m m''"
  by (simp add: agree_off_def)

lemma held_empty [simp]: "held mp {} = {}"
  by (simp add: held_def covered_def)

lemma footprint_set_tag [simp]: "footprint (set_tag mp k v) = footprint mp"
  and held_set_tag [simp]: "held (set_tag mp k v) = held mp"
  and agree_off_set_tag [simp]: "agree_off (set_tag mp k v) = agree_off mp"
  by (simp_all add: footprint_def held_def agree_off_def fun_eq_iff)

text \<open>The header of a block, free or not, is in no other block that is handed out.\<close>

lemma block_not_held:
  assumes c: "pool_core mp m fl A" and b: "(k, i) \<in> free_set fl \<union> A" and B: "B \<subseteq> A" "(k, i) \<notin> B"
    and d: "unat d < 32"
  shows "baddr mp k + d \<notin> held mp B"
proof
  note lay = core_layout [OF c] and kb = core_block [OF c b]
  assume "baddr mp k + d \<in> held mp B"
  then obtain b' where b': "b' \<in> B" "k + unat d \<in> ext b'"
    using unat_baddr_plus [OF lay kb(1) d] by (auto simp: held_def in_covered)
  have "(2 :: nat) ^ 5 \<le> 2 ^ i"
    using pool_layout_orders(1) [OF lay] kb(2) by (intro power_increasing) auto
  then have "k + unat d \<in> ext (k, i)" using d by (simp add: ext_simp)
  then have "b' = (k, i)" using family_unique [OF core_family [OF c]] b b' B(1) by blast
  with b'(1) B(2) show False by simp
qed

lemma head_not_held:
  assumes c: "pool_core mp m fl A" and i: "i \<le> pool_order mp" "unat d < 16" and B: "B \<subseteq> A"
  shows "avail_head mp i + d \<notin> held mp B"
proof
  note lay = core_layout [OF c]
  assume "avail_head mp i + d \<in> held mp B"
  then obtain x k j where b: "(k, j) \<in> A" "x < k + 2 ^ j" "unat (avail mp) + 16 * i + unat d = unat (base_addr mp) + x"
    using unat_head_plus [OF lay i] B by (force simp: held_def in_covered ext_def)
  then show False using lay i core_alloc_block(5) [OF c b(1)] by (auto simp: pool_layout_def)
qed

lemma lnode_not_held:
  assumes c: "pool_core mp m fl A" and i: "i \<le> pool_order mp" and a: "a \<in> lnodes mp fl i"
  shows "a \<notin> held mp A" "a + 8 \<notin> held mp A"
proof -
  have n: "(k, i) \<notin> A" if "k \<in> set (fl i)" for k using core_start_neq [OF c _ that] by blast
  from a show "a \<notin> held mp A"
    using head_not_held [OF c i, of 0 A] block_not_held [OF c _ subset_refl n, of _ 0] by (auto simp: lnodes_def)
  from a show "a + 8 \<notin> held mp A"
    using head_not_held [OF c i, of 8 A] block_not_held [OF c _ subset_refl n, of _ 8] by (auto simp: lnodes_def)
qed

lemma node_footprint:
  assumes lay: "pool_layout mp" and a: "a \<in> nodes mp"
  shows "a \<in> footprint mp" "a + 8 \<in> footprint mp"
proof -
  from a consider (head) i where "i \<le> pool_order mp" "a = avail_head mp i"
    | (block) k where "slot mp k" "a = baddr mp k"
    by (auto simp: nodes_def)
  then have "a \<in> footprint mp \<and> a + 8 \<in> footprint mp"
  proof cases
    case head
    then show ?thesis using unat_head [OF lay] unat_head_plus [OF lay, of i 8] by (simp add: footprint_def)
  next
    case block
    then show ?thesis
      using unat_baddr [OF lay] unat_baddr_plus [OF lay, of k 8] slot_room [OF lay, of k] by (simp add: footprint_def)
  qed
  then show "a \<in> footprint mp" "a + 8 \<in> footprint mp" by auto
qed

lemma order_field_footprint:
  assumes "pool_layout mp" "slot mp k"
  shows "order_field (baddr mp k) \<in> footprint mp"
  using unat_baddr_plus [OF assms, of 16] slot_room [OF assms] by (simp add: footprint_def order_field_def)

lemma write_order_frame:
  assumes c: "pool_core mp m fl (insert (k, i) A)" "(k, i) \<notin> A"
  shows "agree_off mp A m' (m'(order_field (baddr mp k) := v))"
proof -
  have "order_field (baddr mp k) \<in> footprint mp"
    using order_field_footprint [OF core_layout [OF c(1)]] core_alloc_block(1) [OF c(1), of k i] by simp
  moreover have "order_field (baddr mp k) \<notin> held mp A"
    using block_not_held [OF c(1) _ _ c(2), of 16] by (auto simp: order_field_def)
  ultimately show ?thesis by (auto simp: agree_off_def)
qed

lemma agree_off_mono: "agree_off mp A m m' \<Longrightarrow> B \<subseteq> A \<Longrightarrow> agree_off mp B m m'"
  unfolding agree_off_def held_def covered_def by blast

lemma take_frame:
  assumes c: "pool_core mp m fl A" and f: "fl i = xs @ k # ys"
  shows "agree_off mp A m (list_del (baddr mp k) m)"
  unfolding agree_off_def
proof (intro allI impI)
  fix a assume a: "a \<notin> footprint mp \<or> a \<in> held mp A"
  have i: "i \<le> pool_order mp" using core_free_block(3) [OF c, of k i] f by simp
  have d: "dlist m (avail_head mp i) (map (baddr mp) xs @ baddr mp k # map (baddr mp) ys)"
    using core_list [OF c i] f by simp
  have L: "set (avail_head mp i # map (baddr mp) xs @ baddr mp k # map (baddr mp) ys) = lnodes mp fl i"
    by (simp add: lnodes_def f)
  have "a \<notin> lnodes mp fl i" "a \<notin> (\<lambda>x. x + 8) ` lnodes mp fl i"
    using a lnode_not_held [OF c i] lnodes_nodes [OF c i] node_footprint [OF core_layout [OF c]] by blast+
  then show "list_del (baddr mp k) m a = m a"
    by (intro list_del_frame [OF d]) (simp_all only: L not_False_eq_True)
qed

lemma give_frame:
  assumes c: "pool_core mp m fl (insert (k, i) A)" and nA: "(k, i) \<notin> A"
  shows "agree_off mp A m (list_add (baddr mp k) (avail_head mp i) (m(order_field (baddr mp k) := of_nat i)))"
proof -
  let ?m1 = "m(order_field (baddr mp k) := of_nat i)"
  note lay = core_layout [OF c] and bb = core_alloc_block [OF c, of k i, simplified]
  have c1: "pool_core mp ?m1 fl (insert (k, i) A)" using c by (rule core_write_order [of _ _ _ _ k i]) simp
  have sub: "insert (baddr mp k) (lnodes mp fl i) \<subseteq> nodes mp"
    using lnodes_nodes [OF c1 bb(3)] bb(1) by (auto simp: nodes_def)
  have hA: "held mp A \<subseteq> held mp (insert (k, i) A)" by (auto simp: held_def)
  have "list_add (baddr mp k) (avail_head mp i) ?m1 a = ?m1 a" if a: "a \<notin> footprint mp \<or> a \<in> held mp A" for a
  proof -
    have "x \<in> footprint mp \<and> x + 8 \<in> footprint mp \<and> x \<notin> held mp A \<and> x + 8 \<notin> held mp A"
      if "x \<in> insert (baddr mp k) (lnodes mp fl i)" for x
      using that sub node_footprint [OF lay] lnode_not_held [OF c1 bb(3)] hA
        block_not_held [OF c _ _ nA, of 0] block_not_held [OF c _ _ nA, of 8]
      by (cases "x = baddr mp k") auto
    then have "a \<notin> insert (baddr mp k) (lnodes mp fl i)" "a \<notin> (\<lambda>x. x + 8) ` insert (baddr mp k) (lnodes mp fl i)"
      using a by blast+
    then show ?thesis
      by (intro list_add_frame [OF core_list [OF c1 bb(3)]]) (auto simp: lnodes_def)
  qed
  then show ?thesis
    using write_order_frame [OF c nA, of m "of_nat i"] by (simp add: agree_off_def)
qed

text \<open>
  The invariant reads nothing outside the footprint and nothing in the blocks handed out: what
  their owners store there does not matter.
\<close>

lemma pool_inv_cong:
  assumes inv: "pool_inv mp m fl A" and e: "\<And>a. a \<in> footprint mp \<Longrightarrow> a \<notin> held mp A \<Longrightarrow> m' a = m a"
  shows "pool_inv mp m' fl A"
proof -
  have c: "pool_core mp m fl A" using inv by (simp add: pool_inv_def)
  note lay = core_layout [OF c]
  have "dlist m' (avail_head mp i) (map (baddr mp) (fl i))" if i: "i \<le> pool_order mp" for i
  proof (rule dlist_frame [OF core_list [OF c i]])
    fix l assume "l \<in> insert (avail_head mp i) (set (map (baddr mp) (fl i)))"
    then have "l \<in> lnodes mp fl i" by (simp add: lnodes_def)
    then show "m' l = m l \<and> m' (l + 8) = m (l + 8)"
      using e node_footprint [OF lay] lnodes_nodes [OF c i] lnode_not_held [OF c i] by blast
  qed
  moreover have "\<forall>(k, i) \<in> free_set fl. m' (order_field (baddr mp k)) = of_nat i \<and> tag mp k"
  proof (clarify)
    fix k i assume k: "(k, i) \<in> free_set fl"
    then have "(k, i) \<notin> A" using core_disjoint [OF c] by blast
    then have "order_field (baddr mp k) \<notin> held mp A"
      using block_not_held [OF c _ subset_refl, of k i 16] k by (auto simp: order_field_def)
    then show "m' (order_field (baddr mp k)) = of_nat i \<and> tag mp k"
      using core_free [OF c] core_free_block(1) [OF c] order_field_footprint [OF lay] e k by simp
  qed
  ultimately show ?thesis using inv unfolding pool_inv_def pool_core_def by blast
qed

end
