(* ===== verification/Buddy_Spec.thy ===== *)
theory Buddy_Spec
  imports Buddy_Inv
begin

text \<open>
  The abstract buddy allocator, on lists of free offsets only, and the refinement: on a pool
  that satisfies the invariant, \<open>buddy_alloc\<close> and \<open>buddy_free\<close> do to the memory, the bitmap
  and the pool exactly what the abstract operations do to the lists, and \<open>BUG\<close> does not fire.
\<close>

section \<open>The abstract allocator\<close>

definition spec_trim :: "(nat \<Rightarrow> nat list) \<Rightarrow> nat \<Rightarrow> nat \<Rightarrow> nat \<Rightarrow> nat \<Rightarrow> nat list" where
  "spec_trim fl k order j = (\<lambda>i. if order \<le> i \<and> i < j then (k + 2 ^ i) # fl i else fl i)"

lemma spec_trim_same: "spec_trim fl k j j = fl"
  by (auto simp: spec_trim_def)

text \<open>The block comes from the first non-empty list that is large enough.\<close>

definition spec_alloc ::
    "nat \<Rightarrow> (nat \<Rightarrow> nat list) \<Rightarrow> nat \<Rightarrow> (nat \<times> (nat \<Rightarrow> nat list)) option" where
  "spec_alloc N fl order =
     (case List.find (\<lambda>j. fl j \<noteq> []) [order ..< Suc N] of
        None \<Rightarrow> None
      | Some j \<Rightarrow> Some (hd (fl j), spec_trim (fl(j := tl (fl j))) (hd (fl j)) order j))"

function spec_free :: "nat \<Rightarrow> (nat \<Rightarrow> nat list) \<Rightarrow> nat \<Rightarrow> nat \<Rightarrow> nat \<Rightarrow> nat list" where
  "spec_free N fl k i =
     (if i < N \<and> buddy_of k i \<in> set (fl i)
      then spec_free N (fl(i := remove1 (buddy_of k i) (fl i))) (min k (buddy_of k i)) (Suc i)
      else fl(i := k # fl i))"
  by pat_completeness auto
termination
  by (relation "measure (\<lambda>(N, fl, k, i). N - i)") auto

declare spec_free.simps [simp del]

section \<open>Pools that differ in their tags only\<close>

definition same_pool :: "buddy_mempool \<Rightarrow> buddy_mempool \<Rightarrow> bool" where
  "same_pool mp mp' \<longleftrightarrow> mp' = mp\<lparr>tag_bits := tag_bits mp'\<rparr>"

lemma same_pool_refl [simp]: "same_pool mp mp"
  by (simp add: same_pool_def)

lemma same_pool_set_tag [simp]: "same_pool mp (set_tag mp k v)"
  by (simp add: same_pool_def set_tag_def)

lemma same_pool_trans: "same_pool a b \<Longrightarrow> same_pool b c \<Longrightarrow> same_pool a c"
  by (cases a; cases b; cases c) (simp add: same_pool_def)

lemma same_pool_fields:
  assumes "same_pool mp mp'"
  shows "base_addr mp' = base_addr mp" "pool_order mp' = pool_order mp"
    "min_order mp' = min_order mp" "avail mp' = avail mp" "baddr mp' = baddr mp"
    "avail_head mp' = avail_head mp"
  using assms
  by (cases mp; cases mp'; simp add: same_pool_def baddr_def avail_head_def fun_eq_iff)+

lemma same_pool_footprint:
  "same_pool mp mp' \<Longrightarrow> footprint mp' = footprint mp"
  "same_pool mp mp' \<Longrightarrow> held mp' = held mp"
  "same_pool mp mp' \<Longrightarrow> agree_off mp' = agree_off mp"
  by (simp_all add: footprint_def held_def agree_off_def same_pool_fields fun_eq_iff)

section \<open>Trimming\<close>

lemma alloc_tags_set_tag:
  assumes "pool_core mp m fl A" "(k, i) \<in> A" "\<forall>(l, j) \<in> B. \<not> tag mp l" "B \<subseteq> A" "(k, i) \<notin> B"
  shows "\<forall>(l, j) \<in> B. \<not> tag (set_tag mp k v) l"
proof (clarify)
  fix l j assume lj: "(l, j) \<in> B" and t: "tag (set_tag mp k v) l"
  then have "(l, j) \<in> A" "\<not> tag mp l" using assms(3,4) by auto
  moreover have "l \<noteq> k"
    using family_start_unique [OF core_family [OF assms(1)], of k i j] assms(2,5) lj calculation by auto
  ultimately show False
    using t tag_set_tag [OF core_layout [OF assms(1)]] core_alloc_block(1) [OF assms(1)] assms(2)
    by (simp split: if_splits)
qed

lemma buddy_trim_refines:
  assumes "pool_core mp m fl (insert (k, j) A)" "(k, j) \<notin> A" "order \<le> j" "min_order mp \<le> order"
    and "\<forall>(l, i) \<in> insert (k, j) A. \<not> tag mp l" and "coalesced (pool_order mp) (free_set fl)"
  shows "\<exists>mp' m'. buddy_trim mp m (baddr mp k) order j = Inr (mp', m') \<and> same_pool mp mp' \<and>
           agree_off mp A m m' \<and> pool_inv mp' m' (spec_trim fl k order j) (insert (k, order) A) \<and> (k, order) \<notin> A"
  using assms
proof (induction j arbitrary: mp m fl)
  case 0
  then show ?case
    by (subst buddy_trim.simps) (simp add: spec_trim_same pool_inv_def)
next
  case (Suc j)
  show ?case
  proof (cases "order = Suc j")
    case True
    with Suc.prems show ?thesis
      by (subst buddy_trim.simps) (simp add: spec_trim_same pool_inv_def)
  next
    case False
    let ?u = "k + 2 ^ j" and ?fl = "fl(j := (k + 2 ^ j) # fl j)"
    let ?mp = "set_tag mp ?u True"
    let ?m = "list_add (baddr mp ?u) (avail_head mp j) (m(order_field (baddr mp ?u) := of_nat j))"
    have oj: "order \<le> j" "min_order mp \<le> j" using False Suc.prems(3,4) by auto
    note sp = core_split [OF Suc.prems(1,2) oj(2)]
    note lay = core_layout [OF sp(1)] and u = core_alloc_block [OF sp(1), of ?u j, simplified]
    have c: "pool_core ?mp ?m ?fl (insert (k, j) A)" by (rule core_give [OF sp(1,3)])
    have mo: "min_order ?mp \<le> order" using Suc.prems(4) by simp
    have tg: "\<forall>(l, i) \<in> insert (k, j) A. \<not> tag ?mp l"
      by (rule alloc_tags_set_tag [OF sp(1)]) (use Suc.prems(5) sp(3) in auto)
    have "coalesced (pool_order mp) (insert (?u, j) (free_set fl))"
    proof (rule coalesced_insert [OF Suc.prems(6)])
      show "2 ^ j dvd ?u" using core_alloc_block(4) [OF sp(1), of ?u j] by simp
      have "2 ^ Suc j dvd k" using core_alloc_block(4) [OF Suc.prems(1), of k "Suc j"] by simp
      then have "buddy_of ?u j = k" by (rule buddy_of_high)
      then show "j < pool_order mp \<longrightarrow> (buddy_of ?u j, j) \<notin> free_set fl"
        using core_disjoint [OF sp(1)] by auto
      show "\<forall>b \<in> free_set fl. wf_blk (pool_order mp) b"
        using core_family [OF sp(1)] by (auto simp: family_def)
    qed
    then have co: "coalesced (pool_order ?mp) (free_set ?fl)"
      by (simp add: free_set_Cons)
    obtain mp' m' where r: "buddy_trim ?mp ?m (baddr ?mp k) order j = Inr (mp', m')"
      "same_pool ?mp mp'" "agree_off ?mp A ?m m'"
      "pool_inv mp' m' (spec_trim ?fl k order j) (insert (k, order) A)" "(k, order) \<notin> A"
      using Suc.IH [OF c sp(2) oj(1) mo tg co] by blast
    have "spec_trim ?fl k order j = spec_trim fl k order (Suc j)"
      using oj(1) by (auto simp: spec_trim_def fun_eq_iff)
    moreover have "buddy_trim mp m (baddr mp k) order (Suc j) = Inr (mp', m')"
      using r(1) oj(1) tag_ops_slot(2) [OF lay u(1)]
      by (subst buddy_trim.simps) (simp add: Let_def upper_half_addr del: push_bit_of_1)
    moreover have "agree_off mp A m m'"
      using agree_off_trans [OF agree_off_mono [OF give_frame [OF sp(1,3)]]] r(3) by auto
    ultimately show ?thesis using r(2,4,5) same_pool_trans [OF same_pool_set_tag] by metis
  qed
qed

section \<open>Coalescing\<close>

text \<open>What the code reads at the buddy's address tells whether the buddy is free and as large.\<close>

lemma buddy_test:
  assumes c: "pool_core mp m fl (insert (k, i) A)" and i: "i < pool_order mp"
    and t: "\<forall>(l, j) \<in> A. \<not> tag mp l"
  shows "slot mp (buddy_of k i)"
    and "tag mp (buddy_of k i) \<and> m (order_field (baddr mp (buddy_of k i))) = of_nat i
           \<longleftrightarrow> buddy_of k i \<in> set (fl i)"
proof -
  let ?b = "buddy_of k i"
  obtain j where j: "j \<le> i" "(?b, j) \<in> free_set fl \<union> insert (k, i) A"
    using buddy_start [OF core_tiling [OF c] _ i] by blast
  have "?b \<noteq> k" using core_alloc_block(4) [OF c, of k i] buddy_of_neq by simp
  then have cases: "?b \<in> set (fl j) \<or> (?b, j) \<in> A" using j(2) by auto
  show "slot mp ?b" using core_block(1) [OF c j(2)] .
  have uniq: "?b \<in> set (fl i) \<Longrightarrow> i = j"
    using family_start_unique [OF core_family [OF c], of ?b i j] j(2) by simp
  have inj: "(of_nat j :: u64) = of_nat i \<longleftrightarrow> j = i"
    using j(1) i pool_layout_orders(3) [OF core_layout [OF c]] unat_of_nat_u64 [of i] unat_of_nat_u64 [of j]
    by (metis (no_types) less_trans less_exp less_le_trans order_less_imp_le le_less_trans)
  show "tag mp ?b \<and> m (order_field (baddr mp ?b)) = of_nat i \<longleftrightarrow> ?b \<in> set (fl i)"
    using cases
  proof
    assume f: "?b \<in> set (fl j)"
    with core_free [OF c f] inj uniq show ?thesis by auto
  next
    assume a: "(?b, j) \<in> A"
    with t core_start_neq [OF c, of ?b j ?b i] show ?thesis by auto
  qed
qed

lemma buddy_coalesce_refines:
  assumes "pool_core mp m fl (insert (k, i) A)" "(k, i) \<notin> A"
    and "\<forall>(l, j) \<in> A. \<not> tag mp l" and "coalesced (pool_order mp) (free_set fl)"
  shows "\<exists>k' i' m' fl'. buddy_coalesce mp m (baddr mp k) i = Inr (baddr mp k', i', m') \<and>
           agree_off mp A m m' \<and> pool_core mp m' fl' (insert (k', i') A) \<and> (k', i') \<notin> A \<and>
           coalesced (pool_order mp) (free_set fl') \<and>
           (i' < pool_order mp \<longrightarrow> buddy_of k' i' \<notin> set (fl' i')) \<and>
           fl'(i' := k' # fl' i') = spec_free (pool_order mp) fl k i"
  using assms
proof (induction "pool_order mp - i" arbitrary: m fl k i)
  case 0
  have "i \<le> pool_order mp" using core_alloc_block(3) [OF 0(2), of k i] by simp
  with 0 show ?case
    by (subst buddy_coalesce.simps, subst spec_free.simps) auto
next
  case (Suc n)
  let ?b = "buddy_of k i"
  note c = Suc.prems(1) and lay = core_layout [OF Suc.prems(1)]
  have i: "i < pool_order mp" using Suc.hyps(2) by simp
  note k = core_alloc_block [OF c, of k i, simplified]
  note b = buddy_test [OF c i Suc.prems(3)]
  have calls: "find_buddy mp (baddr mp k) i = Inr (baddr mp ?b)"
    "is_available mp (baddr mp ?b) = Inr (tag mp ?b)"
    using find_buddy_slot [OF lay k(1,4)] tag_ops_slot(1) [OF lay b(1)] by simp_all
  show ?case
  proof (cases "?b \<in> set (fl i)")
    case False
    then have "buddy_coalesce mp m (baddr mp k) i = Inr (baddr mp k, i, m)"
      using b(2) i by (subst buddy_coalesce.simps) (auto simp: calls)
    with False Suc.prems show ?thesis
      by (subst spec_free.simps) auto
  next
    case True
    then obtain xs ys where xy: "fl i = xs @ ?b # ys" by (auto dest: split_list)
    let ?l = "min k ?b" and ?fl = "fl(i := xs @ ys)" and ?m1 = "list_del (baddr mp ?b) m"
    let ?m = "?m1(order_field (baddr mp ?l) := of_nat (Suc i))"
    have dis: "distinct (fl i)" using lists_distinct [OF c] i by simp
    have "(?b, i) \<notin> insert (k, i) A" using core_start_neq [OF c _ True] by blast
    with core_merge [OF core_take [OF c xy], OF Suc.prems(2) _ i]
    have mg: "pool_core mp ?m1 ?fl (insert (?l, Suc i) A)" "(?l, Suc i) \<notin> A" by auto
    have c': "pool_core mp ?m ?fl (insert (?l, Suc i) A)"
      by (rule core_write_order [OF mg(1), of _ "Suc i"]) simp
    have "free_set ?fl \<subseteq> free_set fl" by (auto simp: free_set_def xy split: if_splits)
    then have co: "coalesced (pool_order mp) (free_set ?fl)" by (rule coalesced_subset [OF Suc.prems(4)])
    have "(if baddr mp ?b < baddr mp k then baddr mp ?b else baddr mp k) = baddr mp ?l"
      using baddr_less_iff [OF lay b(1) k(1)] by (auto simp: min_def)
    then have "buddy_coalesce mp m (baddr mp k) i = buddy_coalesce mp ?m (baddr mp ?l) (Suc i)"
      using b(2) True i by (subst buddy_coalesce.simps) (simp add: calls Let_def)
    moreover have "spec_free (pool_order mp) fl k i = spec_free (pool_order mp) ?fl ?l (Suc i)"
      using True i dis xy by (subst spec_free.simps) (simp add: remove1_append)
    moreover have "agree_off mp A m ?m"
      using agree_off_trans [OF agree_off_mono [OF take_frame [OF c xy]] write_order_frame [OF mg]] by auto
    ultimately have step: "buddy_coalesce mp m (baddr mp k) i = buddy_coalesce mp ?m (baddr mp ?l) (Suc i)"
      "spec_free (pool_order mp) fl k i = spec_free (pool_order mp) ?fl ?l (Suc i)" "agree_off mp A m ?m"
      by simp_all
    have "n = pool_order mp - Suc i" using Suc.hyps(2) by simp
    from Suc.hyps(1) [OF this c' mg(2) Suc.prems(3) co] agree_off_trans [OF step(3)]
    show ?thesis unfolding step(1,2) by blast
  qed
qed

section \<open>The operations\<close>

lemma inv_core: "pool_inv mp m fl A \<Longrightarrow> pool_core mp m fl A"
  and inv_tags: "pool_inv mp m fl A \<Longrightarrow> \<forall>(k, i) \<in> A. \<not> tag mp k"
  and inv_coalesced: "pool_inv mp m fl A \<Longrightarrow> coalesced (pool_order mp) (free_set fl)"
  by (simp_all add: pool_inv_def)

text \<open>Taking the first block of a list and clearing its tag.\<close>

lemma take_first:
  assumes inv: "pool_inv mp m fl A" and f: "fl j = k # ks"
  shows "pool_core (set_tag mp k False) (list_del (baddr mp k) m) (fl(j := ks)) (insert (k, j) A)"
    and "\<forall>(l, i) \<in> insert (k, j) A. \<not> tag (set_tag mp k False) l"
    and "coalesced (pool_order mp) (free_set (fl(j := ks)))" and "(k, j) \<notin> A"
proof -
  note c = inv_core [OF inv]
  have c1: "pool_core mp (list_del (baddr mp k) m) (fl(j := ks)) (insert (k, j) A)"
    using core_take [OF c, of j "[]" k ks] f by simp
  then show "pool_core (set_tag mp k False) (list_del (baddr mp k) m) (fl(j := ks)) (insert (k, j) A)"
    by (rule core_clear_tag [of _ _ _ _ k j]) simp
  show nA: "(k, j) \<notin> A" using core_start_neq [OF c, of k j k j] f by auto
  have "slot mp k" using core_free_block(1) [OF c, of k j] f by simp
  then have "\<not> tag (set_tag mp k False) k" using tag_set_tag [OF core_layout [OF c]] by simp
  moreover have "\<forall>(l, i) \<in> A. \<not> tag (set_tag mp k False) l"
    by (rule alloc_tags_set_tag [OF c1, of k j]) (use inv_tags [OF inv] nA in auto)
  ultimately show "\<forall>(l, i) \<in> insert (k, j) A. \<not> tag (set_tag mp k False) l" by auto
  have "free_set (fl(j := ks)) \<subseteq> free_set fl" using f by (auto simp: free_set_def split: if_splits)
  then show "coalesced (pool_order mp) (free_set (fl(j := ks)))"
    using inv_coalesced [OF inv] by (rule coalesced_subset [rotated])
qed

lemma buddy_scan_step:
  assumes inv: "pool_inv mp m fl A" and j: "order \<le> j" "j \<le> pool_order mp" "min_order mp \<le> order"
    and f: "fl j = k # ks"
  shows "\<exists>mp' m'. buddy_scan mp m order j = Inr (baddr mp k, mp', m') \<and> same_pool mp mp' \<and>
           agree_off mp A m m' \<and> pool_inv mp' m' (spec_trim (fl(j := ks)) k order j) (insert (k, order) A) \<and> (k, order) \<notin> A"
proof -
  note c = inv_core [OF inv] and lay = core_layout [OF inv_core [OF inv]]
  note tf = take_first [OF inv f]
  have d: "dlist m (avail_head mp j) (baddr mp k # map (baddr mp) ks)"
    using core_list [OF c j(2)] f by simp
  have k: "slot mp k" using core_free_block(1) [OF c, of k j] f by simp
  let ?mp = "set_tag mp k False"
  obtain mp' m' where r: "buddy_trim ?mp (list_del (baddr mp k) m) (baddr mp k) order j = Inr (mp', m')"
    "same_pool ?mp mp'" "agree_off ?mp A (list_del (baddr mp k) m) m'"
    "pool_inv mp' m' (spec_trim (fl(j := ks)) k order j) (insert (k, order) A)" "(k, order) \<notin> A"
    using buddy_trim_refines [OF tf(1,4) j(1) _ tf(2)] tf(3) j(3) by (auto simp del: fun_upd_apply)
  moreover have "buddy_scan mp m order j = Inr (baddr mp k, mp', m')"
    using r(1) j(2) dlist_empty_iff [OF d] dlist_first [OF d] tag_ops_slot(3) [OF lay k]
    by (subst buddy_scan.simps) (simp add: Let_def)
  moreover have "same_pool mp mp'" using r(2) same_pool_trans same_pool_set_tag by blast
  moreover have "agree_off mp A m m'"
    using agree_off_trans [OF take_frame [OF c, of j "[]" k ks]] f r(3) by simp
  ultimately show ?thesis by blast
qed

definition alloc_refines ::
    "buddy_mempool \<Rightarrow> mem \<Rightarrow> blk set \<Rightarrow> nat \<Rightarrow> (nat \<times> (nat \<Rightarrow> nat list)) option \<Rightarrow>
     (u64 \<times> buddy_mempool \<times> mem) outcome \<Rightarrow> bool" where
  "alloc_refines mp m A order spec impl \<longleftrightarrow>
     (case spec of
        None \<Rightarrow> impl = Inr (0, mp, m)
      | Some (k, fl') \<Rightarrow>
          \<exists>mp' m'. impl = Inr (baddr mp k, mp', m') \<and> same_pool mp mp' \<and>
            agree_off mp A m m' \<and> pool_inv mp' m' fl' (insert (k, order) A) \<and> (k, order) \<notin> A)"

lemma buddy_scan_refines:
  assumes inv: "pool_inv mp m fl A" and o: "min_order mp \<le> order"
  shows "order \<le> j \<Longrightarrow>
    alloc_refines mp m A order
      (case List.find (\<lambda>j. fl j \<noteq> []) [j ..< Suc (pool_order mp)] of
         None \<Rightarrow> None
       | Some j \<Rightarrow> Some (hd (fl j), spec_trim (fl(j := tl (fl j))) (hd (fl j)) order j))
      (buddy_scan mp m order j)"
proof (induction "Suc (pool_order mp) - j" arbitrary: j)
  case 0
  then show ?case by (subst buddy_scan.simps) (simp add: alloc_refines_def)
next
  case (Suc n)
  then have j: "j \<le> pool_order mp" by simp
  then have u: "[j ..< Suc (pool_order mp)] = j # [Suc j ..< Suc (pool_order mp)]"
    by (simp add: upt_conv_Cons)
  show ?case
  proof (cases "fl j")
    case Nil
    have d: "dlist m (avail_head mp j) []" using core_list [OF inv_core [OF inv] j] Nil by simp
    have "buddy_scan mp m order j = buddy_scan mp m order (Suc j)"
      using j dlist_empty_iff [OF d] by (subst buddy_scan.simps) simp
    then show ?thesis using Suc.hyps(1) [of "Suc j"] Suc.hyps(2) Suc.prems Nil unfolding u by simp
  next
    case (Cons k ks)
    then show ?thesis
      using buddy_scan_step [OF inv Suc.prems j o Cons] unfolding u by (simp add: alloc_refines_def)
  qed
qed

text \<open>The order a request is served with.\<close>

definition eff_order :: "buddy_mempool \<Rightarrow> nat \<Rightarrow> nat" where
  "eff_order mp order = max order (min_order mp)"

lemma eff_order_if: "(if order < min_order mp then min_order mp else order) = eff_order mp order"
  by (auto simp: eff_order_def)

lemma buddy_alloc_refines:
  assumes "pool_inv mp m fl A" "order \<le> pool_order mp"
  shows "alloc_refines mp m A (eff_order mp order)
           (spec_alloc (pool_order mp) fl (eff_order mp order)) (buddy_alloc mp order m)"
proof -
  have "buddy_alloc mp order m = buddy_scan mp m (eff_order mp order) (eff_order mp order)"
    using assms(2) by (simp only: buddy_alloc_def eff_order_if Let_def not_less [symmetric] if_False)
  then show ?thesis
    using buddy_scan_refines [OF assms(1), of "eff_order mp order" "eff_order mp order"]
    unfolding spec_alloc_def by (simp only: eff_order_def max.cobounded2 order_refl)
qed

lemma buddy_free_refines:
  assumes inv: "pool_inv mp m fl (insert (k, eff_order mp order) A)"
    and nA: "(k, eff_order mp order) \<notin> A" and o: "order \<le> pool_order mp"
  shows "\<exists>mp' m'. buddy_free mp (baddr mp k) order m = Inr (mp', m') \<and> same_pool mp mp' \<and>
           agree_off mp A m m' \<and> pool_inv mp' m' (spec_free (pool_order mp) fl k (eff_order mp order)) A"
proof -
  let ?i = "eff_order mp order" and ?N = "pool_order mp"
  note c = inv_core [OF inv] and lay = core_layout [OF inv_core [OF inv]]
  have k: "slot mp k" "\<not> tag mp k"
    using core_alloc_block(1) [OF c, of k ?i] inv_tags [OF inv] by auto
  obtain l i m1 fl1 where r: "buddy_coalesce mp m (baddr mp k) ?i = Inr (baddr mp l, i, m1)"
    "pool_core mp m1 fl1 (insert (l, i) A)" "(l, i) \<notin> A" "coalesced ?N (free_set fl1)"
    "i < ?N \<longrightarrow> buddy_of l i \<notin> set (fl1 i)" "fl1(i := l # fl1 i) = spec_free ?N fl k ?i"
    "agree_off mp A m m1"
    using buddy_coalesce_refines [OF c nA] inv_tags [OF inv] inv_coalesced [OF inv] by auto
  note l = core_alloc_block [OF r(2), of l i, simplified]
  have t: "\<forall>(k, i) \<in> A. \<not> tag (set_tag mp l True) k"
    by (rule alloc_tags_set_tag [OF r(2), of l i]) (use inv_tags [OF inv] r(3) in auto)
  have "coalesced ?N (insert (l, i) (free_set fl1))"
    using r(4,5) l(4) core_family [OF r(2)] by (intro coalesced_insert) (auto simp: family_def)
  then have "coalesced ?N (free_set (fl1(i := l # fl1 i)))" by (simp add: free_set_Cons)
  with core_give [OF r(2,3)] t
  have "pool_inv (set_tag mp l True)
      (list_add (baddr mp l) (avail_head mp i) (m1(order_field (baddr mp l) := of_nat i)))
      (spec_free ?N fl k ?i) A"
    unfolding pool_inv_def r(6) by simp
  moreover have "buddy_free mp (baddr mp k) order m = Inr (set_tag mp l True,
      list_add (baddr mp l) (avail_head mp i) (m1(order_field (baddr mp l) := of_nat i)))"
    using o k r(1) tag_ops_slot [OF lay] l(1)
    unfolding buddy_free_def eff_order_if by (simp add: Let_def)
  moreover have "agree_off mp A m
      (list_add (baddr mp l) (avail_head mp i) (m1(order_field (baddr mp l) := of_nat i)))"
    using agree_off_trans [OF r(7) give_frame [OF r(2,3)]] .
  ultimately show ?thesis using same_pool_set_tag by blast
qed

end
