(* ===== verification/Alloc_Contract.thy ===== *)
theory Alloc_Contract
  imports Prelude
begin

text \<open>
  The contract between an allocator of memory blocks and its clients. It is stated once,
  as the locale \<open>block_allocator\<close>, and interpreted twice: on one buddy pool (theory Buddy_Correct)
  and on the module's list of pools behind \<open>petmem_alloc_pages\<close> and \<open>petmem_free_pages\<close>
  (theory Pools). A client is a sequence of requests, each of which acquires a block of some
  size or releases one of the blocks it still holds.
\<close>

datatype request = Acquire nat | Release nat

fun session ::
    "('s \<Rightarrow> nat \<Rightarrow> ('b option \<times> 's) outcome) \<Rightarrow> ('s \<Rightarrow> 'b \<Rightarrow> 's outcome) \<Rightarrow>
     's \<Rightarrow> 'b list \<Rightarrow> request list \<Rightarrow> ('s \<times> 'b list) outcome" where
  "session alloc free s live [] = Inr (s, live)"
| "session alloc free s live (Acquire n # rs) =
     ebind (alloc s n) (\<lambda>(r, s').
       session alloc free s' (case r of None \<Rightarrow> live | Some b \<Rightarrow> b # live) rs)"
| "session alloc free s live (Release i # rs) =
     (if i < length live then
        ebind (free s (live ! i)) (\<lambda>s'.
          session alloc free s' (take i live @ drop (Suc i) live) rs)
      else session alloc free s live rs)"

locale block_allocator =
  fixes inv :: "'s \<Rightarrow> 'b set \<Rightarrow> bool"
    and alloc :: "'s \<Rightarrow> nat \<Rightarrow> ('b option \<times> 's) outcome"
    and free :: "'s \<Rightarrow> 'b \<Rightarrow> 's outcome"
    and ok_req :: "'s \<Rightarrow> nat \<Rightarrow> bool"
    and span :: "'b \<Rightarrow> nat set"
  assumes alloc_ok: "inv s L \<Longrightarrow> ok_req s n \<Longrightarrow>
      \<exists>r s'. alloc s n = Inr (r, s') \<and> (\<forall>k. ok_req s' k = ok_req s k) \<and>
        (case r of None \<Rightarrow> inv s' L | Some b \<Rightarrow> b \<notin> L \<and> inv s' (insert b L))"
    and free_ok: "inv s L \<Longrightarrow> b \<in> L \<Longrightarrow>
      \<exists>s'. free s b = Inr s' \<and> (\<forall>k. ok_req s' k = ok_req s k) \<and> inv s' (L - {b})"
    and live_disjoint: "inv s L \<Longrightarrow> b \<in> L \<Longrightarrow> c \<in> L \<Longrightarrow> b \<noteq> c \<Longrightarrow> span b \<inter> span c = {}"
begin

lemma session_step_alloc:
  assumes "inv s (set live)" "distinct live" "ok_req s n"
  obtains r s' where "alloc s n = Inr (r, s')" "\<And>k. ok_req s' k = ok_req s k"
    "inv s' (set (case r of None \<Rightarrow> live | Some b \<Rightarrow> b # live))"
    "distinct (case r of None \<Rightarrow> live | Some b \<Rightarrow> b # live)"
  using alloc_ok [OF assms(1,3)] assms(2) that by (auto split: option.splits)

lemma set_remove_nth:
  assumes "distinct xs" "i < length xs"
  shows "set (take i xs @ drop (Suc i) xs) = set xs - {xs ! i}"
    and "distinct (take i xs @ drop (Suc i) xs)"
proof -
  have x: "xs = take i xs @ xs ! i # drop (Suc i) xs" using assms(2) by (rule id_take_nth_drop)
  then have d: "distinct (take i xs @ xs ! i # drop (Suc i) xs)" using assms(1) by simp
  then show "distinct (take i xs @ drop (Suc i) xs)" by auto
  have "set xs = set (take i xs @ xs ! i # drop (Suc i) xs)" using x by metis
  with d show "set (take i xs @ drop (Suc i) xs) = set xs - {xs ! i}" by auto
qed

text \<open>No client that stays within the sizes served can make the allocator stop in \<open>BUG_ON\<close>.\<close>

lemma session_safe:
  assumes "inv s (set live)" "distinct live" "\<And>n. Acquire n \<in> set rs \<Longrightarrow> ok_req s n"
  shows "\<exists>s' live'. session alloc free s live rs = Inr (s', live') \<and> inv s' (set live') \<and> distinct live'"
  using assms
proof (induction rs arbitrary: s live)
  case Nil
  then show ?case by simp
next
  case (Cons r rs)
  show ?case
  proof (cases r)
    case (Acquire n)
    then have "ok_req s n" using Cons.prems(3) by simp
    then obtain b s' where "alloc s n = Inr (b, s')" "\<And>k. ok_req s' k = ok_req s k"
      "inv s' (set (case b of None \<Rightarrow> live | Some b \<Rightarrow> b # live))"
      "distinct (case b of None \<Rightarrow> live | Some b \<Rightarrow> b # live)"
      using session_step_alloc Cons.prems(1,2) by blast
    with Cons.IH [of s' "case b of None \<Rightarrow> live | Some b \<Rightarrow> b # live"] Cons.prems(3) Acquire
    show ?thesis by simp
  next
    case (Release i)
    show ?thesis
    proof (cases "i < length live")
      case True
      note rem = set_remove_nth [OF Cons.prems(2) True]
      have "live ! i \<in> set live" using True by simp
      then obtain s' where "free s (live ! i) = Inr s'" "\<And>k. ok_req s' k = ok_req s k"
        "inv s' (set live - {live ! i})"
        using free_ok Cons.prems(1) by blast
      with Cons.IH [of s' "take i live @ drop (Suc i) live"] Cons.prems(3) Release True rem
      show ?thesis by simp
    next
      case False
      with Cons.IH [of s live] Cons.prems Release show ?thesis by simp
    qed
  qed
qed

text \<open>Nor can it ever be handed a block that overlaps one it still holds.\<close>

lemma session_disjoint:
  assumes "inv s (set live)" "distinct live" "\<And>n. Acquire n \<in> set rs \<Longrightarrow> ok_req s n"
    and "session alloc free s live rs = Inr (s', live')" "i < length live'" "j < length live'" "i \<noteq> j"
  shows "span (live' ! i) \<inter> span (live' ! j) = {}"
proof -
  have "inv s' (set live')" "distinct live'"
    using session_safe [of s live rs] assms(1-4) by auto
  with assms(5-7) show ?thesis
    by (intro live_disjoint) (auto simp: nth_eq_iff_index_eq)
qed

end

end
