(* ===== verification/Buddy_Correct.thy ===== *)
theory Buddy_Correct
  imports Buddy_Spec Alloc_Contract
begin

text \<open>
  What the buddy allocator guarantees its caller: \<open>buddy_init\<close> followed by the release of the whole
  range gives a pool in which everything is free; \<open>buddy_alloc\<close> and \<open>buddy_free\<close> keep the
  invariant, never stop in \<open>BUG_ON\<close> when used as intended, and are exact about the bytes they
  move between free and allocated.
\<close>

section \<open>Initialisation\<close>

lemma unat_head_addr:
  assumes "unat av + 16 * n \<le> 2 ^ 64" "j < n" "unat c < 16"
  shows "unat (av + 16 * of_nat j + c) = unat av + 16 * j + unat (c :: u64)"
proof -
  have "unat (of_nat (unat av + 16 * j + unat c) :: u64) = unat av + 16 * j + unat c"
    using assms by (intro unat_of_nat_u64) simp
  then show ?thesis by simp
qed

lemma init_lists_heads:
  assumes "unat av + 16 * n \<le> 2 ^ 64"
  shows "i < n \<Longrightarrow> dlist (init_lists av n m) (av + 16 * of_nat i) []"
  using assms
proof (induction n)
  case 0
  then show ?case by simp
next
  case (Suc n)
  note pos = unat_head_addr [OF Suc.prems(2)]
  show ?case
  proof (cases "i = n")
    case True
    then show ?thesis by (simp add: dlist_INIT)
  next
    case False
    then have i: "i < n" using Suc.prems(1) by simp
    have "av + 16 * of_nat i + c \<noteq> av + 16 * of_nat n + d"
      if "unat c < 16" "unat d < 16" for c d :: u64
    proof
      assume "av + 16 * of_nat i + c = av + 16 * of_nat n + d"
      then have "unat av + 16 * i + unat c = unat av + 16 * n + unat d"
        using pos [of i c] pos [of n d] i that by (metis less_Suc_eq)
      with i that show False by simp
    qed
    note ne = this [of 0 0] this [of 0 8] this [of 8 0] this [of 8 8]
    have "dlist (init_lists av n m) (av + 16 * of_nat i) []" using Suc i by simp
    then show ?thesis
      by (rule dlist_frame) (use ne in \<open>auto simp: INIT_LIST_HEAD_def\<close>)
  qed
qed

lemma init_lists_frame:
  assumes "unat av + 16 * n \<le> 2 ^ 64" "\<not> (unat av \<le> unat a \<and> unat a < unat av + 16 * n)"
  shows "init_lists av n m a = m a"
  using assms
proof (induction n)
  case (Suc n)
  have ne: "a \<noteq> av + 16 * of_nat n + c" if "unat c < 16" for c
    using unat_head_addr [OF Suc.prems(1), of n c] Suc.prems(2) that by auto
  have "init_lists av n m a = m a" using Suc by auto
  with ne [of 0] ne [of 8] show ?case by (simp add: INIT_LIST_HEAD_def)
qed simp

text \<open>
  The arguments \<open>buddy_init\<close> is sound for: the pool and the array of list heads fit into the
  address space without overlapping.
\<close>

definition init_ok :: "u64 \<Rightarrow> u64 \<Rightarrow> nat \<Rightarrow> nat \<Rightarrow> bool" where
  "init_ok av base porder morder \<longleftrightarrow>
     morder < 64 \<and> porder < 64 \<and> 0 < unat base \<and> unat base + 2 ^ porder \<le> 2 ^ 64 \<and>
     unat av + 16 * Suc porder \<le> 2 ^ 64 \<and>
     (unat av + 16 * Suc porder \<le> unat base \<or> unat base + 2 ^ porder \<le> unat av)"

lemma min_order_fixup:
  assumes "morder < 64"
  shows "(if (push_bit morder 1 :: u64) < SIZEOF_BLOCK then 5 else morder) = max morder 5"
proof -
  have "(push_bit morder 1 :: u64) < SIZEOF_BLOCK \<longleftrightarrow> (2 :: nat) ^ morder < 24"
    using unat_pow2_u64 [OF assms] by (simp add: SIZEOF_BLOCK_def word_less_nat_alt)
  also have "\<dots> \<longleftrightarrow> morder < 5"
  proof
    assume "(2 :: nat) ^ morder < 24"
    then show "morder < 5"
      using power_increasing [of 5 morder "2 :: nat"] by (cases "5 \<le> morder") auto
  next
    assume "morder < 5"
    then show "(2 :: nat) ^ morder < 24"
      using power_increasing [of morder 4 "2 :: nat"] by simp
  qed
  finally show ?thesis by (simp add: max_def)
qed

lemma num_blocks_eq:
  assumes "j \<le> i" "i < 64"
  shows "(push_bit i 1 :: u64) div push_bit j 1 = of_nat (2 ^ (i - j))"
    and "unat ((push_bit i 1 :: u64) div push_bit j 1) = 2 ^ (i - j)"
proof -
  show u: "unat ((push_bit i 1 :: u64) div push_bit j 1) = 2 ^ (i - j)"
    using unat_pow2_u64 [of i] unat_pow2_u64 [of j] assms by (simp add: unat_div power_diff)
  show "(push_bit i 1 :: u64) div push_bit j 1 = of_nat (2 ^ (i - j))"
    using u unat_pow2_u64 [of "i - j"] assms by (simp add: word_unat_eq_iff)
qed

lemma tiling_whole: "tiling N {(0, N)}"
  by (auto simp: tiling_def family_def wf_blk_def covered_def ext_def)

lemma buddy_init_inv:
  assumes ok: "init_ok av base porder morder" and mo: "max morder 5 \<le> porder"
  obtains mp m' where "buddy_init av base porder morder m = Some (mp, m')"
    "base_addr mp = base" "pool_order mp = porder" "min_order mp = max morder 5" "avail mp = av"
    "pool_inv mp m' (\<lambda>_. []) {(0, porder)}" "agree_off mp {} m m'"
proof -
  let ?mo = "max morder 5"
  let ?nb = "(push_bit porder 1 :: u64) div push_bit ?mo 1"
  let ?mp = "\<lparr>base_addr = base, pool_order = porder, min_order = ?mo, num_blocks = ?nb,
              tag_bits = bitmap_zero (unat ?nb), avail = av\<rparr>"
  let ?m = "init_lists av (Suc porder) m"
  have po: "porder < 64" and morder: "morder < 64" using ok by (auto simp: init_ok_def)
  note nb = num_blocks_eq [OF mo po]
  have lay: "pool_layout ?mp"
    using ok mo nb by (simp add: pool_layout_def init_ok_def bitmap_zero_def)
  have "dlist ?m (avail_head ?mp i) []" if "i \<le> porder" for i
    using init_lists_heads [of av "Suc porder" i m] ok that by (simp add: avail_head_def init_ok_def)
  moreover have "\<not> tag ?mp 0"
    using ktest_bitmap_zero [of 0 "2 ^ (porder - ?mo)"] nb(2) by (simp add: tag_def)
  ultimately have "pool_inv ?mp ?m (\<lambda>_. []) {(0, porder)}"
    using lay mo tiling_whole [of porder]
    by (simp add: pool_inv_def pool_core_def free_set_def coalesced_def)
  moreover have "buddy_init av base porder morder m = Some (?mp, ?m)"
    using mo unfolding buddy_init_def min_order_fixup [OF morder] Let_def by (simp add: not_less)
  moreover have "agree_off ?mp {} m ?m"
    using init_lists_frame [of av "Suc porder" _ m] ok
    by (simp add: agree_off_def footprint_def init_ok_def)
  ultimately show thesis using that [of ?mp ?m] by simp
qed

section \<open>Free bytes\<close>

text \<open>The offsets of the bytes that are free.\<close>

definition free_bytes :: "(nat \<Rightarrow> nat list) \<Rightarrow> nat set" where
  "free_bytes fl = covered (free_set fl)"

lemma core_free_bytes:
  assumes "pool_core mp m fl A"
  shows "free_bytes fl = {0 ..< 2 ^ pool_order mp} - covered A"
    and "free_bytes fl \<inter> covered A = {}" and "covered A \<subseteq> {0 ..< 2 ^ pool_order mp}"
proof -
  have t: "free_bytes fl \<union> covered A = {0 ..< 2 ^ pool_order mp}"
    using core_tiling [OF assms] by (simp add: tiling_def free_bytes_def)
  show d: "free_bytes fl \<inter> covered A = {}"
    using family_Un_iff [of "pool_order mp" "free_set fl" A] core_family [OF assms] core_disjoint [OF assms]
    by (simp add: free_bytes_def)
  show "free_bytes fl = {0 ..< 2 ^ pool_order mp} - covered A" using t d by blast
  show "covered A \<subseteq> {0 ..< 2 ^ pool_order mp}" using t by blast
qed

lemma core_free_family: "pool_core mp m fl A \<Longrightarrow> family (pool_order mp) (free_set fl)"
  using core_family family_subset by blast

lemma covered_insert_disjoint:
  assumes "pool_core mp m fl (insert b A)" "b \<notin> A"
  shows "ext b \<inter> covered A = {}"
proof -
  have "family (pool_order mp) ({b} \<union> A)"
    using core_family [OF assms(1)] by (rule family_subset) auto
  with assms(2) have "covered {b} \<inter> covered A = {}"
    using family_Un_iff [of "pool_order mp" "{b}" A] by simp
  then show ?thesis by simp
qed

lemma find_upt_None: "List.find P [i ..< n] = None \<longleftrightarrow> (\<forall>j. i \<le> j \<and> j < n \<longrightarrow> \<not> P j)"
  by (auto simp: find_None_iff)

text \<open>
  The search fails only when no aligned run of free bytes of that size exists: here the
  invariant that no two free buddies are left apart is needed.
\<close>

lemma spec_alloc_None:
  assumes inv: "pool_inv mp m fl A" and n: "spec_alloc (pool_order mp) fl i = None"
    and w: "wf_blk (pool_order mp) (k, i)"
  shows "\<not> ext (k, i) \<subseteq> free_bytes fl"
proof
  assume "ext (k, i) \<subseteq> free_bytes fl"
  then obtain l j where l: "(l, j) \<in> free_set fl" "i \<le> j"
    using coalesced_run [OF core_free_family [OF inv_core [OF inv]] inv_coalesced [OF inv] w]
    by (auto simp: free_bytes_def)
  then have "j \<le> pool_order mp" using core_free_block(3) [OF inv_core [OF inv]] by simp
  with n l show False
    unfolding spec_alloc_def by (auto split: option.splits simp: find_None_iff)
qed

text \<open>A fully merged state is determined by its allocated blocks.\<close>

lemma inv_free_set_unique:
  assumes "pool_inv mp m fl A" "pool_inv mp' m' fl' A" "pool_order mp' = pool_order mp"
  shows "free_set fl' = free_set fl"
proof -
  have "covered (free_set fl) = covered (free_set fl')"
    using core_free_bytes(1) [OF inv_core [OF assms(1)]] core_free_bytes(1) [OF inv_core [OF assms(2)]] assms(3)
    by (simp add: free_bytes_def)
  then show ?thesis
    using coalesced_canonical core_free_family [OF inv_core [OF assms(1)]] inv_coalesced [OF assms(1)]
      core_free_family [OF inv_core [OF assms(2)]] inv_coalesced [OF assms(2)] assms(3)
    by (metis subset_antisym)
qed

lemma inv_one_block:
  assumes inv: "pool_inv mp m fl {}"
  shows "free_set fl = {(0, pool_order mp)}"
proof -
  have "family (pool_order mp) {(0, pool_order mp)}" "coalesced (pool_order mp) {(0, pool_order mp)}"
    using tiling_whole by (auto simp: tiling_def coalesced_def)
  moreover have "covered (free_set fl) = covered {(0, pool_order mp)}"
    using core_free_bytes(1) [OF inv_core [OF inv]] by (simp add: free_bytes_def ext_def)
  ultimately show ?thesis
    using coalesced_canonical core_free_family [OF inv_core [OF inv]] inv_coalesced [OF inv]
    by (metis subset_antisym)
qed

text \<open>Creating a pool and releasing its whole range into it.\<close>

lemma fresh_pool:
  assumes ok: "init_ok av base porder morder" and mo: "max morder 5 \<le> porder"
  obtains mp m1 mp' m' where "buddy_init av base porder morder m = Some (mp, m1)"
    "pool_inv mp m1 (\<lambda>_. []) {(0, porder)}"
    "buddy_free mp base porder m1 = Inr (mp', m')" "same_pool mp mp'"
    "base_addr mp = base" "pool_order mp = porder" "min_order mp = max morder 5" "avail mp = av"
    "pool_inv mp' m' (\<lambda>i. if i = porder then [0] else []) {}" "agree_off mp {} m m'"
proof -
  obtain mp m1 where b: "buddy_init av base porder morder m = Some (mp, m1)"
    "base_addr mp = base" "pool_order mp = porder" "min_order mp = max morder 5" "avail mp = av"
    "pool_inv mp m1 (\<lambda>_. []) {(0, porder)}" "agree_off mp {} m m1"
    using buddy_init_inv [OF ok mo] by blast
  have e: "eff_order mp porder = porder" using b(4) mo by (simp add: eff_order_def)
  have "spec_free porder (\<lambda>_. []) 0 porder = (\<lambda>i. if i = porder then [0] else [])"
    by (subst spec_free.simps) (auto simp: fun_eq_iff)
  then obtain mp' m' where "buddy_free mp base porder m1 = Inr (mp', m')" "same_pool mp mp'"
    "agree_off mp {} m1 m'" "pool_inv mp' m' (\<lambda>i. if i = porder then [0] else []) {}"
    using buddy_free_refines [of mp m1 "\<lambda>_. []" 0 porder "{}"] b(2,3,6) e by (auto simp: baddr_def)
  with b that agree_off_trans [OF b(7)] show thesis by blast
qed

section \<open>A small pool, for the witnesses\<close>

definition demo_new :: "buddy_mempool \<times> mem" where
  "demo_new = the (buddy_init 0x1000 0x100000 13 12 (\<lambda>_. 0))"

definition demo_free :: "buddy_mempool \<times> mem" where
  "demo_free = projr (buddy_free (fst demo_new) 0x100000 13 (snd demo_new))"

definition demo_fl :: "nat \<Rightarrow> nat list" where
  "demo_fl = (\<lambda>i. if i = 13 then [0] else [])"

lemma demo_inv:
  "pool_inv (fst demo_new) (snd demo_new) (\<lambda>_. []) {(0, 13)}"
  "pool_inv (fst demo_free) (snd demo_free) demo_fl {}"
  "pool_order (fst demo_new) = 13" "min_order (fst demo_new) = 12" "base_addr (fst demo_new) = 0x100000"
  "same_pool (fst demo_new) (fst demo_free)"
proof -
  have "init_ok 0x1000 0x100000 13 12" by (simp add: init_ok_def)
  then obtain mp m1 mp' m' where d: "buddy_init 0x1000 0x100000 13 12 (\<lambda>_. 0) = Some (mp, m1)"
    "pool_inv mp m1 (\<lambda>_. []) {(0, 13)}"
    "buddy_free mp 0x100000 13 m1 = Inr (mp', m')" "same_pool mp mp'"
    "base_addr mp = 0x100000" "pool_order mp = 13" "min_order mp = max 12 5" "avail mp = 0x1000"
    "pool_inv mp' m' (\<lambda>i. if i = 13 then [0] else []) {}"
    by (rule fresh_pool [where m = "\<lambda>_. 0"]) simp_all
  have n: "demo_new = (mp, m1)" by (simp add: demo_new_def d(1))
  have f: "demo_free = (mp', m')" unfolding demo_free_def n by (simp add: d(3))
  show "pool_inv (fst demo_new) (snd demo_new) (\<lambda>_. []) {(0, 13)}"
    "pool_inv (fst demo_free) (snd demo_free) demo_fl {}"
    "pool_order (fst demo_new) = 13" "min_order (fst demo_new) = 12" "base_addr (fst demo_new) = 0x100000"
    "same_pool (fst demo_new) (fst demo_free)"
    unfolding n f demo_fl_def using d by simp_all
qed

lemmas demo_free_fields = same_pool_fields [OF demo_inv(6)]

section \<open>Properties of one call\<close>

text \<open>
  C1. \<open>buddy_alloc\<close> on a pool in its invariant, for an order the pool can hold at all, always
  returns. It returns \<open>NULL\<close>, with pool and memory untouched, exactly when no aligned run of
  free bytes of the requested size is left; otherwise it returns the address of an aligned
  block that was free in all its bytes, those bytes and no others stop being free, and the
  invariant holds again with the block among the allocated ones.
\<close>

theorem buddy_alloc_correct:
  assumes inv: "pool_inv mp m fl A" and o: "order \<le> pool_order mp"
  defines "i \<equiv> eff_order mp order"
  shows "\<exists>a mp' m'. buddy_alloc mp order m = Inr (a, mp', m') \<and>
    (a = 0 \<longleftrightarrow> (\<forall>k. wf_blk (pool_order mp) (k, i) \<longrightarrow> \<not> ext (k, i) \<subseteq> free_bytes fl)) \<and>
    (if a = 0 then mp' = mp \<and> m' = m
     else \<exists>k fl'. a = baddr mp k \<and> wf_blk (pool_order mp) (k, i) \<and> ext (k, i) \<subseteq> free_bytes fl \<and>
            free_bytes fl' = free_bytes fl - ext (k, i) \<and> (k, i) \<notin> A \<and> same_pool mp mp' \<and>
            pool_inv mp' m' fl' (insert (k, i) A))"
proof (cases "spec_alloc (pool_order mp) fl i")
  case None
  then show ?thesis
    using buddy_alloc_refines [OF inv o] spec_alloc_None [OF inv None]
    by (simp add: alloc_refines_def i_def)
next
  case (Some r)
  then obtain k fl' mp' m' where r: "buddy_alloc mp order m = Inr (baddr mp k, mp', m')"
    "same_pool mp mp'" "pool_inv mp' m' fl' (insert (k, i) A)" "(k, i) \<notin> A"
    using buddy_alloc_refines [OF inv o] by (cases r) (auto simp: alloc_refines_def i_def)
  note c = inv_core [OF inv] and c' = inv_core [OF r(3)]
  note po = same_pool_fields(2) [OF r(2)]
  have w: "wf_blk (pool_order mp) (k, i)" using family_wf [OF core_family [OF c']] po by simp
  have bytes: "free_bytes fl' = free_bytes fl - ext (k, i)" "ext (k, i) \<subseteq> free_bytes fl"
    using core_free_bytes(1) [OF c] core_free_bytes [OF c'] covered_insert_disjoint [OF c' r(4)] po
    by auto
  have "baddr mp k \<noteq> 0"
    using baddr_nonnull [OF core_layout [OF c']] core_alloc_block(1) [OF c'] same_pool_fields(5) [OF r(2)]
    by (metis insertI1)
  with r w bytes show ?thesis by (auto intro!: exI [of _ "baddr mp k"])
qed

theorem buddy_alloc_correct_witness:
  "pool_inv (fst demo_free) (snd demo_free) demo_fl {} \<and> 12 \<le> pool_order (fst demo_free) \<and>
   (\<exists>a mp' m'. buddy_alloc (fst demo_free) 12 (snd demo_free) = Inr (a, mp', m') \<and> a \<noteq> 0)"
proof -
  have o: "12 \<le> pool_order (fst demo_free)" by (simp add: demo_free_fields demo_inv)
  have e: "eff_order (fst demo_free) 12 = 12" by (simp add: eff_order_def demo_free_fields demo_inv)
  have "wf_blk 13 (0, 12)" "ext (0, 12) \<subseteq> free_bytes demo_fl"
    by (auto simp: wf_blk_def free_bytes_def demo_fl_def free_set_def covered_def ext_def)
  with buddy_alloc_correct [OF demo_inv(2) o] show ?thesis
    unfolding e using demo_inv(2) o by (auto simp: demo_free_fields demo_inv)
qed

text \<open>
  C2. \<open>buddy_free\<close> of a block that is allocated, with the order it was requested with, does not
  stop in \<open>BUG_ON\<close>; exactly the bytes of the block become free, the block is no longer allocated
  and the invariant holds again, so no two free buddies are left unmerged.
\<close>

theorem buddy_free_correct:
  assumes inv: "pool_inv mp m fl A" and b: "(k, eff_order mp order) \<in> A" and o: "order \<le> pool_order mp"
  shows "\<exists>mp' m' fl'. buddy_free mp (baddr mp k) order m = Inr (mp', m') \<and> same_pool mp mp' \<and>
    pool_inv mp' m' fl' (A - {(k, eff_order mp order)}) \<and>
    free_bytes fl' = free_bytes fl \<union> ext (k, eff_order mp order)"
proof -
  let ?b = "(k, eff_order mp order)"
  have A: "insert ?b (A - {?b}) = A" using b by auto
  obtain mp' m' where r: "buddy_free mp (baddr mp k) order m = Inr (mp', m')" "same_pool mp mp'"
    "pool_inv mp' m' (spec_free (pool_order mp) fl k (eff_order mp order)) (A - {?b})"
    using buddy_free_refines [of mp m fl k order "A - {?b}"] inv o A by auto
  have c: "pool_core mp m fl (insert ?b (A - {?b}))" using inv_core [OF inv] A by simp
  have "covered A = ext ?b \<union> covered (A - {?b})" using A covered_insert by metis
  then have "free_bytes (spec_free (pool_order mp) fl k (eff_order mp order)) = free_bytes fl \<union> ext ?b"
    using core_free_bytes [OF inv_core [OF inv]] core_free_bytes [OF inv_core [OF r(3)]]
      covered_insert_disjoint [OF c] same_pool_fields(2) [OF r(2)] by auto
  with r show ?thesis by blast
qed

theorem buddy_free_correct_witness:
  "pool_inv (fst demo_new) (snd demo_new) (\<lambda>_. []) {(0, 13)} \<and>
   (\<exists>mp' m' fl'. buddy_free (fst demo_new) (baddr (fst demo_new) 0) 13 (snd demo_new) = Inr (mp', m') \<and>
      pool_inv mp' m' fl' ({(0, 13)} - {(0, 13)}) \<and> free_bytes fl' = ext (0, 13))"
proof -
  have e: "eff_order (fst demo_new) 13 = 13" by (simp add: eff_order_def demo_inv)
  show ?thesis
    using buddy_free_correct [OF demo_inv(1), of 0 13] demo_inv(1) unfolding e
    by (auto simp: demo_inv(3) free_bytes_def free_set_def)
qed

text \<open>
  C26. Allocating a block and releasing it again restores the very same set of free blocks,
  order for order: everything the allocation split is merged back.
\<close>

theorem buddy_alloc_free_roundtrip:
  assumes inv: "pool_inv mp m fl A" and o: "order \<le> pool_order mp"
    and a: "buddy_alloc mp order m = Inr (a, mp1, m1)" "a \<noteq> 0"
  shows "\<exists>mp2 m2 fl2. buddy_free mp1 a order m1 = Inr (mp2, m2) \<and> pool_inv mp2 m2 fl2 A \<and>
           free_set fl2 = free_set fl"
proof -
  obtain k fl1 where r: "a = baddr mp k" "same_pool mp mp1"
    "pool_inv mp1 m1 fl1 (insert (k, eff_order mp order) A)" "(k, eff_order mp order) \<notin> A"
    using buddy_alloc_refines [OF inv o] a by (auto simp: alloc_refines_def split: option.splits)
  note sp = same_pool_fields [OF r(2)]
  have e: "eff_order mp1 order = eff_order mp order" using sp(3) by (simp add: eff_order_def)
  obtain mp2 m2 where f: "buddy_free mp1 a order m1 = Inr (mp2, m2)" "same_pool mp1 mp2"
    "pool_inv mp2 m2 (spec_free (pool_order mp1) fl1 k (eff_order mp order)) A"
    using buddy_free_refines [of mp1 m1 fl1 k order A] r o sp e by auto
  moreover have "free_set (spec_free (pool_order mp1) fl1 k (eff_order mp order)) = free_set fl"
    using inv_free_set_unique [OF inv f(3)] sp(2) same_pool_fields(2) [OF f(2)] by simp
  ultimately show ?thesis by blast
qed

lemma demo_alloc:
  obtains a mp' m' where "buddy_alloc (fst demo_free) 12 (snd demo_free) = Inr (a, mp', m')" "a \<noteq> 0"
proof -
  have o: "12 \<le> pool_order (fst demo_free)" by (simp add: demo_free_fields demo_inv)
  have e: "eff_order (fst demo_free) 12 = 12" by (simp add: eff_order_def demo_free_fields demo_inv)
  have "List.find (\<lambda>j. demo_fl j \<noteq> []) [12 ..< Suc 13] = Some 13"
    by (simp add: upt_conv_Cons demo_fl_def)
  then obtain k fl' mp' m' where r: "buddy_alloc (fst demo_free) 12 (snd demo_free) = Inr (baddr (fst demo_free) k, mp', m')"
    "same_pool (fst demo_free) mp'" "pool_inv mp' m' fl' (insert (k, 12) {})"
    using buddy_alloc_refines [OF demo_inv(2) o] unfolding e
    by (auto simp: alloc_refines_def spec_alloc_def demo_free_fields demo_inv)
  have "slot mp' k" using core_alloc_block(1) [OF inv_core [OF r(3)], of k 12] by simp
  then have "baddr (fst demo_free) k \<noteq> 0"
    using baddr_nonnull [OF core_layout [OF inv_core [OF r(3)]]] same_pool_fields(5) [OF r(2)] by metis
  with r(1) that show thesis by blast
qed

theorem buddy_alloc_free_roundtrip_witness:
  "\<exists>a mp1 m1 mp2 m2 fl2. buddy_alloc (fst demo_free) 12 (snd demo_free) = Inr (a, mp1, m1) \<and> a \<noteq> 0 \<and>
     buddy_free mp1 a 12 m1 = Inr (mp2, m2) \<and> pool_inv mp2 m2 fl2 {} \<and> free_set fl2 = {(0, 13)}"
proof -
  have o: "12 \<le> pool_order (fst demo_free)" by (simp add: demo_free_fields demo_inv)
  have f: "free_set demo_fl = {(0, 13)}" by (auto simp: free_set_def demo_fl_def split: if_splits)
  obtain a mp' m' where a: "buddy_alloc (fst demo_free) 12 (snd demo_free) = Inr (a, mp', m')" "a \<noteq> 0"
    by (rule demo_alloc)
  obtain mp2 m2 fl2 where "buddy_free mp' a 12 m' = Inr (mp2, m2)" "pool_inv mp2 m2 fl2 {}"
    "free_set fl2 = {(0, 13)}"
    using buddy_alloc_free_roundtrip [OF demo_inv(2) o a] unfolding f by auto
  with a show ?thesis by (intro exI conjI)
qed

text \<open>
  C33. Releasing a block that is already on a free list, or an address outside the pool, stops
  in \<open>BUG_ON\<close>: the state is not changed.
\<close>

theorem buddy_free_bug:
  assumes inv: "pool_inv mp m fl A"
    and bad: "(\<exists>k i. k \<in> set (fl i) \<and> addr = baddr mp k) \<or> 2 ^ pool_order mp \<le> unat (addr - base_addr mp)"
  shows "buddy_free mp addr order m = Inl BUG"
proof -
  note c = inv_core [OF inv] and lay = core_layout [OF inv_core [OF inv]]
  have "is_available mp addr = Inr True \<or> is_available mp addr = Inl BUG"
    using bad
  proof
    assume "\<exists>k i. k \<in> set (fl i) \<and> addr = baddr mp k"
    then obtain k i where k: "k \<in> set (fl i)" "addr = baddr mp k" by blast
    then show ?thesis
      using tag_ops_slot(1) [OF lay core_free_block(1) [OF c k(1)]] core_free(2) [OF c k(1)] by simp
  next
    assume far: "2 ^ pool_order mp \<le> unat (addr - base_addr mp)"
    have "unat (num_blocks mp) = 2 ^ (pool_order mp - min_order mp)"
      using lay unat_pow2_u64 [OF pool_layout_orders(4) [OF lay]] by (simp add: pool_layout_def)
    moreover have "unat (drop_bit (min_order mp) (addr - base_addr mp)) = unat (addr - base_addr mp) div 2 ^ min_order mp"
      by (simp only: unat_drop_bit_eq) (simp add: drop_bit_eq_div)
    moreover have "2 ^ (pool_order mp - min_order mp) \<le> unat (addr - base_addr mp) div 2 ^ min_order mp"
      using div_le_mono [OF far, of "2 ^ min_order mp"] pool_layout_orders(2) [OF lay]
      by (simp add: power_diff)
    ultimately show ?thesis
      by (simp add: is_available_def block_to_id_def word_le_nat_alt Let_def)
  qed
  then show ?thesis by (auto simp: buddy_free_def Let_def)
qed

theorem buddy_free_bug_witness:
  "buddy_free (fst demo_free) (baddr (fst demo_free) 0) 13 (snd demo_free) = Inl BUG"
  by (rule buddy_free_bug [OF demo_inv(2)]) (auto simp: demo_fl_def)



text \<open>
  C25. Creating a pool: for arguments in range, \<open>buddy_init\<close> succeeds exactly when the minimum
  order, raised so that a block can hold its header, is not larger than the pool; releasing the
  whole range into the new pool then succeeds and leaves one free block, the whole pool.
\<close>

theorem buddy_create:
  assumes ok: "init_ok av base porder morder"
  shows "(buddy_init av base porder morder m = None \<longleftrightarrow> porder < max morder 5) \<and>
    (max morder 5 \<le> porder \<longrightarrow>
      (\<exists>mp m1 mp' m'. buddy_init av base porder morder m = Some (mp, m1) \<and>
         buddy_free mp base porder m1 = Inr (mp', m') \<and> base_addr mp' = base \<and>
         pool_order mp' = porder \<and> min_order mp' = max morder 5 \<and>
         pool_inv mp' m' (\<lambda>i. if i = porder then [0] else []) {}))"
proof (cases "max morder 5 \<le> porder")
  case True
  then obtain mp m1 mp' m' where d: "buddy_init av base porder morder m = Some (mp, m1)"
    "pool_inv mp m1 (\<lambda>_. []) {(0, porder)}"
    "buddy_free mp base porder m1 = Inr (mp', m')" "same_pool mp mp'"
    "base_addr mp = base" "pool_order mp = porder" "min_order mp = max morder 5" "avail mp = av"
    "pool_inv mp' m' (\<lambda>i. if i = porder then [0] else []) {}"
    by (rule fresh_pool [OF ok, of m])
  note sp = same_pool_fields [OF d(4)]
  have "base_addr mp' = base" "pool_order mp' = porder" "min_order mp' = max morder 5"
    using sp d(5-7) by simp_all
  with True d(1,3,9) show ?thesis by auto
next
  case False
  have mo: "morder < 64" using ok by (simp add: init_ok_def)
  have lt: "porder < max morder 5" using False by (simp only: not_le)
  then have "buddy_init av base porder morder m = None"
    unfolding buddy_init_def min_order_fixup [OF mo] Let_def by (simp only: if_True)
  with lt False show ?thesis by blast
qed

theorem buddy_create_witness:
  "init_ok 0x1000 0x100000 13 3 \<and>
   (\<exists>mp m1 mp' m'. buddy_init 0x1000 0x100000 13 3 (\<lambda>_. 0) = Some (mp, m1) \<and>
      buddy_free mp 0x100000 13 m1 = Inr (mp', m') \<and> min_order mp' = 5)"
proof -
  have ok: "init_ok 0x1000 0x100000 13 3" by (simp add: init_ok_def)
  show ?thesis using buddy_create [OF ok, of "\<lambda>_. 0"] ok by fastforce
qed

section \<open>Sequences of calls\<close>

text \<open>
  One pool as a \<open>block_allocator\<close>: a client holds the addresses it was given together with the
  orders it asked for.
\<close>

definition buddy_request ::
    "buddy_mempool \<times> mem \<Rightarrow> nat \<Rightarrow> ((u64 \<times> nat) option \<times> buddy_mempool \<times> mem) outcome" where
  "buddy_request s order =
     ebind (buddy_alloc (fst s) order (snd s))
       (\<lambda>(a, s'). Inr (if a = 0 then None else Some (a, order), s'))"

definition buddy_return :: "buddy_mempool \<times> mem \<Rightarrow> u64 \<times> nat \<Rightarrow> (buddy_mempool \<times> mem) outcome" where
  "buddy_return s b = buddy_free (fst s) (fst b) (snd b) (snd s)"

definition granted :: "buddy_mempool \<Rightarrow> u64 \<times> nat \<Rightarrow> blk" where
  "granted mp b = (unat (fst b - base_addr mp), eff_order mp (snd b))"

definition span :: "u64 \<times> nat \<Rightarrow> nat set" where
  "span b = {unat (fst b) ..< unat (fst b) + 2 ^ snd b}"

definition buddy_live :: "buddy_mempool \<times> mem \<Rightarrow> (u64 \<times> nat) set \<Rightarrow> bool" where
  "buddy_live s L \<longleftrightarrow>
     (\<exists>fl. pool_inv (fst s) (snd s) fl (granted (fst s) ` L)) \<and> inj_on (granted (fst s)) L \<and>
     (\<forall>b \<in> L. snd b \<le> pool_order (fst s))"

lemma baddr_granted: "baddr mp (fst (granted mp b)) = fst b"
  by (simp add: baddr_def granted_def)

lemma granted_baddr:
  "pool_layout mp \<Longrightarrow> slot mp k \<Longrightarrow> granted mp (baddr mp k, order) = (k, eff_order mp order)"
  using unat_of_nat_u64 [of k] power_strict_increasing [of "pool_order mp" 64 "2 :: nat"]
  by (simp add: granted_def baddr_def slot_def pool_layout_def)

lemma granted_same_pool: "same_pool mp mp' \<Longrightarrow> granted mp' = granted mp"
  by (simp add: granted_def eff_order_def same_pool_fields fun_eq_iff)

lemma buddy_live_span:
  assumes l: "buddy_live s L" and b: "b \<in> L"
  shows "span b \<subseteq> (+) (unat (base_addr (fst s))) ` ext (granted (fst s) b)"
    and "span b \<subseteq> {unat (base_addr (fst s)) ..< unat (base_addr (fst s)) + 2 ^ pool_order (fst s)}"
proof -
  obtain fl where inv: "pool_inv (fst s) (snd s) fl (granted (fst s) ` L)"
    using l by (auto simp: buddy_live_def)
  let ?k = "fst (granted (fst s) b)" and ?i = "snd (granted (fst s) b)" and ?B = "unat (base_addr (fst s))"
  note blk = core_alloc_block [OF inv_core [OF inv], of ?k ?i, simplified, OF imageI [OF b]]
  have a: "unat (fst b) = ?B + ?k"
    using unat_baddr [OF core_layout [OF inv_core [OF inv]] blk(1)] by (simp add: baddr_granted)
  have "(2 :: nat) ^ snd b \<le> 2 ^ ?i" by (intro power_increasing) (auto simp: granted_def eff_order_def)
  then have sp: "span b \<subseteq> {?B + ?k ..< ?B + (?k + 2 ^ ?i)}" by (auto simp: span_def a)
  also have "\<dots> = (+) ?B ` ext (granted (fst s) b)" by (simp add: ext_def ac_simps)
  finally show "span b \<subseteq> (+) ?B ` ext (granted (fst s) b)" .
  show "span b \<subseteq> {?B ..< ?B + 2 ^ pool_order (fst s)}" using sp blk(5) by auto
qed

interpretation bud: block_allocator buddy_live buddy_request buddy_return
  "\<lambda>s n. n \<le> pool_order (fst s)" span
proof
  fix s L n
  assume l: "buddy_live s L" and n: "n \<le> pool_order (fst s)"
  then obtain fl where inv: "pool_inv (fst s) (snd s) fl (granted (fst s) ` L)"
    by (auto simp: buddy_live_def)
  let ?mp = "fst s"
  show "\<exists>r s'. buddy_request s n = Inr (r, s') \<and> (\<forall>k. (k \<le> pool_order (fst s')) = (k \<le> pool_order ?mp)) \<and>
      (case r of None \<Rightarrow> buddy_live s' L | Some b \<Rightarrow> b \<notin> L \<and> buddy_live s' (insert b L))"
  proof (cases "spec_alloc (pool_order ?mp) fl (eff_order ?mp n)")
    case None
    then have "buddy_request s n = Inr (None, s)"
      using buddy_alloc_refines [OF inv n] by (simp add: alloc_refines_def buddy_request_def)
    with l show ?thesis by simp
  next
    case (Some p)
    then obtain k fl' mp' m' where r: "buddy_alloc ?mp n (snd s) = Inr (baddr ?mp k, mp', m')"
      "same_pool ?mp mp'" "pool_inv mp' m' fl' (insert (k, eff_order ?mp n) (granted ?mp ` L))"
      "(k, eff_order ?mp n) \<notin> granted ?mp ` L"
      using buddy_alloc_refines [OF inv n] by (cases p) (auto simp: alloc_refines_def)
    note sp = same_pool_fields [OF r(2)] and lay = core_layout [OF inv_core [OF r(3)]]
    have k: "slot mp' k" using core_alloc_block(1) [OF inv_core [OF r(3)]] by blast
    have g: "granted ?mp (baddr ?mp k, n) = (k, eff_order ?mp n)"
      using granted_baddr [OF lay k] granted_same_pool [OF r(2)] sp by (simp add: eff_order_def)
    have "baddr ?mp k \<noteq> 0" using baddr_nonnull [OF lay k] sp by simp
    then have "buddy_request s n = Inr (Some (baddr ?mp k, n), mp', m')"
      by (simp add: buddy_request_def r(1))
    moreover have "(baddr ?mp k, n) \<notin> L" using r(4) g by force
    moreover have "buddy_live (mp', m') (insert (baddr ?mp k, n) L)"
      using l r(3,4) g n sp granted_same_pool [OF r(2)] by (auto simp: buddy_live_def)
    ultimately show ?thesis using sp(2) by auto
  qed
next
  fix s L b
  assume l: "buddy_live s L" and b: "b \<in> L"
  then obtain fl where inv: "pool_inv (fst s) (snd s) fl (granted (fst s) ` L)"
    by (auto simp: buddy_live_def)
  let ?mp = "fst s" and ?k = "fst (granted (fst s) b)"
  have e: "granted ?mp b = (?k, eff_order ?mp (snd b))" by (simp add: granted_def)
  have inj: "granted ?mp ` (L - {b}) = granted ?mp ` L - {granted ?mp b}"
    using l b by (auto simp: buddy_live_def inj_on_def)
  then have ins: "insert (?k, eff_order ?mp (snd b)) (granted ?mp ` (L - {b})) = granted ?mp ` L"
    using e b by auto
  have "snd b \<le> pool_order ?mp" using l b by (simp add: buddy_live_def)
  then obtain mp' m' where r: "buddy_free ?mp (fst b) (snd b) (snd s) = Inr (mp', m')" "same_pool ?mp mp'"
    "pool_inv mp' m' (spec_free (pool_order ?mp) fl ?k (eff_order ?mp (snd b))) (granted ?mp ` (L - {b}))"
    using buddy_free_refines [of ?mp "snd s" fl ?k "snd b" "granted ?mp ` (L - {b})"] inv ins inj e
    by (auto simp: baddr_granted)
  then have "buddy_live (mp', m') (L - {b})"
    using l same_pool_fields [OF r(2)] granted_same_pool [OF r(2)]
    by (auto simp: buddy_live_def inj_on_diff)
  with r show "\<exists>s'. buddy_return s b = Inr s' \<and>
      (\<forall>k. (k \<le> pool_order (fst s')) = (k \<le> pool_order ?mp)) \<and> buddy_live s' (L - {b})"
    using same_pool_fields(2) [OF r(2)] by (auto simp: buddy_return_def)
next
  fix s L b c
  assume l: "buddy_live s L" and bc: "b \<in> L" "c \<in> L" "b \<noteq> c"
  then obtain fl where inv: "pool_inv (fst s) (snd s) fl (granted (fst s) ` L)"
    by (auto simp: buddy_live_def)
  have "granted (fst s) b \<noteq> granted (fst s) c" using l bc by (auto simp: buddy_live_def inj_on_def)
  then have "ext (granted (fst s) b) \<inter> ext (granted (fst s) c) = {}"
    using family_unique [OF core_family [OF inv_core [OF inv]]] bc(1,2) by blast
  then show "span b \<inter> span c = {}"
    using buddy_live_span(1) [OF l bc(1)] buddy_live_span(1) [OF l bc(2)] by fastforce
qed

text \<open>
  C7. Every client of a pool that asks for orders the pool can hold and releases only blocks
  it holds, in any sequence, is served to the end without \<open>BUG_ON\<close> firing; at the end
  (so at every moment, a prefix being a client too) the blocks it holds lie in the pool and no
  two of them share a byte.
\<close>

theorem buddy_session_safe:
  assumes inv: "pool_inv mp m fl {}" and rs: "\<And>n. Acquire n \<in> set rs \<Longrightarrow> n \<le> pool_order mp"
  shows "\<exists>s' live. session buddy_request buddy_return (mp, m) [] rs = Inr (s', live) \<and>
    (\<forall>i < length live. \<forall>j < length live. i \<noteq> j \<longrightarrow> span (live ! i) \<inter> span (live ! j) = {}) \<and>
    (\<forall>b \<in> set live. span b \<subseteq> {unat (base_addr (fst s')) ..< unat (base_addr (fst s')) + 2 ^ pool_order (fst s')})"
proof -
  have l: "buddy_live (mp, m) (set [])" using inv by (auto simp: buddy_live_def)
  obtain s' live where r: "session buddy_request buddy_return (mp, m) [] rs = Inr (s', live)"
    "buddy_live s' (set live)"
    using bud.session_safe [OF l, of rs] rs by auto
  moreover have "span (live ! i) \<inter> span (live ! j) = {}"
    if "i < length live" "j < length live" "i \<noteq> j" for i j
    using bud.session_disjoint [OF l _ _ r(1) that] rs by simp
  ultimately show ?thesis using buddy_live_span(2) [OF r(2)] by blast
qed

theorem buddy_session_safe_witness:
  "\<exists>s' live. session buddy_request buddy_return (fst demo_free, snd demo_free) []
      [Acquire 12, Acquire 3, Acquire 12, Release 1, Acquire 13] = Inr (s', live) \<and>
    (\<forall>i < length live. \<forall>j < length live. i \<noteq> j \<longrightarrow> span (live ! i) \<inter> span (live ! j) = {})"
proof -
  have rs: "\<And>n. Acquire n \<in> set [Acquire 12, Acquire 3, Acquire 12, Release 1, Acquire 13] \<Longrightarrow>
      n \<le> pool_order (fst demo_free)"
    by (auto simp: demo_free_fields demo_inv)
  show ?thesis using buddy_session_safe [OF demo_inv(2) rs] by blast
qed

text \<open>
  When nothing is allocated any more, however the pool was used before, its free memory
  is one block again, the whole pool.
\<close>

theorem buddy_no_fragmentation:
  assumes "pool_inv mp m fl {}"
  shows "fl (pool_order mp) = [0] \<and> (\<forall>i. i \<noteq> pool_order mp \<longrightarrow> fl i = [])"
proof -
  have f: "free_set fl = {(0, pool_order mp)}" using assms by (rule inv_one_block)
  then have m: "k \<in> set (fl i) \<longleftrightarrow> k = 0 \<and> i = pool_order mp" for k i
    by (simp flip: in_free_set)
  then have s0: "set (fl (pool_order mp)) = {0}" by auto
  moreover have "distinct (fl (pool_order mp))" using lists_distinct [OF inv_core [OF assms]] by simp
  ultimately have "length (fl (pool_order mp)) = 1" using distinct_card by fastforce
  then obtain y where "fl (pool_order mp) = [y]" by (auto simp: length_Suc_conv)
  with s0 have "fl (pool_order mp) = [0]" by simp
  moreover have "fl i = []" if "i \<noteq> pool_order mp" for i
    using m [of "hd (fl i)" i] that by (cases "fl i") auto
  ultimately show ?thesis by blast
qed

theorem buddy_no_fragmentation_witness:
  "pool_inv (fst demo_free) (snd demo_free) demo_fl {} \<and> demo_fl (pool_order (fst demo_free)) = [0]"
  using buddy_no_fragmentation [OF demo_inv(2)] demo_inv(2) by simp

text \<open>
  C22. \<open>buddy_alloc\<close> implements the abstract allocator on lists of free offsets: it answers as
  \<open>spec_alloc\<close> does, leaves a pool that represents exactly its lists, and writes only to its array
  of list heads and to memory of the pool that is not handed out.
\<close>

theorem buddy_alloc_implements:
  assumes "pool_inv mp m fl A" "order \<le> pool_order mp"
  shows "alloc_refines mp m A (eff_order mp order)
           (spec_alloc (pool_order mp) fl (eff_order mp order)) (buddy_alloc mp order m)"
  using assms by (rule buddy_alloc_refines)

theorem buddy_alloc_implements_witness:
  "alloc_refines (fst demo_free) (snd demo_free) {} 12
     (Some (0, demo_fl(13 := [], 12 := [2 ^ 12]))) (buddy_alloc (fst demo_free) 12 (snd demo_free))"
proof -
  have o: "12 \<le> pool_order (fst demo_free)" by (simp add: demo_free_fields demo_inv)
  have e: "eff_order (fst demo_free) 12 = 12" by (simp add: eff_order_def demo_free_fields demo_inv)
  have f: "List.find (\<lambda>j. demo_fl j \<noteq> []) [12 ..< Suc 13] = Some 13"
    by (simp add: upt_conv_Cons demo_fl_def)
  have "spec_alloc 13 demo_fl 12 = Some (0, demo_fl(13 := [], 12 := [2 ^ 12]))"
    unfolding spec_alloc_def f by (auto simp: spec_trim_def demo_fl_def fun_eq_iff)
  then show ?thesis
    using buddy_alloc_implements [OF demo_inv(2) o] unfolding e by (simp add: demo_free_fields demo_inv)
qed

text \<open>
  C23. \<open>buddy_free\<close> implements the abstract release: the free lists it leaves in memory are
  those of \<open>spec_free\<close>, link for link, and it writes only to its array of list heads and to memory of
  the pool that is not handed out to others.
\<close>

theorem buddy_free_implements:
  assumes "pool_inv mp m fl (insert (k, eff_order mp order) A)"
    and "(k, eff_order mp order) \<notin> A" and "order \<le> pool_order mp"
  shows "\<exists>mp' m'. buddy_free mp (baddr mp k) order m = Inr (mp', m') \<and> same_pool mp mp' \<and>
           agree_off mp A m m' \<and> pool_inv mp' m' (spec_free (pool_order mp) fl k (eff_order mp order)) A"
  using assms by (rule buddy_free_refines)

theorem buddy_free_implements_witness:
  "\<exists>mp' m'. buddy_free (fst demo_new) (baddr (fst demo_new) 0) 13 (snd demo_new) = Inr (mp', m') \<and>
     pool_inv mp' m' (spec_free 13 (\<lambda>_. []) 0 13) {}"
proof -
  have e: "eff_order (fst demo_new) 13 = 13" by (simp add: eff_order_def demo_inv)
  show ?thesis
    using buddy_free_implements [of "fst demo_new" "snd demo_new" "\<lambda>_. []" 0 13 "{}"] demo_inv(1)
    unfolding e by (auto simp: demo_inv(3))
qed

text \<open>
  \<open>buddy_dump_mempool\<close> ends on every pool in its invariant and reports the true length of
  each free list.
\<close>

theorem buddy_dump_correct:
  assumes "pool_inv mp m fl A"
  shows "buddy_dump_mempool mp m = map (\<lambda>i. (i, Some (length (fl i)))) [min_order mp ..< Suc (pool_order mp)]"
  using dlist_list_count [OF core_list [OF inv_core [OF assms]]]
  by (auto simp: buddy_dump_mempool_def)

theorem buddy_dump_correct_witness:
  "buddy_dump_mempool (fst demo_free) (snd demo_free) = [(12, Some 0), (13, Some 1)]"
  using buddy_dump_correct [OF demo_inv(2)]
  by (simp add: demo_free_fields demo_inv demo_fl_def upt_conv_Cons)

text \<open>
  Tag bits of blocks inside a larger free or allocated block are not reset: after this session the
  tag of the upper half of the block in use says available.
\<close>

lemma stale_tag:
  "ebind (session buddy_request buddy_return demo_free [] [Acquire 12, Release 0, Acquire 13])
     (\<lambda>((mp, m), live). Inr (live, is_available mp 0x101000)) = Inr ([(0x100000, 13)], Inr True)"
  by code_simp

end
