(* ===== verification/Pools.thy ===== *)
theory Pools
  imports Buddy_Correct
begin

text \<open>
  The physical page allocator of \<open>main.c\<close>: \<open>petmem_pool_list\<close>, a list of buddy pools, behind
  \<open>petmem_alloc_pages\<close> and \<open>petmem_free_pages\<close>, and the \<open>ADD_MEMORY\<close> request that cuts a range of
  physical memory into pools. Pools and pages are used through the kernel's direct mapping;
  memory is indexed by the addresses of that mapping.
\<close>

section \<open>Machine state and address arithmetic\<close>

text \<open>
  \<open>kmem\<close> is the directly mapped memory, \<open>petmem_pool_list\<close> the list of pools in list order
  (\<open>list_add\<close> puts a new pool in front), \<open>cr3\<close> the page-table register, \<open>flushed\<close> the pages
  \<open>invlpg\<close> was executed for, latest first.
\<close>

record machine =
  kmem :: mem
  petmem_pool_list :: "buddy_mempool list"
  cr3 :: u64
  flushed :: "u64 list"

abbreviation PAGE_SHIFT :: nat where "PAGE_SHIFT \<equiv> 12"

definition PAGE_SIZE :: u64 where "PAGE_SIZE = 4096"

text \<open>The start of the direct mapping on x86-64 Linux 2.6.38; \<open>__va\<close> and \<open>__pa\<close> for addresses in it.\<close>

definition PAGE_OFFSET :: u64 where "PAGE_OFFSET = 0xffff880000000000"

definition va :: "u64 \<Rightarrow> u64" where "va p = p + PAGE_OFFSET"

definition pa :: "u64 \<Rightarrow> u64" where "pa v = v - PAGE_OFFSET"

lemma va_pa [simp]: "va (pa v) = v" and pa_va [simp]: "pa (va p) = p"
  by (simp_all add: va_def pa_def)

lemma half_less: "x \<noteq> 0 \<Longrightarrow> unat (drop_bit 1 x) < unat (x :: 'a::len word)"
proof -
  assume "x \<noteq> 0"
  then have "0 < unat x" by (simp add: unat_gt_0)
  then show ?thesis unfolding unat_drop_bit by simp
qed

lemma half_nonzero_less: "drop_bit 1 x \<noteq> 0 \<Longrightarrow> unat (drop_bit 1 x) < unat (x :: 'a::len word)"
  by (cases "x = 0") (simp_all only: half_less drop_bit_of_0 not_False_eq_True)

text \<open>The loop of the kernel's \<open>get_order\<close>: \<open>do { size >>= 1; order++; } while (size);\<close>.\<close>

function get_order_loop :: "u64 \<Rightarrow> nat \<Rightarrow> nat" where
  "get_order_loop sz order =
     (let sz' = drop_bit 1 sz
      in if sz' = 0 then order else get_order_loop sz' (Suc order))"
  by pat_completeness auto
termination
  by (relation "measure (\<lambda>(sz, order). unat sz)")
    (simp_all only: wf_measure in_measure split_conv half_nonzero_less not_False_eq_True)

definition get_order :: "u64 \<Rightarrow> nat" where
  "get_order sz = get_order_loop (drop_bit (PAGE_SHIFT - 1) (sz - 1)) 0"

text \<open>\<open>fls\<close>: the position of the highest set bit, from 1; 0 for 0.\<close>

function fls :: "u32 \<Rightarrow> nat" where
  "fls x = (if x = 0 then 0 else Suc (fls (drop_bit 1 x)))"
  by pat_completeness auto
termination
  by (relation "measure unat") (simp_all only: wf_measure in_measure half_less not_False_eq_True)

declare get_order_loop.simps [simp del] fls.simps [simp del]

text \<open>
  \<open>0x1 << n\<close>, an \<open>int\<close> in C, converted to \<open>unsigned long\<close>. From 31 on the shift overflows the
  \<open>int\<close>; gcc's code for x86-64 masks the count to 5 bits and sign-extends the result.
\<close>

definition int_shl1 :: "nat \<Rightarrow> u64" where
  "int_shl1 n = scast (push_bit (n mod 32) 1 :: u32)"

section \<open>Allocating and releasing pages\<close>

text \<open>The two loops over \<open>petmem_pool_list\<close>, then the functions around them.\<close>

fun alloc_from_pools ::
    "buddy_mempool list \<Rightarrow> nat \<Rightarrow> mem \<Rightarrow> (u64 \<times> buddy_mempool list \<times> mem) outcome" where
  "alloc_from_pools [] order m = Inr (0, [], m)"
| "alloc_from_pools (p # ps) order m =
     ebind (buddy_alloc p order m) (\<lambda>(vaddr, p', m').
       if vaddr \<noteq> 0 then Inr (vaddr, p' # ps, m')
       else ebind (alloc_from_pools ps order m') (\<lambda>(v, ps', m''). Inr (v, p' # ps', m'')))"

definition petmem_alloc_pages :: "u64 \<Rightarrow> machine \<Rightarrow> (u64 \<times> machine) outcome" where
  "petmem_alloc_pages num_pages s =
     (let page_order = get_order (num_pages * PAGE_SIZE) + PAGE_SHIFT
      in ebind (alloc_from_pools (petmem_pool_list s) page_order (kmem s)) (\<lambda>(vaddr, ps, m).
           let s' = s\<lparr>petmem_pool_list := ps, kmem := m\<rparr>
           in if vaddr = 0 then Inr (0, s') else Inr (pa vaddr, s')))"

fun free_in_pools ::
    "buddy_mempool list \<Rightarrow> u64 \<Rightarrow> nat \<Rightarrow> mem \<Rightarrow> (buddy_mempool list \<times> mem) outcome" where
  "free_in_pools [] page_va order m = Inr ([], m)"
| "free_in_pools (p # ps) page_va order m =
     (if base_addr p \<le> page_va \<and> page_va < base_addr p + int_shl1 (pool_order p)
      then ebind (buddy_free p page_va order m) (\<lambda>(p', m'). Inr (p' # ps, m'))
      else ebind (free_in_pools ps page_va order m) (\<lambda>(ps', m'). Inr (p # ps', m')))"

definition petmem_free_pages :: "u64 \<Rightarrow> u64 \<Rightarrow> machine \<Rightarrow> machine outcome" where
  "petmem_free_pages page_addr num_pages s =
     (let page_order = get_order (num_pages * PAGE_SIZE) + PAGE_SHIFT;
          page_va = va page_addr
      in ebind (free_in_pools (petmem_pool_list s) page_va page_order (kmem s)) (\<lambda>(ps, m).
           Inr (s\<lparr>petmem_pool_list := ps, kmem := m\<rparr>)))"

section \<open>The top bit\<close>

lemma fls_bounds:
  "x \<noteq> 0 \<Longrightarrow> 0 < fls x \<and> 2 ^ (fls x - 1) \<le> unat x \<and> unat x < 2 ^ fls x"
proof (induction x rule: fls.induct)
  case (1 x)
  have u: "unat (drop_bit 1 x) = unat x div 2" unfolding unat_drop_bit by simp
  have f: "fls x = Suc (fls (drop_bit 1 x))" using 1(2) by (subst fls.simps) (simp only: if_False)
  show ?case
  proof (cases "drop_bit 1 x = 0")
    case True
    then have "unat x div 2 = 0" using u by (metis unsigned_0)
    moreover have "0 < unat x" using 1(2) by (simp add: unat_gt_0)
    ultimately have "unat x = 1" by simp
    moreover have "fls x = 1" unfolding f True by (simp add: fls.simps)
    ultimately show ?thesis by simp
  next
    case False
    note ih = 1(1) [OF 1(2) False]
    then obtain n where n: "fls (drop_bit 1 x) = Suc n" by (cases "fls (drop_bit 1 x)") auto
    then have "2 ^ n \<le> unat x div 2" "unat x div 2 < 2 ^ Suc n" using ih unfolding u by simp_all
    then have "2 * 2 ^ n \<le> unat x" "unat x < 2 * 2 ^ Suc n" by linarith+
    then show ?thesis unfolding f n by simp
  qed
qed

lemma fls_0 [simp]: "fls x = 0 \<longleftrightarrow> x = 0"
  using fls_bounds [of x] by (cases "x = 0") (auto simp: fls.simps)

lemma fls_le_32: "fls x \<le> 32"
proof (cases "x = 0")
  case False
  then have "(2 :: nat) ^ (fls x - 1) < 2 ^ 32"
    using fls_bounds [of x] unat_less_pow2 [of x] by simp
  then show ?thesis using power_less_imp_less_exp [of "2 :: nat" "fls x - 1" 32] by simp
qed (simp add: fls.simps)

lemma sub_top_bit:
  assumes "x \<noteq> 0"
  shows "unat (x - push_bit (fls x - 1) 1 :: u32) = unat x - 2 ^ (fls x - 1)"
    and "unat (x - push_bit (fls x - 1) 1 :: u32) < unat x"
proof -
  have b: "2 ^ (fls x - 1) \<le> unat x" using fls_bounds [OF assms] by simp
  have "fls x - 1 < 32" using fls_le_32 [of x] fls_bounds [OF assms] by simp
  then have "unat (push_bit (fls x - 1) 1 :: u32) = 2 ^ (fls x - 1)" by (simp add: to_nat)
  then show u: "unat (x - push_bit (fls x - 1) 1 :: u32) = unat x - 2 ^ (fls x - 1)"
    using b by (simp only: unat_sub_small)
  have "(0 :: nat) < 2 ^ (fls x - 1)" by simp
  then show "unat (x - push_bit (fls x - 1) 1 :: u32) < unat x" using u b by linarith
qed

section \<open>Adding memory\<close>

text \<open>
  The loop of \<open>ADD_MEMORY\<close> and the request itself, with the range copied from user space. The
  \<open>i\<close>-th \<open>kmalloc\<close> of an array of list heads returns \<open>av i\<close>. \<open>num_pages\<close> is a \<open>u32\<close>.
\<close>

function add_memory_loop ::
    "(nat \<Rightarrow> u64) \<Rightarrow> nat \<Rightarrow> u64 \<Rightarrow> u32 \<Rightarrow> machine \<Rightarrow> machine outcome" where
  "add_memory_loop av i base num_pages s =
     (let reg_order = fls num_pages in
      if reg_order = 0 then Inr s
      else case buddy_init (av i) base (reg_order + PAGE_SHIFT - 1) PAGE_SHIFT (kmem s) of
             None \<Rightarrow> Inr s
           | Some (tmp_pool, m) \<Rightarrow>
               ebind (buddy_free tmp_pool base (reg_order + PAGE_SHIFT - 1) m) (\<lambda>(tmp_pool', m').
                 add_memory_loop av (Suc i) (base + int_shl1 (reg_order - 1) * PAGE_SIZE)
                   (num_pages - push_bit (reg_order - 1) 1)
                   (s\<lparr>kmem := m', petmem_pool_list := tmp_pool' # petmem_pool_list s\<rparr>)))"
  by pat_completeness auto
termination
  by (relation "measure (\<lambda>(av, i, base, num_pages, s). unat num_pages)")
    (simp_all only: wf_measure in_measure split_conv sub_top_bit(2) fls_0 not_False_eq_True)

declare add_memory_loop.simps [simp del]

definition add_memory :: "(nat \<Rightarrow> u64) \<Rightarrow> u64 \<Rightarrow> u64 \<Rightarrow> machine \<Rightarrow> machine outcome" where
  "add_memory av reg_base pages s = add_memory_loop av 0 (va reg_base) (ucast pages) s"

section \<open>Shifts and sizes\<close>

lemma int_shl1_small: "n < 31 \<Longrightarrow> int_shl1 n = 2 ^ n"
  using scast_of_nat_u32 [of "2 ^ n"] power_strict_increasing [of n 31 "2 :: nat"]
  by (simp add: int_shl1_def)

text \<open>The order of a size: the least one that holds it, but at least a page.\<close>

lemma get_order_loop_bounds:
  "c \<le> get_order_loop sz c \<and> unat sz < 2 ^ Suc (get_order_loop sz c - c) \<and>
   (c < get_order_loop sz c \<longrightarrow> 2 ^ (get_order_loop sz c - c) \<le> unat sz)"
proof (induction sz c rule: get_order_loop.induct)
  case (1 sz c)
  have u: "unat (drop_bit 1 sz) = unat sz div 2" unfolding unat_drop_bit by simp
  show ?case
  proof (cases "drop_bit 1 sz = 0")
    case True
    then have "unat sz div 2 = 0" using u by (metis unsigned_0)
    moreover have "get_order_loop sz c = c"
      by (subst get_order_loop.simps) (simp only: Let_def True if_True simp_thms)
    ultimately show ?thesis by simp
  next
    case False
    have g: "get_order_loop sz c = get_order_loop (drop_bit 1 sz) (Suc c)"
      by (subst get_order_loop.simps) (simp only: Let_def False if_False)
    obtain d where d: "get_order_loop (drop_bit 1 sz) (Suc c) = Suc c + d"
      using 1 [OF refl False] le_Suc_ex by blast
    have "0 < unat sz div 2" using False unfolding u [symmetric] by (simp only: unat_gt_0 not_False_eq_True)
    then have "unat sz div 2 < 2 ^ Suc d" "2 ^ d \<le> unat sz div 2"
      using 1 [OF refl False] unfolding d u by (cases d; simp)+
    then have "2 * 2 ^ d \<le> unat sz" "unat sz < 2 * 2 ^ Suc d" by linarith+
    then show ?thesis unfolding g d by simp
  qed
qed

lemma get_order_bounds:
  assumes "0 < unat sz"
  shows "unat sz \<le> 2 ^ (get_order sz + PAGE_SHIFT)"
    and "0 < get_order sz \<Longrightarrow> 2 ^ (get_order sz + PAGE_SHIFT - 1) < unat sz"
proof -
  let ?n = "get_order sz"
  have s1: "unat (sz - 1) = unat sz - 1" using assms unat_sub_small [of 1 sz] by simp
  have b: "(unat sz - 1) div 2 ^ 11 < 2 ^ Suc ?n" "0 < ?n \<Longrightarrow> 2 ^ ?n \<le> (unat sz - 1) div 2 ^ 11"
    using get_order_loop_bounds [of 0 "drop_bit 11 (sz - 1)"] unfolding get_order_def unat_drop_bit s1
    by simp_all
  have "unat sz - 1 < 2 ^ Suc ?n * 2 ^ 11" using b(1) by (simp add: div_less_iff_less_mult)
  then show "unat sz \<le> 2 ^ (?n + PAGE_SHIFT)" by (simp add: power_add)
  assume n: "0 < ?n"
  then have "2 ^ ?n * 2 ^ 11 \<le> unat sz - 1" using b(2) by (simp add: less_eq_div_iff_mult_less_eq)
  moreover have "(2 :: nat) ^ (?n + PAGE_SHIFT - 1) = 2 ^ ?n * 2 ^ 11" by (simp add: power_add)
  ultimately show "2 ^ (?n + PAGE_SHIFT - 1) < unat sz" using assms by linarith
qed

end
