(* ===== verification/Pools_Correct.thy ===== *)
theory Pools_Correct
  imports Pools
begin

text \<open>
  The page allocator on its list of pools: the invariant of the list (every pool in its own
  invariant on the one memory they share, the pools apart from each other), what
  \<open>petmem_alloc_pages\<close> and \<open>petmem_free_pages\<close> do to it, and that the pair is a block allocator
  in the sense of the contract the buddy pools satisfy.
\<close>

section \<open>The invariant of the pool list\<close>

text \<open>
  A pool as \<open>ADD_MEMORY\<close> makes them, small enough for the range test of \<open>petmem_free_pages\<close>:
  \<open>0x1 << pool_order\<close> fits an \<open>int\<close> and the end of the pool is an address. Physical page 0 is
  not in it, so that no page has the address that signals failure.
\<close>

definition managed :: "buddy_mempool \<Rightarrow> bool" where
  "managed p \<longleftrightarrow> min_order p = PAGE_SHIFT \<and> pool_order p < 31 \<and>
     unat (base_addr p) + 2 ^ pool_order p < 2 ^ 64 \<and> unat PAGE_OFFSET < unat (base_addr p)"

type_synonym ghost = "(nat \<Rightarrow> nat list) \<times> blk set"

definition pools_ok :: "buddy_mempool list \<Rightarrow> mem \<Rightarrow> ghost list \<Rightarrow> bool" where
  "pools_ok ps m G \<longleftrightarrow>
     list_all2 (\<lambda>p g. managed p \<and> pool_inv p m (fst g) (snd g)) ps G \<and>
     sorted_wrt (\<lambda>p q. footprint p \<inter> footprint q = {}) ps"

lemma pools_ok_Nil [simp]: "pools_ok [] m G \<longleftrightarrow> G = []"
  by (auto simp: pools_ok_def)

lemma pools_ok_Cons [simp]:
  "pools_ok (p # ps) m (g # G) \<longleftrightarrow>
     managed p \<and> pool_inv p m (fst g) (snd g) \<and> (\<forall>q \<in> set ps. footprint p \<inter> footprint q = {}) \<and>
     pools_ok ps m G"
  by (auto simp: pools_ok_def)

lemma pools_ok_ConsE:
  assumes "pools_ok (p # ps) m G"
  obtains g G' where "G = g # G'" "managed p" "pool_inv p m (fst g) (snd g)"
    "\<And>q. q \<in> set ps \<Longrightarrow> footprint p \<inter> footprint q = {}" "pools_ok ps m G'"
  using assms by (cases G) (auto simp: pools_ok_def)

lemma pools_ok_length: "pools_ok ps m G \<Longrightarrow> length G = length ps"
  by (auto simp: pools_ok_def dest: list_all2_lengthD)

lemma pools_ok_nth:
  "pools_ok ps m G \<Longrightarrow> i < length ps \<Longrightarrow> managed (ps ! i) \<and> pool_inv (ps ! i) m (fst (G ! i)) (snd (G ! i))"
  by (auto simp: pools_ok_def dest: list_all2_nthD)

lemma pools_ok_apart:
  assumes "pools_ok ps m G" "i < length ps" "j < length ps" "i \<noteq> j"
  shows "footprint (ps ! i) \<inter> footprint (ps ! j) = {}"
proof -
  have "footprint (ps ! i) \<inter> footprint (ps ! j) = {}" if "i < j" "j < length ps" for i j
    using assms(1) sorted_wrt_nth_less [of "\<lambda>p q. footprint p \<inter> footprint q = {}", OF _ that]
    by (simp add: pools_ok_def)
  then show ?thesis using assms(2-4) by (metis Int_commute linorder_neqE_nat)
qed

lemma pools_ok_cong:
  "pools_ok ps m G \<Longrightarrow> (\<And>q a. q \<in> set ps \<Longrightarrow> a \<in> footprint q \<Longrightarrow> m' a = m a) \<Longrightarrow> pools_ok ps m' G"
proof (induction ps arbitrary: G)
  case (Cons p ps)
  from Cons.prems(1) obtain g G' where G: "G = g # G'" "managed p" "pool_inv p m (fst g) (snd g)"
    "\<And>q. q \<in> set ps \<Longrightarrow> footprint p \<inter> footprint q = {}" "pools_ok ps m G'"
    by (rule pools_ok_ConsE) blast
  moreover have "pool_inv p m' (fst g) (snd g)"
    using G(3) by (rule pool_inv_cong) (use Cons.prems(2) [of p] in simp)
  moreover have "pools_ok ps m' G'" using Cons.IH [OF G(5)] Cons.prems(2) by auto
  ultimately show ?case by simp
qed simp

lemma managed_same_pool: "same_pool p p' \<Longrightarrow> managed p' = managed p"
  by (simp add: managed_def same_pool_fields)

lemma same_pools_footprint:
  "list_all2 same_pool ps ps' \<Longrightarrow> footprint ` set ps' = footprint ` set ps"
  by (induction rule: list_all2_induct) (auto simp: same_pool_footprint)

lemma same_pools_refl [simp]: "list_all2 same_pool ps ps"
  by (simp add: list_all2_refl)

text \<open>One pool at the front may change within its own footprint.\<close>

lemma pools_ok_step_front:
  assumes "pools_ok (p # ps) m (g # G)" "same_pool p p'" "agree_off p A m m'"
    and "pool_inv p' m' fl' A'"
  shows "pools_ok (p' # ps) m' ((fl', A') # G)"
proof -
  have "pools_ok ps m' G"
    by (rule pools_ok_cong [of ps m G]) (use assms(1,3) in \<open>auto simp: agree_off_def\<close>)
  then show ?thesis
    using assms by (simp add: managed_same_pool [OF assms(2)] same_pool_footprint(1) [OF assms(2)])
qed

text \<open>The pools behind the front may change within theirs.\<close>

lemma pools_ok_step_rest:
  assumes "pools_ok (p # ps) m (g # G)" "list_all2 same_pool ps ps'"
    and "\<And>a. (\<forall>q \<in> set ps. a \<notin> footprint q) \<Longrightarrow> m' a = m a" and "pools_ok ps' m' G'"
  shows "pools_ok (p # ps') m' (g # G')"
proof -
  have "pool_inv p m' (fst g) (snd g)"
    by (rule pool_inv_cong [of p m]) (use assms(1,3) in auto)
  moreover have "footprint p \<inter> footprint q = {}" if "q \<in> set ps'" for q
  proof -
    have "footprint q \<in> footprint ` set ps" using that same_pools_footprint [OF assms(2)] by auto
    then show ?thesis using assms(1) by auto
  qed
  ultimately show ?thesis using assms(1,4) by simp
qed

text \<open>The addresses of all blocks handed out, over all pools.\<close>

definition held_in :: "buddy_mempool list \<Rightarrow> ghost list \<Rightarrow> u64 set" where
  "held_in ps G = (\<Union>(p, g) \<in> set (zip ps G). held p (snd g))"

lemma held_in_simps [simp]:
  "held_in [] G = {}" "held_in (p # ps) (g # G) = held p (snd g) \<union> held_in ps G"
  by (simp_all add: held_in_def)

lemma held_footprint:
  assumes "pool_inv p m fl A"
  shows "held p A \<subseteq> footprint p"
proof
  fix a assume "a \<in> held p A"
  then obtain k i x where "(k, i) \<in> A" "x < k + 2 ^ i" "unat a = unat (base_addr p) + x"
    by (force simp: held_def in_covered ext_def)
  then show "a \<in> footprint p"
    using core_alloc_block(5) [OF inv_core [OF assms], of k i] by (simp add: footprint_def)
qed

lemma held_in_footprints:
  "pools_ok ps m G \<Longrightarrow> a \<in> held_in ps G \<Longrightarrow> \<exists>q \<in> set ps. a \<in> footprint q"
proof (induction ps arbitrary: G)
  case (Cons p ps)
  from Cons.prems(1) obtain g G' where "G = g # G'" "pool_inv p m (fst g) (snd g)" "pools_ok ps m G'"
    by (rule pools_ok_ConsE) blast
  with Cons.prems(2) Cons.IH [of G'] held_footprint [of p m] show ?case by auto
qed simp

text \<open>The owners of the blocks may store anything there.\<close>

lemma pools_ok_owner_writes:
  "pools_ok ps m G \<Longrightarrow> (\<And>q a. q \<in> set ps \<Longrightarrow> a \<in> footprint q \<Longrightarrow> a \<notin> held_in ps G \<Longrightarrow> m' a = m a) \<Longrightarrow>
   pools_ok ps m' G"
proof (induction ps arbitrary: G)
  case (Cons p ps)
  from Cons.prems(1) obtain g G' where G: "G = g # G'" "managed p" "pool_inv p m (fst g) (snd g)"
    "\<And>q. q \<in> set ps \<Longrightarrow> footprint p \<inter> footprint q = {}" "pools_ok ps m G'"
    by (rule pools_ok_ConsE) blast
  have "pool_inv p m' (fst g) (snd g)"
    using G(3)
  proof (rule pool_inv_cong)
    fix a assume "a \<in> footprint p" "a \<notin> held p (snd g)"
    then show "m' a = m a" using Cons.prems(2) [of p a] G held_in_footprints [OF G(5), of a] by auto
  qed
  moreover have "pools_ok ps m' G'"
  proof (rule Cons.IH [OF G(5)])
    fix q a assume "q \<in> set ps" "a \<in> footprint q" "a \<notin> held_in ps G'"
    then show "m' a = m a" using Cons.prems(2) [of q a] G held_footprint [OF G(3)] by auto
  qed
  ultimately show ?case using G by simp
qed simp

text \<open>What an operation on the list may not write: other memory, and memory that is handed out.\<close>

definition off_limits :: "buddy_mempool list \<Rightarrow> ghost list \<Rightarrow> u64 set" where
  "off_limits ps G = {a. \<forall>q \<in> set ps. a \<notin> footprint q} \<union> held_in ps G"

lemma off_limits_front:
  assumes "pools_ok (p # ps) m (g # G)" "agree_off p A m m'" "a \<in> off_limits (p # ps) ((fl, A) # G)"
  shows "m' a = m a"
  using assms held_in_footprints [of ps m G a] by (auto simp: off_limits_def agree_off_def)

lemma off_limits_rest:
  assumes "pools_ok (p # ps) m (g # G)" "a \<in> off_limits (p # ps) (g # G')"
  shows "a \<in> off_limits ps G'"
  using assms held_footprint [of p m] by (fastforce simp: off_limits_def)

lemma off_limits_outside: "(\<forall>q \<in> set ps. a \<notin> footprint q) \<Longrightarrow> a \<in> off_limits ps G"
  by (simp add: off_limits_def)

section \<open>The allocation loop\<close>

definition has_run :: "buddy_mempool \<Rightarrow> ghost \<Rightarrow> nat \<Rightarrow> bool" where
  "has_run p g order \<longleftrightarrow>
     (\<exists>k. wf_blk (pool_order p) (k, order) \<and> ext (k, order) \<subseteq> free_bytes (fst g))"

text \<open>
  The loop ends with \<open>NULL\<close> when no pool has a run of the size; otherwise the block is from the
  first pool that has one.
\<close>

definition pools_alloc_ok ::
    "buddy_mempool list \<Rightarrow> mem \<Rightarrow> ghost list \<Rightarrow> nat \<Rightarrow> u64 \<Rightarrow> buddy_mempool list \<Rightarrow> mem \<Rightarrow> bool" where
  "pools_alloc_ok ps m G order a ps' m' \<longleftrightarrow>
     (a = 0 \<and> ps' = ps \<and> m' = m \<and> (\<forall>i < length ps. \<not> has_run (ps ! i) (G ! i) order)) \<or>
     (\<exists>i k fl'. i < length ps \<and> (\<forall>j < i. \<not> has_run (ps ! j) (G ! j) order) \<and>
        a = baddr (ps ! i) k \<and> a \<noteq> 0 \<and> wf_blk (pool_order (ps ! i)) (k, order) \<and>
        ext (k, order) \<subseteq> free_bytes (fst (G ! i)) \<and> (k, order) \<notin> snd (G ! i) \<and>
        pools_ok ps' m' (G[i := (fl', insert (k, order) (snd (G ! i)))]))"

lemma pools_alloc_ok_later:
  assumes "\<not> has_run p g order" "pools_alloc_ok ps m G order a ps' m'"
    and "\<And>G'. pools_ok ps' m' G' \<Longrightarrow> pools_ok (p # ps') m' (g # G')"
  shows "pools_alloc_ok (p # ps) m (g # G) order a (p # ps') m'"
  using assms(2) unfolding pools_alloc_ok_def
proof (elim disjE exE conjE, goal_cases)
  case 1
  then show ?case using assms(1) by (auto simp: less_Suc_eq_0_disj)
next
  case (2 i k fl')
  then show ?case
    using assms(1,3)
    by (intro disjI2 exI [of _ "Suc i"] exI [of _ k] exI [of _ fl']) (auto simp: less_Suc_eq_0_disj)
qed

lemma buddy_alloc_step:
  assumes inv: "pool_inv p m fl A" and "order \<le> pool_order p" "min_order p \<le> order"
  obtains "buddy_alloc p order m = Inr (0, p, m)" "\<not> has_run p (fl, A) order"
  | k p' m' fl' where "buddy_alloc p order m = Inr (baddr p k, p', m')" "baddr p k \<noteq> 0"
      "wf_blk (pool_order p) (k, order)" "ext (k, order) \<subseteq> free_bytes fl" "(k, order) \<notin> A"
      "same_pool p p'" "agree_off p A m m'" "pool_inv p' m' fl' (insert (k, order) A)"
proof -
  have e: "eff_order p order = order" using assms(3) by (simp add: eff_order_def)
  show thesis
  proof (cases "spec_alloc (pool_order p) fl order")
    case None
    then show thesis
      using buddy_alloc_refines [OF inv assms(2)] spec_alloc_None [OF inv None] that(1)
      unfolding e by (simp add: alloc_refines_def has_run_def)
  next
    case (Some r)
    then obtain k fl' p' m' where r: "buddy_alloc p order m = Inr (baddr p k, p', m')"
      "same_pool p p'" "agree_off p A m m'" "pool_inv p' m' fl' (insert (k, order) A)" "(k, order) \<notin> A"
      using buddy_alloc_refines [OF inv assms(2)] unfolding e by (cases r) (auto simp: alloc_refines_def)
    note c = inv_core [OF inv] and c' = inv_core [OF r(4)]
    have "ext (k, order) \<subseteq> free_bytes fl"
      using core_free_bytes(1) [OF c] core_free_bytes [OF c'] covered_insert_disjoint [OF c' r(5)]
        same_pool_fields(2) [OF r(2)] by auto
    moreover have "wf_blk (pool_order p) (k, order)"
      using family_wf [OF core_family [OF c']] same_pool_fields(2) [OF r(2)] by simp
    moreover have "baddr p k \<noteq> 0"
      using baddr_nonnull [OF core_layout [OF c']] core_alloc_block(1) [OF c'] same_pool_fields(5) [OF r(2)]
      by (metis insertI1)
    ultimately show thesis using r that(2) by blast
  qed
qed

lemma alloc_from_pools_ok:
  assumes "pools_ok ps m G" "\<And>p. p \<in> set ps \<Longrightarrow> order \<le> pool_order p" "PAGE_SHIFT \<le> order"
  shows "\<exists>a ps' m'. alloc_from_pools ps order m = Inr (a, ps', m') \<and> list_all2 same_pool ps ps' \<and>
    (\<forall>a \<in> off_limits ps G. m' a = m a) \<and> pools_alloc_ok ps m G order a ps' m'"
  using assms(1,2)
proof (induction ps arbitrary: G)
  case Nil
  then show ?case by (simp add: pools_alloc_ok_def)
next
  case (Cons p ps)
  from Cons.prems(1) obtain g G' where G: "G = g # G'" "managed p" "pool_inv p m (fst g) (snd g)"
    "\<And>q. q \<in> set ps \<Longrightarrow> footprint p \<inter> footprint q = {}" "pools_ok ps m G'"
    by (rule pools_ok_ConsE) blast
  have "order \<le> pool_order p" "min_order p \<le> order"
    using Cons.prems(2) G(2) assms(3) by (auto simp: managed_def)
  from G(3) this show ?case
  proof (cases rule: buddy_alloc_step)
    case 1
    obtain a ps' m' where r: "alloc_from_pools ps order m = Inr (a, ps', m')" "list_all2 same_pool ps ps'"
      "\<And>a. a \<in> off_limits ps G' \<Longrightarrow> m' a = m a" "pools_alloc_ok ps m G' order a ps' m'"
      using Cons.IH [OF G(5)] Cons.prems(2) by auto
    have "\<not> has_run p g order" using 1(2) by (simp add: has_run_def)
    then have "pools_alloc_ok (p # ps) m G order a (p # ps') m'"
      using r(4) pools_ok_step_rest [OF Cons.prems(1) [unfolded G(1)] r(2) r(3) [OF off_limits_outside]] unfolding G(1)
      by (intro pools_alloc_ok_later)
    moreover have "\<forall>a \<in> off_limits (p # ps) G. m' a = m a"
      using r(3) off_limits_rest [OF Cons.prems(1) [unfolded G(1)]] unfolding G(1) by blast
    ultimately show ?thesis using 1(1) r(1,2) by auto
  next
    case (2 k p' m' fl')
    have "pools_alloc_ok (p # ps) m G order (baddr p k) (p' # ps) m'"
      unfolding pools_alloc_ok_def
      using 2 pools_ok_step_front [OF Cons.prems(1) [unfolded G(1)] 2(6,7,8)] G(1)
      by (intro disjI2 exI [of _ 0] exI [of _ k] exI [of _ fl']) simp
    moreover have "list_all2 same_pool (p # ps) (p' # ps)" using 2(6) by simp
    moreover have "\<forall>a \<in> off_limits (p # ps) G. m' a = m a"
      using off_limits_front [OF Cons.prems(1) [unfolded G(1)] 2(7), of _ "fst g"] unfolding G(1) by simp
    ultimately show ?thesis using 2(1,2) by auto
  qed
qed

section \<open>The release loop\<close>

lemma in_pool_test:
  assumes "managed p"
  shows "base_addr p \<le> v \<and> v < base_addr p + int_shl1 (pool_order p) \<longleftrightarrow>
         unat (base_addr p) \<le> unat v \<and> unat v < unat (base_addr p) + 2 ^ pool_order p"
proof -
  have po: "pool_order p < 31" "unat (base_addr p) + 2 ^ pool_order p < 2 ^ 64"
    using assms by (auto simp: managed_def)
  then have "unat (base_addr p + int_shl1 (pool_order p)) = unat (base_addr p) + 2 ^ pool_order p"
    using unat_pow2 [of "pool_order p", where ?'a = 64] by (simp add: int_shl1_small unat_add_small)
  then show ?thesis by (simp add: word_le_nat_alt word_less_nat_alt)
qed

lemma block_node: "slot p k \<Longrightarrow> baddr p k \<in> nodes p"
  by (simp add: nodes_def)

lemma free_in_pools_ok:
  assumes "pools_ok ps m G" "i < length ps" "snd (G ! i) = insert (k, order) A" "(k, order) \<notin> A"
  shows "\<exists>ps' m' fl'. free_in_pools ps (baddr (ps ! i) k) order m = Inr (ps', m') \<and>
    list_all2 same_pool ps ps' \<and> (\<forall>a \<in> off_limits ps (G[i := (fl', A)]). m' a = m a) \<and>
    pools_ok ps' m' (G[i := (fl', A)])"
  using assms
proof (induction ps arbitrary: G i)
  case Nil
  then show ?case by simp
next
  case (Cons p ps)
  from Cons.prems(1) obtain g G' where G: "G = g # G'" "managed p" "pool_inv p m (fst g) (snd g)"
    "\<And>q. q \<in> set ps \<Longrightarrow> footprint p \<inter> footprint q = {}" "pools_ok ps m G'"
    by (rule pools_ok_ConsE) blast
  note ok = Cons.prems(1) [unfolded G(1)]
  show ?case
  proof (cases i)
    case 0
    then have A: "snd g = insert (k, order) A" using Cons.prems(3) G(1) by simp
    note c = inv_core [OF G(3)]
    note kb = core_alloc_block [OF c, of k order, unfolded A, simplified]
    have e: "eff_order p order = order" using kb(2) by (simp add: eff_order_def)
    obtain p' m' where r: "buddy_free p (baddr p k) order m = Inr (p', m')" "same_pool p p'"
      "agree_off p A m m'" "pool_inv p' m' (spec_free (pool_order p) (fst g) k order) A"
      using buddy_free_refines [of p m "fst g" k order A] G(3) A Cons.prems(4) kb(3) unfolding e by auto
    have "base_addr p \<le> baddr p k \<and> baddr p k < base_addr p + int_shl1 (pool_order p)"
      unfolding in_pool_test [OF G(2)] using unat_baddr [OF core_layout [OF c] kb(1)] kb(1)
      by (simp add: slot_def)
    then have "free_in_pools (p # ps) (baddr p k) order m = Inr (p' # ps, m')" using r(1) by simp
    moreover have "pools_ok (p' # ps) m' ((spec_free (pool_order p) (fst g) k order, A) # G')"
      by (rule pools_ok_step_front [OF ok r(2,3,4)])
    moreover have "\<forall>a \<in> off_limits (p # ps) (G[0 := (spec_free (pool_order p) (fst g) k order, A)]). m' a = m a"
      using off_limits_front [OF ok r(3)] unfolding G(1) by simp
    ultimately show ?thesis using r(2) 0 G(1) by auto
  next
    case (Suc j)
    have j: "j < length ps" "snd (G' ! j) = insert (k, order) A" using Cons.prems(2,3) Suc G(1) by auto
    note inv = pools_ok_nth [OF G(5) j(1)]
    have sl: "slot (ps ! j) k" using core_alloc_block(1) [OF inv_core, of "ps ! j"] inv j(2) by blast
    obtain ps' m' fl' where r: "free_in_pools ps (baddr (ps ! j) k) order m = Inr (ps', m')"
      "list_all2 same_pool ps ps'" "\<And>a. a \<in> off_limits ps (G'[j := (fl', A)]) \<Longrightarrow> m' a = m a"
      "pools_ok ps' m' (G'[j := (fl', A)])"
      using Cons.IH [OF G(5) j Cons.prems(4)] by auto
    have "baddr (ps ! j) k \<in> footprint (ps ! j)"
      using node_footprint(1) [OF core_layout [OF inv_core] block_node [OF sl]] inv by blast
    then have "baddr (ps ! j) k \<notin> footprint p" using G(4) [of "ps ! j"] j(1) by auto
    then have "\<not> (base_addr p \<le> baddr (ps ! j) k \<and> baddr (ps ! j) k < base_addr p + int_shl1 (pool_order p))"
      unfolding in_pool_test [OF G(2)] by (simp add: footprint_def)
    then have "free_in_pools (p # ps) (baddr (ps ! j) k) order m = Inr (p # ps', m')"
      using r(1) by (simp only: free_in_pools.simps if_False ebind_simps split_conv)
    moreover have "pools_ok (p # ps') m' (g # G'[j := (fl', A)])"
      by (rule pools_ok_step_rest [OF ok r(2) r(3) [OF off_limits_outside] r(4)])
    moreover have "\<forall>a \<in> off_limits (p # ps) (g # G'[j := (fl', A)]). m' a = m a"
      using r(3) off_limits_rest [OF ok] by blast
    ultimately show ?thesis using r(2) Suc G(1) by auto
  qed
qed

section \<open>The page allocator and its contract\<close>

text \<open>The order that \<open>n\<close> pages are served with.\<close>

definition page_ord :: "nat \<Rightarrow> nat" where
  "page_ord n = get_order (of_nat n * PAGE_SIZE) + PAGE_SHIFT"

text \<open>All blocks handed out, by virtual address and order.\<close>

definition out_blocks :: "buddy_mempool list \<Rightarrow> ghost list \<Rightarrow> (u64 \<times> nat) set" where
  "out_blocks ps G = (\<Union>i < length ps. map_prod (baddr (ps ! i)) id ` snd (G ! i))"

lemma in_out_blocks:
  "(v, j) \<in> out_blocks ps G \<longleftrightarrow> (\<exists>i < length ps. \<exists>k. v = baddr (ps ! i) k \<and> (k, j) \<in> snd (G ! i))"
  by (force simp: out_blocks_def)

lemma ex_nth_split: "i < n \<Longrightarrow> (\<exists>h < n. P h) \<longleftrightarrow> P i \<or> (\<exists>h < n. h \<noteq> i \<and> P (h :: nat))"
  by auto

lemma ex_nth_update:
  assumes "i < length G"
  shows "(\<exists>h < length G. P h (G[i := x] ! h)) \<longleftrightarrow> P i x \<or> (\<exists>h < length G. h \<noteq> i \<and> P h (G ! h))"
  using assms by (subst ex_nth_split [of i]) auto

lemma out_blocks_insert:
  assumes "i < length ps" "length G = length ps"
  shows "out_blocks ps (G[i := (fl, insert (k, j) (snd (G ! i)))]) = insert (baddr (ps ! i) k, j) (out_blocks ps G)"
proof (rule set_eqI, clarify)
  fix v b
  have "(v, b) \<in> out_blocks ps (G[i := (fl, insert (k, j) (snd (G ! i)))]) \<longleftrightarrow>
      (v = baddr (ps ! i) k \<and> b = j) \<or> (\<exists>h < length ps. \<exists>l. v = baddr (ps ! h) l \<and> (l, b) \<in> snd (G ! h))"
    using ex_nth_update [of i G "\<lambda>h g. \<exists>l. v = baddr (ps ! h) l \<and> (l, b) \<in> snd g"]
      ex_nth_split [of i "length ps" "\<lambda>h. \<exists>l. v = baddr (ps ! h) l \<and> (l, b) \<in> snd (G ! h)"] assms
    by (auto simp: in_out_blocks)
  then show "(v, b) \<in> out_blocks ps (G[i := (fl, insert (k, j) (snd (G ! i)))]) \<longleftrightarrow>
      (v, b) \<in> insert (baddr (ps ! i) k, j) (out_blocks ps G)"
    by (auto simp: in_out_blocks)
qed

lemma out_blocks_same_pools:
  assumes "list_all2 same_pool ps ps'"
  shows "out_blocks ps' G = out_blocks ps G"
proof -
  have "baddr (ps' ! i) = baddr (ps ! i)" if "i < length ps" for i
    using list_all2_nthD [OF assms that] by (rule same_pool_fields(5))
  then show ?thesis using list_all2_lengthD [OF assms] by (simp add: out_blocks_def)
qed

text \<open>A block is in one pool only, and at one offset of it.\<close>

lemma out_block_unique:
  assumes ok: "pools_ok ps m G" and i: "i < length ps" "(k, a) \<in> snd (G ! i)"
    and j: "j < length ps" "(l, b) \<in> snd (G ! j)" and e: "baddr (ps ! i) k = baddr (ps ! j) l"
  shows "j = i \<and> l = k \<and> b = a"
proof -
  note inv = pools_ok_nth [OF ok i(1)] pools_ok_nth [OF ok j(1)]
  have c: "pool_core (ps ! i) m (fst (G ! i)) (snd (G ! i))" "pool_core (ps ! j) m (fst (G ! j)) (snd (G ! j))"
    using inv inv_core by auto
  note s = core_alloc_block(1) [OF c(1) i(2)] core_alloc_block(1) [OF c(2) j(2)]
  have "baddr (ps ! i) k \<in> footprint (ps ! i) \<inter> footprint (ps ! j)"
    using node_footprint(1) [OF core_layout [OF c(1)] block_node [OF s(1)]]
      node_footprint(1) [OF core_layout [OF c(2)] block_node [OF s(2)]] e by simp
  then have ij: "j = i" using pools_ok_apart [OF ok i(1) j(1)] by auto
  then have "l = k"
    using unat_baddr [OF core_layout [OF c(1)] s(1)] unat_baddr [OF core_layout [OF c(2)] s(2)] e by simp
  with ij i j show ?thesis using family_start_unique [OF core_family [OF c(1)], of k a b] by auto
qed

lemma out_blocks_remove:
  assumes ok: "pools_ok ps m G" and i: "i < length ps" "snd (G ! i) = insert (k, j) A" "(k, j) \<notin> A"
  shows "out_blocks ps (G[i := (fl, A)]) = out_blocks ps G - {(baddr (ps ! i) k, j)}" (is "?L = ?R")
proof
  have kj: "(k, j) \<in> snd (G ! i)" using i(2) by simp
  note len = pools_ok_length [OF ok]
  show "?L \<subseteq> ?R"
  proof (clarify, unfold in_out_blocks, elim exE conjE)
    fix v b h l assume h: "h < length ps" "(l, b) \<in> snd (G[i := (fl, A)] ! h)" "v = baddr (ps ! h) l"
    then have hG: "(l, b) \<in> snd (G ! h)" "h = i \<Longrightarrow> (l, b) \<in> A"
      using len i by (auto simp: nth_list_update split: if_splits)
    with h i(3) show "(v, b) \<in> ?R"
      using out_block_unique [OF ok i(1) kj h(1) hG(1)] by (auto simp: in_out_blocks)
  qed
  show "?R \<subseteq> ?L"
  proof
    fix x assume "x \<in> ?R"
    moreover obtain v b where x: "x = (v, b)" by (cases x)
    ultimately have v: "(v, b) \<in> out_blocks ps G" "(v, b) \<noteq> (baddr (ps ! i) k, j)" by auto
    then obtain h l where h: "h < length ps" "v = baddr (ps ! h) l" "(l, b) \<in> snd (G ! h)"
      by (auto simp: in_out_blocks)
    then have "(l, b) \<in> snd (G[i := (fl, A)] ! h)" using v(2) i len h by (cases "h = i") auto
    with h x show "x \<in> ?L" by (auto simp: in_out_blocks)
  qed
qed

lemma out_blocks_fresh:
  assumes ok: "pools_ok ps m (G[i := (fl, insert (k, j) (snd (G ! i)))])" and len: "length G = length ps"
    and i: "i < length ps" "(k, j) \<notin> snd (G ! i)"
  shows "(baddr (ps ! i) k, j) \<notin> out_blocks ps G"
proof
  let ?G = "G[i := (fl, insert (k, j) (snd (G ! i)))]"
  assume "(baddr (ps ! i) k, j) \<in> out_blocks ps G"
  then obtain h l where h: "h < length ps" "baddr (ps ! i) k = baddr (ps ! h) l" "(l, j) \<in> snd (G ! h)"
    by (auto simp: in_out_blocks)
  then have "(l, j) \<in> snd (?G ! h)" "(k, j) \<in> snd (?G ! i)" using len i(1) by (auto simp: nth_list_update)
  then have "h = i \<and> l = k" using out_block_unique [OF ok i(1) _ h(1) _ h(2)] by blast
  with h(3) i(2) show False by simp
qed

text \<open>
  The clients' view: \<open>L\<close> is the set of page ranges held, each by its physical address and its
  number of pages.
\<close>

definition out_of :: "u64 \<times> nat \<Rightarrow> u64 \<times> nat" where
  "out_of b = (va (fst b), page_ord (snd b))"

definition pages_live :: "machine \<Rightarrow> (u64 \<times> nat) set \<Rightarrow> bool" where
  "pages_live s L \<longleftrightarrow>
     (\<exists>G. pools_ok (petmem_pool_list s) (kmem s) G \<and> out_blocks (petmem_pool_list s) G = out_of ` L) \<and>
     inj_on out_of L"

definition page_span :: "u64 \<times> nat \<Rightarrow> nat set" where
  "page_span b = {unat (va (fst b)) ..< unat (va (fst b)) + 2 ^ page_ord (snd b)}"

definition page_request :: "machine \<Rightarrow> nat \<Rightarrow> ((u64 \<times> nat) option \<times> machine) outcome" where
  "page_request s n =
     ebind (petmem_alloc_pages (of_nat n) s) (\<lambda>(a, s'). Inr (if a = 0 then None else Some (a, n), s'))"

definition page_return :: "machine \<Rightarrow> u64 \<times> nat \<Rightarrow> machine outcome" where
  "page_return s b = petmem_free_pages (fst b) (of_nat (snd b)) s"

text \<open>The sizes all pools can hold: a smaller pool on the list stops the search in \<open>BUG_ON\<close>.\<close>

definition servable :: "machine \<Rightarrow> nat \<Rightarrow> bool" where
  "servable s n \<longleftrightarrow> (\<forall>p \<in> set (petmem_pool_list s). page_ord n \<le> pool_order p)"

lemma servable_same_pools:
  "list_all2 same_pool (petmem_pool_list s) (petmem_pool_list s') \<Longrightarrow> servable s' n = servable s n"
proof -
  assume "list_all2 same_pool (petmem_pool_list s) (petmem_pool_list s')"
  then have "pool_order ` set (petmem_pool_list s') = pool_order ` set (petmem_pool_list s)"
    by (induction rule: list_all2_induct) (auto simp: same_pool_fields)
  then show ?thesis unfolding servable_def by (metis (no_types, lifting) image_iff)
qed

lemma pa_nonnull:
  assumes "pools_ok ps m G" "i < length ps" "(k, j) \<in> snd (G ! i)"
  shows "pa (baddr (ps ! i) k) \<noteq> 0"
proof
  assume "pa (baddr (ps ! i) k) = 0"
  then have e: "baddr (ps ! i) k = PAGE_OFFSET" by (simp add: pa_def)
  note inv = pools_ok_nth [OF assms(1,2)]
  have c: "pool_core (ps ! i) m (fst (G ! i)) (snd (G ! i))" using inv inv_core by auto
  show False
    using inv unat_baddr [OF core_layout [OF c] core_alloc_block(1) [OF c assms(3)]] e
    by (simp add: managed_def)
qed


lemma page_ord_ge: "PAGE_SHIFT \<le> page_ord n"
  by (simp add: page_ord_def)

text \<open>Both operations in terms of the pool list and the blocks handed out.\<close>

lemma petmem_alloc_pages_ok:
  assumes ok: "pools_ok (petmem_pool_list s) (kmem s) G" and sv: "servable s n"
  obtains a s' where "petmem_alloc_pages (of_nat n) s = Inr (a, s')" "a \<noteq> 0 \<Longrightarrow> va a \<noteq> 0"
    "list_all2 same_pool (petmem_pool_list s) (petmem_pool_list s')"
    "s' = s\<lparr>petmem_pool_list := petmem_pool_list s', kmem := kmem s'\<rparr>"
    "\<And>x. x \<in> off_limits (petmem_pool_list s) G \<Longrightarrow> kmem s' x = kmem s x"
    "pools_alloc_ok (petmem_pool_list s) (kmem s) G (page_ord n)
       (if a = 0 then 0 else va a) (petmem_pool_list s') (kmem s')"
proof -
  obtain v ps' m' where r: "alloc_from_pools (petmem_pool_list s) (page_ord n) (kmem s) = Inr (v, ps', m')"
    "list_all2 same_pool (petmem_pool_list s) ps'"
    "\<And>a. a \<in> off_limits (petmem_pool_list s) G \<Longrightarrow> m' a = kmem s a"
    "pools_alloc_ok (petmem_pool_list s) (kmem s) G (page_ord n) v ps' m'"
    using alloc_from_pools_ok [OF ok _ page_ord_ge, of n] sv unfolding servable_def by blast
  have v: "pa v \<noteq> 0" if "v \<noteq> 0"
  proof -
    from r(4) that obtain i k fl' where i: "i < length (petmem_pool_list s)" "v = baddr (petmem_pool_list s ! i) k"
      "pools_ok ps' m' (G[i := (fl', insert (k, page_ord n) (snd (G ! i)))])"
      by (auto simp: pools_alloc_ok_def)
    have "same_pool (petmem_pool_list s ! i) (ps' ! i)" using list_all2_nthD [OF r(2) i(1)] .
    then show ?thesis
      using pa_nonnull [OF i(3), of i k "page_ord n"] i(1,2) list_all2_lengthD [OF r(2)] pools_ok_length [OF ok]
      by (simp add: same_pool_fields(5))
  qed
  let ?s = "s\<lparr>petmem_pool_list := ps', kmem := m'\<rparr>"
  have "petmem_alloc_pages (of_nat n) s = Inr (if v = 0 then 0 else pa v, ?s)"
    unfolding petmem_alloc_pages_def page_ord_def [symmetric] by (simp add: r(1))
  then show thesis using r v by (intro that [of "if v = 0 then 0 else pa v" ?s]) auto
qed

lemma petmem_free_pages_ok:
  assumes "pools_ok (petmem_pool_list s) (kmem s) G" "i < length (petmem_pool_list s)"
    and "snd (G ! i) = insert (k, page_ord n) A" "(k, page_ord n) \<notin> A"
    and a: "va a = baddr (petmem_pool_list s ! i) k"
  obtains s' fl' where "petmem_free_pages a (of_nat n) s = Inr s'"
    "list_all2 same_pool (petmem_pool_list s) (petmem_pool_list s')"
    "s' = s\<lparr>petmem_pool_list := petmem_pool_list s', kmem := kmem s'\<rparr>"
    "\<And>x. x \<in> off_limits (petmem_pool_list s) (G[i := (fl', A)]) \<Longrightarrow> kmem s' x = kmem s x"
    "pools_ok (petmem_pool_list s') (kmem s') (G[i := (fl', A)])"
proof -
  obtain ps' m' fl' where r: "free_in_pools (petmem_pool_list s) (va a) (page_ord n) (kmem s) = Inr (ps', m')"
    "list_all2 same_pool (petmem_pool_list s) ps'"
    "\<And>a. a \<in> off_limits (petmem_pool_list s) (G[i := (fl', A)]) \<Longrightarrow> m' a = kmem s a"
    "pools_ok ps' m' (G[i := (fl', A)])"
    using free_in_pools_ok [OF assms(1-4)] unfolding a by blast
  have "petmem_free_pages a (of_nat n) s = Inr (s\<lparr>petmem_pool_list := ps', kmem := m'\<rparr>)"
    unfolding petmem_free_pages_def page_ord_def [symmetric] by (simp add: r(1))
  then show thesis using r by (intro that [of "s\<lparr>petmem_pool_list := ps', kmem := m'\<rparr>" fl']) auto
qed

lemma pages_live_alloc:
  assumes l: "pages_live s L" and sv: "servable s n"
  shows "\<exists>r s'. page_request s n = Inr (r, s') \<and> (\<forall>k. servable s' k = servable s k) \<and>
    (case r of None \<Rightarrow> pages_live s' L | Some b \<Rightarrow> b \<notin> L \<and> pages_live s' (insert b L))"
proof -
  obtain G where G: "pools_ok (petmem_pool_list s) (kmem s) G" "out_blocks (petmem_pool_list s) G = out_of ` L"
    "inj_on out_of L" using l by (auto simp: pages_live_def)
  obtain a s' where r: "petmem_alloc_pages (of_nat n) s = Inr (a, s')"
    "list_all2 same_pool (petmem_pool_list s) (petmem_pool_list s')"
    "pools_alloc_ok (petmem_pool_list s) (kmem s) G (page_ord n)
       (if a = 0 then 0 else va a) (petmem_pool_list s') (kmem s')" "a \<noteq> 0 \<Longrightarrow> va a \<noteq> 0"
    by (rule petmem_alloc_pages_ok [OF G(1) sv]) blast
  have req: "page_request s n = Inr (if a = 0 then None else Some (a, n), s')"
    using r(1) by (simp add: page_request_def)
  note sv' = servable_same_pools [OF r(2)]
  from r(3,4) consider "petmem_pool_list s' = petmem_pool_list s" "kmem s' = kmem s" "a = 0"
    | i k fl' where "a \<noteq> 0" "i < length (petmem_pool_list s)" "va a = baddr (petmem_pool_list s ! i) k"
      "(k, page_ord n) \<notin> snd (G ! i)"
      "pools_ok (petmem_pool_list s') (kmem s') (G[i := (fl', insert (k, page_ord n) (snd (G ! i)))])"
    by (auto simp: pools_alloc_ok_def split: if_splits)
  then show ?thesis
  proof cases
    case 1
    then have "pages_live s' L" using l by (simp add: pages_live_def)
    then show ?thesis using req sv' 1(3) by simp
  next
    case 2
    have len: "length G = length (petmem_pool_list s')" "i < length (petmem_pool_list s')"
      and b: "baddr (petmem_pool_list s' ! i) = baddr (petmem_pool_list s ! i)"
      using pools_ok_length [OF G(1)] list_all2_lengthD [OF r(2)] 2(2)
        same_pool_fields(5) [OF list_all2_nthD [OF r(2) 2(2)]] by simp_all
    have "out_of (a, n) \<notin> out_of ` L"
      using out_blocks_fresh [OF 2(5) len 2(4)] out_blocks_same_pools [OF r(2)] G(2) 2(3) b
      by (simp add: out_of_def)
    moreover have "out_blocks (petmem_pool_list s') (G[i := (fl', insert (k, page_ord n) (snd (G ! i)))])
        = out_of ` insert (a, n) L"
      using out_blocks_insert [OF 2(2) pools_ok_length [OF G(1)]] out_blocks_same_pools [OF r(2)] G(2) 2(3)
      by (simp add: out_of_def)
    ultimately show ?thesis using req sv' 2(1,5) G(3) by (auto simp: pages_live_def)
  qed
qed

lemma held_block:
  assumes "out_blocks ps G = out_of ` L" "b \<in> L"
  obtains i k where "i < length ps" "va (fst b) = baddr (ps ! i) k" "(k, page_ord (snd b)) \<in> snd (G ! i)"
proof -
  have "out_of b \<in> out_blocks ps G" using assms by simp
  then show thesis using that by (auto simp: out_of_def in_out_blocks)
qed

lemma pages_live_free:
  assumes l: "pages_live s L" and b: "b \<in> L"
  shows "\<exists>s'. page_return s b = Inr s' \<and> (\<forall>k. servable s' k = servable s k) \<and> pages_live s' (L - {b})"
proof -
  obtain G where G: "pools_ok (petmem_pool_list s) (kmem s) G" "out_blocks (petmem_pool_list s) G = out_of ` L"
    "inj_on out_of L" using l by (auto simp: pages_live_def)
  let ?n = "page_ord (snd b)"
  obtain i k where i: "i < length (petmem_pool_list s)" "va (fst b) = baddr (petmem_pool_list s ! i) k"
    "(k, ?n) \<in> snd (G ! i)" using held_block [OF G(2) b] .
  let ?A = "snd (G ! i) - {(k, ?n)}"
  have A: "snd (G ! i) = insert (k, ?n) ?A" "(k, ?n) \<notin> ?A" using i(3) by auto
  obtain s' fl' where r: "petmem_free_pages (fst b) (of_nat (snd b)) s = Inr s'"
    "list_all2 same_pool (petmem_pool_list s) (petmem_pool_list s')"
    "pools_ok (petmem_pool_list s') (kmem s') (G[i := (fl', ?A)])"
    by (rule petmem_free_pages_ok [OF G(1) i(1) A i(2)]) blast
  have "out_of ` (L - {b}) = out_of ` L - {out_of b}" using G(3) b by (auto simp: inj_on_def)
  then have "out_blocks (petmem_pool_list s') (G[i := (fl', ?A)]) = out_of ` (L - {b})"
    using out_blocks_remove [OF G(1) i(1) A] out_blocks_same_pools [OF r(2)] G(2) i(2)
    by (simp add: out_of_def)
  then have "pages_live s' (L - {b})" using r(3) G(3) by (auto simp: pages_live_def inj_on_diff)
  then show ?thesis using r(1) servable_same_pools [OF r(2)] by (simp add: page_return_def)
qed

text \<open>Blocks that are out do not share a byte, in one pool or across pools.\<close>

lemma page_span_block:
  assumes ok: "pools_ok ps m G" and i: "i < length ps" "va (fst b) = baddr (ps ! i) k"
    "(k, page_ord (snd b)) \<in> snd (G ! i)"
  shows "page_span b = (+) (unat (base_addr (ps ! i))) ` ext (k, page_ord (snd b))"
    and "page_span b \<subseteq> unat ` footprint (ps ! i)"
proof -
  have c: "pool_core (ps ! i) m (fst (G ! i)) (snd (G ! i))"
    using pools_ok_nth [OF ok i(1)] inv_core by blast
  note kb = core_alloc_block [OF c i(3)]
  have u: "unat (va (fst b)) = unat (base_addr (ps ! i)) + k"
    using unat_baddr [OF core_layout [OF c] kb(1)] i(2) by simp
  show "page_span b = (+) (unat (base_addr (ps ! i))) ` ext (k, page_ord (snd b))"
    by (simp add: page_span_def u ext_def ac_simps)
  show "page_span b \<subseteq> unat ` footprint (ps ! i)"
  proof
    fix x assume "x \<in> page_span b"
    then have x: "unat (base_addr (ps ! i)) \<le> x" "x < unat (base_addr (ps ! i)) + 2 ^ pool_order (ps ! i)"
      using u kb(5) by (auto simp: page_span_def)
    then have n: "unat (of_nat x :: u64) = x"
      using core_layout [OF c] by (intro unat_of_nat_u64) (simp add: pool_layout_def)
    with x have "of_nat x \<in> footprint (ps ! i)" by (simp add: footprint_def)
    then show "x \<in> unat ` footprint (ps ! i)" using n by (metis imageI)
  qed
qed

lemma pages_live_disjoint:
  assumes l: "pages_live s L" and bc: "b \<in> L" "c \<in> L" "b \<noteq> c"
  shows "page_span b \<inter> page_span c = {}"
proof -
  let ?ps = "petmem_pool_list s"
  obtain G where G: "pools_ok ?ps (kmem s) G" "out_blocks ?ps G = out_of ` L" "inj_on out_of L"
    using l by (auto simp: pages_live_def)
  obtain i k where i: "i < length ?ps" "va (fst b) = baddr (?ps ! i) k" "(k, page_ord (snd b)) \<in> snd (G ! i)"
    using held_block [OF G(2) bc(1)] .
  obtain j h where j: "j < length ?ps" "va (fst c) = baddr (?ps ! j) h" "(h, page_ord (snd c)) \<in> snd (G ! j)"
    using held_block [OF G(2) bc(2)] .
  note sp = page_span_block [OF G(1) i] page_span_block [OF G(1) j]
  show ?thesis
  proof (cases "i = j")
    case False
    then have "unat ` footprint (?ps ! i) \<inter> unat ` footprint (?ps ! j) = {}"
      using pools_ok_apart [OF G(1) i(1) j(1)] by (auto simp flip: word_unat_eq_iff)
    then show ?thesis using sp(2,4) by blast
  next
    case True
    have "out_of b \<noteq> out_of c" using G(3) bc by (auto simp: inj_on_def)
    then have "(k, page_ord (snd b)) \<noteq> (h, page_ord (snd c))" using i(2) j(2) True by (auto simp: out_of_def)
    moreover have "pool_core (?ps ! i) (kmem s) (fst (G ! i)) (snd (G ! i))"
      using pools_ok_nth [OF G(1) i(1)] inv_core by blast
    ultimately have "ext (k, page_ord (snd b)) \<inter> ext (h, page_ord (snd c)) = {}"
      using family_unique [OF core_family] i(3) j(3) True by blast
    then show ?thesis using sp(1,3) True by auto
  qed
qed

interpretation pages: block_allocator pages_live page_request page_return servable page_span
  using pages_live_alloc pages_live_free pages_live_disjoint by unfold_locales blast+

end
