(* ===== verification/Add_Memory.thy ===== *)
theory Add_Memory
  imports Pools_Correct
begin

text \<open>
  \<open>ADD_MEMORY\<close>: the range given is cut into pools of distinct power-of-two sizes that cover it
  exactly, all of it free; and the properties of the page allocator as its callers see them.
\<close>

section \<open>What is needed of the range and of the list heads\<close>

definition byte_range :: "u64 \<Rightarrow> nat \<Rightarrow> u64 set" where
  "byte_range a n = {x. unat a \<le> unat x \<and> unat x < unat a + n}"

definition apart :: "u64 \<Rightarrow> nat \<Rightarrow> u64 \<Rightarrow> nat \<Rightarrow> bool" where
  "apart a m b n \<longleftrightarrow> unat a + m \<le> unat b \<or> unat b + n \<le> unat a"

lemma apart_disjoint: "apart a m b n \<Longrightarrow> byte_range a m \<inter> byte_range b n = {}"
  by (auto simp: apart_def byte_range_def)

lemma byte_range_mono: "m \<le> n \<Longrightarrow> byte_range a m \<subseteq> byte_range a n"
  by (auto simp: byte_range_def)

lemma footprint_ranges:
  "footprint p = byte_range (avail p) (16 * Suc (pool_order p)) \<union> byte_range (base_addr p) (2 ^ pool_order p)"
  by (auto simp: footprint_def byte_range_def)

text \<open>
  The range is in the direct mapping above physical page 0; the arrays \<open>kmalloc\<close> hands out from
  call \<open>i\<close> on (20 at most, of at most 31 list heads each, 512 bytes with \<open>kmalloc\<close>'s rounding) are
  apart from it, from each other and from the pools in use, and so is the range.
\<close>

definition room :: "(nat \<Rightarrow> u64) \<Rightarrow> nat \<Rightarrow> u64 \<Rightarrow> nat \<Rightarrow> buddy_mempool list \<Rightarrow> bool" where
  "room av i base n ps \<longleftrightarrow>
     unat PAGE_OFFSET < unat base \<and> unat base + n < 2 ^ 64 \<and>
     (\<forall>j \<in> {i ..< 20}. unat (av j) + 512 \<le> 2 ^ 64 \<and> apart (av j) 512 base n \<and>
        (\<forall>k \<in> {i ..< 20}. k \<noteq> j \<longrightarrow> apart (av j) 512 (av k) 512) \<and>
        (\<forall>p \<in> set ps. footprint p \<inter> byte_range (av j) 512 = {})) \<and>
     (\<forall>p \<in> set ps. footprint p \<inter> byte_range base n = {})"

text \<open>The ghost state of a pool that is free as a whole.\<close>

definition whole :: "buddy_mempool \<Rightarrow> ghost" where
  "whole p = (\<lambda>i. if i = pool_order p then [0] else [], {})"

lemma room_step:
  assumes r: "room av i base n ps" and k: "k \<le> n" "i < 20"
    and p: "base_addr p = base" "avail p = av i" "2 ^ pool_order p = k" "pool_order p < 31"
    and b: "unat base' = unat base + k"
  shows "room av (Suc i) base' (n - k) (p # ps)"
    and "\<forall>q \<in> set ps. footprint p \<inter> footprint q = {}"
proof -
  have f: "footprint p \<subseteq> byte_range (av i) 512 \<union> byte_range base k"
    using p byte_range_mono [of "16 * Suc (pool_order p)" 512 "av i"] by (auto simp: footprint_ranges)
  have sub: "byte_range base k \<subseteq> byte_range base n" "byte_range base' (n - k) \<subseteq> byte_range base n"
    using k b by (auto simp: byte_range_def)
  have "byte_range base k \<inter> byte_range base' (n - k) = {}" using b by (auto simp: byte_range_def)
  moreover have "byte_range (av i) 512 \<inter> byte_range base n = {}"
    using r k(2) by (intro apart_disjoint) (auto simp: room_def)
  ultimately have fr: "footprint p \<inter> byte_range base' (n - k) = {}" using f sub by blast
  have fj: "footprint p \<inter> byte_range (av j) 512 = {}" if "Suc i \<le> j" "j < 20" for j
  proof -
    have "byte_range (av i) 512 \<inter> byte_range (av j) 512 = {}" "byte_range (av j) 512 \<inter> byte_range base n = {}"
      using r k(2) that by (auto simp: room_def intro!: apart_disjoint)
    then show ?thesis using f sub(1) by blast
  qed
  have "apart (av j) 512 base' (n - k)" if "Suc i \<le> j" "j < 20" for j
  proof -
    have "apart (av j) 512 base n" using r that by (simp add: room_def)
    then show ?thesis using b k by (auto simp: apart_def)
  qed
  moreover have old: "footprint q \<inter> byte_range base' (n - k) = {}" if "q \<in> set ps" for q
    using r that sub(2) unfolding room_def by blast
  ultimately show "room av (Suc i) base' (n - k) (p # ps)"
    using r k b fr fj old unfolding room_def by auto
  show "\<forall>q \<in> set ps. footprint p \<inter> footprint q = {}"
  proof
    fix q assume "q \<in> set ps"
    then have "footprint q \<inter> byte_range (av i) 512 = {}" "footprint q \<inter> byte_range base n = {}"
      using r k(2) by (auto simp: room_def)
    then show "footprint p \<inter> footprint q = {}" using f sub(1) by blast
  qed
qed

section \<open>The loop\<close>

text \<open>One pool, as one round of the loop makes it.\<close>

lemma add_one_pool:
  assumes ok: "pools_ok ps m G" and r: "room av i base n ps" and i: "i < 20"
    and order: "PAGE_SHIFT \<le> order" "order < 31" "2 ^ order \<le> n"
  obtains p m1 p' m' where "buddy_init (av i) base order PAGE_SHIFT m = Some (p, m1)"
    "buddy_free p base order m1 = Inr (p', m')" "pool_order p' = order" "base_addr p' = base"
    "pools_ok (p' # ps) m' (whole p' # G)"
    "room av (Suc i) (base + 2 ^ order) (n - 2 ^ order) (p' # ps)"
proof -
  have b: "unat (av i) + 512 \<le> 2 ^ 64" "apart (av i) 512 base n" "unat PAGE_OFFSET < unat base"
    "unat base + n < 2 ^ 64" using r i by (auto simp: room_def)
  have ok': "init_ok (av i) base order PAGE_SHIFT" "max PAGE_SHIFT 5 \<le> order"
    using b order by (auto simp: init_ok_def apart_def)
  obtain p m1 p' m' where f: "buddy_init (av i) base order PAGE_SHIFT m = Some (p, m1)"
    "buddy_free p base order m1 = Inr (p', m')" "same_pool p p'"
    "base_addr p = base" "pool_order p = order" "min_order p = max PAGE_SHIFT 5" "avail p = av i"
    "pool_inv p' m' (\<lambda>i. if i = order then [0] else []) {}" "agree_off p {} m m'"
    by (rule fresh_pool [OF ok', where m = m]) blast
  note fld = same_pool_fields [OF f(3)]
  have u: "unat (base + 2 ^ order) = unat base + 2 ^ order"
    using b(4) order by (subst unat_add_small) (simp_all add: unat_pow2)
  note st = room_step [OF r order(3) i, of p' "base + 2 ^ order"]
  have man: "managed p'" using f(4-6) fld b(3,4) order by (simp add: managed_def)
  have "pools_ok ps m' G"
  proof (rule pools_ok_cong [OF ok])
    fix q a assume "q \<in> set ps" "a \<in> footprint q"
    then have "a \<notin> footprint p" using st(2) fld f(4-7) order u same_pool_footprint(1) [OF f(3)] by auto
    then show "m' a = m a" using f(9) by (simp add: agree_off_def)
  qed
  then have "pools_ok (p' # ps) m' (whole p' # G)"
    using man f(5,8) fld st(2) f(4,7) order u by (simp add: whole_def)
  then show thesis using that f(1,2,4,5) fld st(1) f(7) order u by simp
qed

lemma fls_le: "unat x < 2 ^ n \<Longrightarrow> fls x \<le> n"
proof (cases "x = 0")
  case False
  assume "unat x < 2 ^ n"
  then have "(2 :: nat) ^ (fls x - 1) < 2 ^ n" using fls_bounds [OF False] le_less_trans by blast
  then show ?thesis using power_less_imp_less_exp [of "2 :: nat" "fls x - 1" n] by simp
qed (simp add: fls.simps)

lemma unat_step:
  "unat base + n < 2 ^ 64 \<Longrightarrow> 2 ^ k \<le> n \<Longrightarrow> k < 64 \<Longrightarrow> unat (base + 2 ^ k :: u64) = unat base + 2 ^ k"
  by (subst unat_add_small) (simp_all add: unat_pow2)

lemma add_memory_loop_ok:
  assumes "pools_ok (petmem_pool_list s) (kmem s) G" "unat np < 2 ^ 19" "i + fls np \<le> 20"
    and "room av i base (4096 * unat np) (petmem_pool_list s)"
  shows "\<exists>s' new. add_memory_loop av i base np s = Inr s' \<and> petmem_pool_list s' = new @ petmem_pool_list s \<and>
    s' = s\<lparr>kmem := kmem s', petmem_pool_list := petmem_pool_list s'\<rparr> \<and>
    pools_ok (petmem_pool_list s') (kmem s') (map whole new @ G) \<and>
    (\<Union>p \<in> set new. byte_range (base_addr p) (2 ^ pool_order p)) = byte_range base (4096 * unat np) \<and>
    sorted_wrt (<) (map pool_order new) \<and> (\<forall>p \<in> set new. pool_order p < fls np + PAGE_SHIFT)"
  using assms
proof (induction "unat np" arbitrary: np i base s G rule: less_induct)
  case less
  show ?case
  proof (cases "np = 0")
    case True
    then have "add_memory_loop av i base np s = Inr s" by (subst add_memory_loop.simps) (simp add: fls.simps)
    then show ?thesis using less.prems(1) True by (auto simp: byte_range_def)
  next
    case False
    let ?f = "fls np" and ?np = "np - push_bit (fls np - 1) 1"
    let ?o = "fls np + PAGE_SHIFT - 1"
    have fb: "0 < ?f" "2 ^ (?f - 1) \<le> unat np" "unat np < 2 ^ ?f" using fls_bounds [OF False] by auto
    have f19: "?f \<le> 19"
      using fb(2) less.prems(2) power_less_imp_less_exp [of "2 :: nat" "?f - 1" 19] by simp
    have o2: "(2 :: nat) ^ ?o = 4096 * 2 ^ (?f - 1)" using fb(1) by (cases ?f) (simp_all add: power_add)
    have u: "unat ?np = unat np - 2 ^ (?f - 1)" "unat ?np < unat np" using sub_top_bit [OF False] by auto
    have i: "i < 20" using less.prems(3) fb(1) by simp
    have ord: "PAGE_SHIFT \<le> ?o" "?o < 31" "2 ^ ?o \<le> 4096 * unat np" using fb f19 o2 by auto
    obtain p m1 p' m' where r: "buddy_init (av i) base ?o PAGE_SHIFT (kmem s) = Some (p, m1)"
      "buddy_free p base ?o m1 = Inr (p', m')" "pool_order p' = ?o" "base_addr p' = base"
      "pools_ok (p' # petmem_pool_list s) m' (whole p' # G)"
      "room av (Suc i) (base + 2 ^ ?o) (4096 * unat np - 2 ^ ?o) (p' # petmem_pool_list s)"
      by (rule add_one_pool [OF less.prems(1,4) i ord]) blast
    let ?s = "s\<lparr>kmem := m', petmem_pool_list := p' # petmem_pool_list s\<rparr>"
    have np': "4096 * unat np - 2 ^ ?o = 4096 * unat ?np" unfolding u o2 by simp
    have "unat ?np < 2 ^ (?f - 1)" using u(1) fb by (cases ?f) auto
    then have f': "fls ?np \<le> ?f - 1" by (rule fls_le)
    have bound: "Suc i + fls ?np \<le> 20" "unat ?np < 2 ^ 19"
      using less.prems(2,3) f' fb(1) u(2) by simp_all
    obtain s' new where IH: "add_memory_loop av (Suc i) (base + 2 ^ ?o) ?np ?s = Inr s'"
      "petmem_pool_list s' = new @ p' # petmem_pool_list s"
      "s' = ?s\<lparr>kmem := kmem s', petmem_pool_list := petmem_pool_list s'\<rparr>"
      "pools_ok (petmem_pool_list s') (kmem s') (map whole new @ whole p' # G)"
      "(\<Union>p \<in> set new. byte_range (base_addr p) (2 ^ pool_order p)) = byte_range (base + 2 ^ ?o) (4096 * unat ?np)"
      "sorted_wrt (<) (map pool_order new)" "\<forall>p \<in> set new. pool_order p < fls ?np + PAGE_SHIFT"
      using less.hyps [OF u(2), of ?s "whole p' # G" "Suc i" "base + 2 ^ ?o"] r(5,6) bound
      unfolding np' by auto
    have "byte_range base (4096 * unat np) =
        byte_range base (2 ^ ?o) \<union> byte_range (base + 2 ^ ?o) (4096 * unat ?np)"
      using unat_step [of base "4096 * unat np" ?o] less.prems(4) np' ord
      by (auto simp: byte_range_def room_def)
    then have cover: "(\<Union>p \<in> set (new @ [p']). byte_range (base_addr p) (2 ^ pool_order p)) =
        byte_range base (4096 * unat np)" using IH(5) r(3,4) by auto
    have "int_shl1 (?f - 1) * PAGE_SIZE = 2 ^ ?o"
      using f19 fb(1) by (cases ?f) (simp_all add: int_shl1_small PAGE_SIZE_def power_add)
    then have "add_memory_loop av i base np s = Inr s'"
      using r(1,2) IH(1) False by (subst add_memory_loop.simps) (simp add: Let_def)
    moreover have "sorted_wrt (<) (map pool_order (new @ [p']))"
      using IH(6,7) f' fb(1) r(3) by (fastforce simp: sorted_wrt_append)
    moreover have "\<forall>p \<in> set (new @ [p']). pool_order p < ?f + PAGE_SHIFT"
      using IH(7) f' fb(1) r(3) by fastforce
    ultimately show ?thesis
      using IH(2-4) cover by (intro exI [of _ s'] exI [of _ "new @ [p']"]) auto
  qed
qed

lemma ex_less_Suc_split: "(\<exists>i < Suc n. P i) \<longleftrightarrow> P 0 \<or> (\<exists>i < n. P (Suc i))"
  by (auto simp: less_Suc_eq_0_disj)

lemma all_less_Suc_split: "(\<forall>i < Suc n. P i) \<longleftrightarrow> P 0 \<and> (\<forall>i < n. P (Suc i))"
  by (auto simp: less_Suc_eq_0_disj)

section \<open>Sizes that a pool on the list cannot hold\<close>

lemma alloc_from_pools_bug:
  assumes "pools_ok ps m G" "PAGE_SHIFT \<le> order"
  shows "alloc_from_pools ps order m = Inl BUG \<longleftrightarrow>
    (\<exists>i < length ps. pool_order (ps ! i) < order \<and> (\<forall>j < i. \<not> has_run (ps ! j) (G ! j) order))"
  using assms(1)
proof (induction ps arbitrary: G)
  case (Cons p ps)
  from Cons.prems obtain g G' where G: "G = g # G'" "managed p" "pool_inv p m (fst g) (snd g)" "pools_ok ps m G'"
    by (rule pools_ok_ConsE) blast
  show ?case
  proof (cases "pool_order p < order")
    case True
    then show ?thesis by (auto simp: buddy_alloc_def)
  next
    case False
    then have "order \<le> pool_order p" "min_order p \<le> order" using G(2) assms(2) by (auto simp: managed_def)
    from G(3) this show ?thesis
    proof (cases rule: buddy_alloc_step)
      case 1
      then show ?thesis
        using Cons.IH [OF G(4)] False G(1)
        by (cases "alloc_from_pools ps order m") (auto simp: ex_less_Suc_split all_less_Suc_split)
    next
      case (2 k p' m' fl')
      then have "has_run p g order" by (auto simp: has_run_def)
      then show ?thesis using 2(1,2) False G(1) by (auto simp: ex_less_Suc_split all_less_Suc_split)
    qed
  qed
qed simp

section \<open>Properties of the page allocator\<close>

text \<open>
  C16. \<open>petmem_alloc_pages\<close>, for a number of pages no pool on the list is too small for, returns. It
  returns 0, with nothing changed, exactly when no pool has an aligned free run of the size;
  otherwise the physical address of such a run in the first pool that has one, which is then
  out and no longer free, large enough for the pages asked for, with every pool in its invariant
  and nothing written outside the pools or in memory that had been handed out.
\<close>

theorem petmem_alloc_pages_correct:
  assumes ok: "pools_ok (petmem_pool_list s) (kmem s) G" and sv: "servable s n" and n: "0 < n" "4096 * n < 2 ^ 64"
  defines "ps \<equiv> petmem_pool_list s" and "j \<equiv> page_ord n"
  shows "\<exists>a s'. petmem_alloc_pages (of_nat n) s = Inr (a, s') \<and> 4096 * n \<le> 2 ^ j \<and>
    (a = 0 \<longleftrightarrow> (\<forall>i < length ps. \<not> has_run (ps ! i) (G ! i) j)) \<and>
    (\<forall>x \<in> off_limits ps G. kmem s' x = kmem s x) \<and>
    (if a = 0 then s' = s
     else \<exists>i k fl'. i < length ps \<and> (\<forall>h < i. \<not> has_run (ps ! h) (G ! h) j) \<and>
       va a = baddr (ps ! i) k \<and> wf_blk (pool_order (ps ! i)) (k, j) \<and>
       ext (k, j) \<subseteq> free_bytes (fst (G ! i)) \<and>
       pools_ok (petmem_pool_list s') (kmem s') (G[i := (fl', insert (k, j) (snd (G ! i)))]))"
proof -
  obtain a s' where r: "petmem_alloc_pages (of_nat n) s = Inr (a, s')" "a \<noteq> 0 \<Longrightarrow> va a \<noteq> 0"
    "s' = s\<lparr>petmem_pool_list := petmem_pool_list s', kmem := kmem s'\<rparr>"
    "\<And>x. x \<in> off_limits ps G \<Longrightarrow> kmem s' x = kmem s x"
    "pools_alloc_ok ps (kmem s) G j (if a = 0 then 0 else va a) (petmem_pool_list s') (kmem s')"
    unfolding ps_def j_def by (rule petmem_alloc_pages_ok [OF ok sv]) blast
  have "unat (of_nat n * PAGE_SIZE) = 4096 * n"
    using unat_of_nat_u64 [of "4096 * n"] n(2) by (simp add: PAGE_SIZE_def mult.commute)
  then have sz: "4096 * n \<le> 2 ^ j"
    using get_order_bounds(1) [of "of_nat n * PAGE_SIZE"] n(1) by (simp add: j_def page_ord_def)
  show ?thesis
  proof (cases "a = 0")
    case True
    then have "petmem_pool_list s' = ps" "kmem s' = kmem s" "\<forall>i < length ps. \<not> has_run (ps ! i) (G ! i) j"
      using r(5) by (auto simp: pools_alloc_ok_def)
    moreover then have "s' = s" using r(3) by (simp add: ps_def)
    ultimately show ?thesis using r(1) sz True by auto
  next
    case False
    then obtain i k fl' where i: "i < length ps" "\<forall>h < i. \<not> has_run (ps ! h) (G ! h) j" "va a = baddr (ps ! i) k"
      "wf_blk (pool_order (ps ! i)) (k, j)" "ext (k, j) \<subseteq> free_bytes (fst (G ! i))"
      "pools_ok (petmem_pool_list s') (kmem s') (G[i := (fl', insert (k, j) (snd (G ! i)))])"
      using r(2,5) by (auto simp: pools_alloc_ok_def)
    then have "has_run (ps ! i) (G ! i) j" by (auto simp: has_run_def)
    then show ?thesis using r(1,4) sz False i by auto
  qed
qed

lemma add_memory_pools:
  assumes ok: "pools_ok (petmem_pool_list s) (kmem s) G" and n: "unat pages < 2 ^ 19"
    and r: "room av 0 (va base) (4096 * unat pages) (petmem_pool_list s)"
  shows "\<exists>s' new. add_memory av base pages s = Inr s' \<and> petmem_pool_list s' = new @ petmem_pool_list s \<and>
    s' = s\<lparr>kmem := kmem s', petmem_pool_list := petmem_pool_list s'\<rparr> \<and>
    pools_ok (petmem_pool_list s') (kmem s') (map whole new @ G) \<and>
    (\<Union>p \<in> set new. byte_range (base_addr p) (2 ^ pool_order p)) = byte_range (va base) (4096 * unat pages) \<and>
    sorted_wrt (<) (map pool_order new)"
proof -
  have u: "unat (ucast pages :: u32) = unat pages"
    using n by (simp add: unsigned_ucast_eq take_bit_nat_eq_self)
  then have "0 + fls (ucast pages) \<le> 20" using fls_le [of "ucast pages :: u32" 19] n by simp
  then show ?thesis
    using add_memory_loop_ok [OF ok _ _, of "ucast pages" 0 av "va base"] r n
    unfolding add_memory_def u by blast
qed

text \<open>
  C9. \<open>ADD_MEMORY\<close> of fewer than \<open>2 ^ 19\<close> pages (2 GB) into memory the allocator does not use
  yet: the pools made are put in front of the list, in order of ascending, distinct sizes; their
  ranges together are exactly the range given, and all of it is free; the pools that were there
  are as before.
\<close>

theorem add_memory_correct:
  assumes ok: "pools_ok (petmem_pool_list s) (kmem s) G" and n: "unat pages < 2 ^ 19"
    and r: "room av 0 (va base) (4096 * unat pages) (petmem_pool_list s)"
  shows "\<exists>s' new. add_memory av base pages s = Inr s' \<and> petmem_pool_list s' = new @ petmem_pool_list s \<and>
    s' = s\<lparr>kmem := kmem s', petmem_pool_list := petmem_pool_list s'\<rparr> \<and>
    pools_ok (petmem_pool_list s') (kmem s') (map whole new @ G) \<and>
    (\<Union>p \<in> set new. byte_range (base_addr p) (2 ^ pool_order p)) = byte_range (va base) (4096 * unat pages) \<and>
    sorted_wrt (<) (map pool_order new)"
  by (rule add_memory_pools [OF ok n r])

text \<open>A machine with 3 pages added at the physical address \<open>0x100000\<close>, for the witnesses.\<close>

definition demo_empty :: machine where
  "demo_empty = \<lparr>kmem = (\<lambda>_. 0), petmem_pool_list = [], cr3 = 0, flushed = []\<rparr>"

definition demo_av :: "nat \<Rightarrow> u64" where
  "demo_av i = 0xffff880002000000 + 512 * of_nat i"

lemma demo_room: "n \<le> 32768 \<Longrightarrow> room demo_av 0 (va 0x100000) n []"
proof -
  assume n: "n \<le> 32768"
  have "unat (demo_av i) = 0xffff880002000000 + 512 * i" if "i < 20" for i
  proof -
    have "unat (of_nat (0xffff880002000000 + 512 * i) :: u64) = 0xffff880002000000 + 512 * i"
      using that by (intro unat_of_nat_u64) simp
    then show ?thesis by (simp add: demo_av_def)
  qed
  then show ?thesis using n by (auto simp: room_def apart_def va_def PAGE_OFFSET_def)
qed

theorem add_memory_correct_witness:
  "pools_ok (petmem_pool_list demo_empty) (kmem demo_empty) [] \<and>
   (\<exists>s' new. add_memory demo_av 0x100000 3 demo_empty = Inr s' \<and> petmem_pool_list s' = new \<and>
      pools_ok new (kmem s') (map whole new) \<and> sorted_wrt (<) (map pool_order new))"
proof -
  have ok: "pools_ok (petmem_pool_list demo_empty) (kmem demo_empty) []"
    and n: "unat (3 :: u64) < 2 ^ 19"
    and r: "room demo_av 0 (va 0x100000) (4096 * unat (3 :: u64)) (petmem_pool_list demo_empty)"
    using demo_room by (simp_all add: demo_empty_def)
  show ?thesis using add_memory_correct [OF ok n r] ok by (auto simp: demo_empty_def)
qed

definition demo_machine :: machine where
  "demo_machine = projr (add_memory demo_av 0x100000 3 demo_empty)"

lemma demo_machine_pools:
  "map (\<lambda>p. (pool_order p, base_addr p)) (petmem_pool_list demo_machine) = [(12, va 0x102000), (13, va 0x100000)]"
  by code_simp

lemma demo_add_ok:
  assumes "unat n \<le> 8" "s = projr (add_memory demo_av 0x100000 n demo_empty)"
  shows "pools_ok (petmem_pool_list s) (kmem s) (map whole (petmem_pool_list s))"
proof -
  have n: "unat (ucast n :: u32) = unat n" using assms(1) by (simp add: unsigned_ucast_eq take_bit_nat_eq_self)
  then have "fls (ucast n) \<le> 4" using assms(1) by (intro fls_le) simp
  moreover have "room demo_av 0 (va 0x100000) (4096 * unat (ucast n :: u32)) (petmem_pool_list demo_empty)"
    using assms(1) demo_room by (simp add: demo_empty_def n)
  moreover have e: "petmem_pool_list demo_empty = []" "pools_ok (petmem_pool_list demo_empty) (kmem demo_empty) []"
    by (simp_all add: demo_empty_def)
  ultimately obtain s' new where s': "add_memory_loop demo_av 0 (va 0x100000) (ucast n) demo_empty = Inr s'"
    "petmem_pool_list s' = new @ petmem_pool_list demo_empty" "pools_ok (petmem_pool_list s') (kmem s') (map whole new @ [])"
    using add_memory_loop_ok [OF e(2), of "ucast n" 0 demo_av "va 0x100000"] assms(1) n by auto
  then show ?thesis using assms(2) e(1) by (simp add: add_memory_def)
qed

lemma demo_machine_ok:
  "pools_ok (petmem_pool_list demo_machine) (kmem demo_machine) (map whole (petmem_pool_list demo_machine))"
  by (rule demo_add_ok [of 3]) (simp_all add: demo_machine_def)

lemma demo_machine_pool:
  obtains p q where "petmem_pool_list demo_machine = [p, q]" "pool_order p = 12" "base_addr p = va 0x102000"
    "pool_order q = 13" "base_addr q = va 0x100000"
  using demo_machine_pools by (auto simp: map_eq_Cons_conv)

lemma page_ord_small: "page_ord 1 = 12" "page_ord 2 = 13"
  by code_simp+

lemma demo_servable: "servable demo_machine 1"
  by (rule demo_machine_pool) (simp add: servable_def page_ord_small [unfolded One_nat_def])

theorem petmem_alloc_pages_correct_witness:
  "pools_ok (petmem_pool_list demo_machine) (kmem demo_machine) (map whole (petmem_pool_list demo_machine)) \<and>
   (\<exists>a s'. petmem_alloc_pages (of_nat 1) demo_machine = Inr (a, s') \<and>
      (a = 0 \<longleftrightarrow> (\<forall>i < length (petmem_pool_list demo_machine).
         \<not> has_run (petmem_pool_list demo_machine ! i) (map whole (petmem_pool_list demo_machine) ! i) (page_ord 1))))"
  using petmem_alloc_pages_correct [OF demo_machine_ok demo_servable] demo_machine_ok by auto

text \<open>
  C8. Every client of the page allocator that asks for numbers of pages every pool can hold and
  returns only page ranges it holds is served to the end without \<open>BUG_ON\<close> firing, and the
  page ranges it holds never share a byte, within one pool or across pools.
\<close>

theorem petmem_session_safe:
  assumes ok: "pages_live s {}" and rs: "\<And>n. Acquire n \<in> set rs \<Longrightarrow> servable s n"
  shows "\<exists>s' live. session page_request page_return s [] rs = Inr (s', live) \<and> pages_live s' (set live) \<and>
    (\<forall>i < length live. \<forall>j < length live. i \<noteq> j \<longrightarrow> page_span (live ! i) \<inter> page_span (live ! j) = {})"
proof -
  have l: "pages_live s (set [])" using ok by simp
  obtain s' live where r: "session page_request page_return s [] rs = Inr (s', live)" "pages_live s' (set live)"
    using pages.session_safe [OF l, of rs] rs by auto
  moreover have "page_span (live ! i) \<inter> page_span (live ! j) = {}"
    if "i < length live" "j < length live" "i \<noteq> j" for i j
    using pages.session_disjoint [OF l _ _ r(1) that] rs by simp
  ultimately show ?thesis by blast
qed

lemma demo_pages_live: "pages_live demo_machine {}"
  using demo_machine_ok by (auto simp: pages_live_def out_blocks_def whole_def)

theorem petmem_session_safe_witness:
  "pages_live demo_machine {} \<and>
   (\<exists>s' live. session page_request page_return demo_machine [] [Acquire 1, Acquire 1, Release 1, Acquire 1]
      = Inr (s', live) \<and> pages_live s' (set live))"
proof -
  have "\<And>n. Acquire n \<in> set [Acquire 1, Acquire 1, Release 1, Acquire 1] \<Longrightarrow> servable demo_machine n"
    using demo_servable by auto
  from petmem_session_safe [OF demo_pages_live this] demo_pages_live show ?thesis by blast
qed

text \<open>
  C34. \<open>petmem_alloc_pages\<close> stops in \<open>buddy_alloc\<close>'s \<open>BUG_ON\<close> exactly when the search reaches a pool
  smaller than the request: one that comes after no pool with a free run of the size, whatever
  the pools behind it could serve.
\<close>

theorem petmem_alloc_pages_bug:
  assumes "pools_ok (petmem_pool_list s) (kmem s) G"
  shows "petmem_alloc_pages (of_nat n) s = Inl BUG \<longleftrightarrow>
    (\<exists>i < length (petmem_pool_list s). pool_order (petmem_pool_list s ! i) < page_ord n \<and>
       (\<forall>j < i. \<not> has_run (petmem_pool_list s ! j) (G ! j) (page_ord n)))"
proof -
  have "petmem_alloc_pages (of_nat n) s = Inl BUG \<longleftrightarrow>
      alloc_from_pools (petmem_pool_list s) (page_ord n) (kmem s) = Inl BUG"
    unfolding petmem_alloc_pages_def page_ord_def
    by (cases "alloc_from_pools (petmem_pool_list s) (get_order (of_nat n * PAGE_SIZE) + PAGE_SHIFT) (kmem s)")
      (auto simp: Let_def split: if_splits)
  then show ?thesis using alloc_from_pools_bug [OF assms page_ord_ge] by simp
qed

theorem petmem_alloc_pages_bug_witness:
  "pools_ok (petmem_pool_list demo_machine) (kmem demo_machine) (map whole (petmem_pool_list demo_machine)) \<and>
   map pool_order (petmem_pool_list demo_machine) = [12, 13] \<and> page_ord 2 = 13 \<and>
   petmem_alloc_pages (of_nat 2) demo_machine = Inl BUG"
proof -
  obtain p q where d: "petmem_pool_list demo_machine = [p, q]" "pool_order p = 12" "pool_order q = 13"
    by (rule demo_machine_pool)
  then have "petmem_alloc_pages (of_nat 2) demo_machine = Inl BUG"
    unfolding petmem_alloc_pages_bug [OF demo_machine_ok] page_ord_small by (auto intro!: exI [of _ 0])
  then show ?thesis using demo_machine_ok d page_ord_small(2) by simp
qed

lemma free_in_pools_miss:
  assumes "\<And>p. p \<in> set ps \<Longrightarrow> \<not> (base_addr p \<le> v \<and> v < base_addr p + int_shl1 (pool_order p))"
  shows "free_in_pools ps v j m = Inr (ps, m)"
  using assms
proof (induction ps)
  case (Cons p ps)
  then have "free_in_pools ps v j m = Inr (ps, m)" by simp
  with Cons.prems [of p] show ?case by (auto simp: linorder_not_le linorder_not_less)
qed simp

text \<open>
  \<open>petmem_free_pages\<close> expects a physical address. Given the address of a page in the direct
  mapping instead (as \<open>attempt_free_physical_address\<close> gives it), it finds no pool and does
  nothing: the page stays allocated.
\<close>

lemma petmem_free_virtual_noop:
  assumes ok: "\<forall>p \<in> set (petmem_pool_list s). managed p" and t: "unat PAGE_OFFSET \<le> unat t"
  shows "petmem_free_pages t n s = Inr s"
proof -
  have "unat (va t) = unat t + unat PAGE_OFFSET - 2 ^ 64"
    using t unat_less_pow2 [of t] by (simp add: va_def PAGE_OFFSET_def unat_word_ariths mod_if)
  then have "unat (va t) < unat PAGE_OFFSET" using unat_less_pow2 [of t] by (simp add: PAGE_OFFSET_def)
  then have "free_in_pools (petmem_pool_list s) (va t) j m = Inr (petmem_pool_list s, m)" for j m
    using ok by (intro free_in_pools_miss) (auto simp: managed_def word_le_nat_alt)
  then show ?thesis by (simp add: petmem_free_pages_def Let_def)
qed

text \<open>
  The range test of \<open>petmem_free_pages\<close> computes \<open>0x1 << pool_order\<close> as an \<open>int\<close>. For a pool of
  2 GB (\<open>pool_order\<close> 31) that is negative: no address passes the test and no page of such a pool
  is ever taken back.
\<close>

theorem petmem_free_large_pool_noop:
  assumes "\<forall>p \<in> set (petmem_pool_list s). pool_order p = 31 \<and> 2 ^ 31 \<le> unat (base_addr p)"
  shows "petmem_free_pages a n s = Inr s"
proof -
  have i: "int_shl1 31 = - (2 ^ 31)" by code_simp
  have "\<not> (b \<le> v \<and> v < b + int_shl1 31)" if "2 ^ 31 \<le> unat b" for b v :: u64
  proof -
    have "unat (b - 2 ^ 31) = unat b - 2 ^ 31" using that by (subst unat_sub_small) simp_all
    then have "unat (b + int_shl1 31) \<le> unat b" unfolding i by simp
    then show ?thesis by (auto simp: word_le_nat_alt word_less_nat_alt)
  qed
  then have "free_in_pools (petmem_pool_list s) v j m = Inr (petmem_pool_list s, m)" for v j m
    using assms by (intro free_in_pools_miss) metis
  then show ?thesis by (simp add: petmem_free_pages_def Let_def)
qed

text \<open>The pool \<open>ADD_MEMORY\<close> makes of 2 GB.\<close>

definition demo_large :: machine where
  "demo_large = demo_empty\<lparr>petmem_pool_list :=
     [\<lparr>base_addr = va 0x100000000, pool_order = 31, min_order = 12, num_blocks = 2 ^ 19,
       tag_bits = bitmap_zero (2 ^ 19), avail = demo_av 0\<rparr>]\<rparr>"

theorem petmem_free_large_pool_noop_witness:
  "petmem_free_pages 0x100000000 1 demo_large = Inr demo_large"
  by (rule petmem_free_large_pool_noop) (simp add: demo_large_def va_def PAGE_OFFSET_def)

end
