(* ===== verification/Frames.thy ===== *)
theory Frames
  imports Add_Memory
begin

text \<open>
  The page allocator as demand paging uses it: one page at a time. \<open>F\<close> is the set of page frames
  handed out, by physical address. An allocation takes a page from the spare memory and touches
  no frame that is out; a release gives exactly one frame back; and whoever holds a frame may
  write to it.
\<close>

section \<open>Frames\<close>

abbreviation page_at :: "u64 \<Rightarrow> u64 set" where "page_at t \<equiv> byte_range t 4096"

definition frames_ok :: "machine \<Rightarrow> u64 set \<Rightarrow> bool" where
  "frames_ok s F \<longleftrightarrow> pages_live s ((\<lambda>f. (f, 1)) ` F) \<and>
     (\<forall>p \<in> set (petmem_pool_list s). 4096 dvd unat (base_addr p))"

definition pool_area :: "machine \<Rightarrow> u64 set" where
  "pool_area s = (\<Union>p \<in> set (petmem_pool_list s). footprint p)"

definition pool_bytes :: "machine \<Rightarrow> u64 set" where
  "pool_bytes s = (\<Union>p \<in> set (petmem_pool_list s). byte_range (base_addr p) (2 ^ pool_order p))"

definition frame_bytes :: "u64 set \<Rightarrow> u64 set" where
  "frame_bytes F = (\<Union>f \<in> F. page_at (va f))"

definition spare :: "machine \<Rightarrow> u64 set \<Rightarrow> u64 set" where
  "spare s F = pool_bytes s - frame_bytes F"

text \<open>The addresses the allocator does not write while the frames \<open>F\<close> are out.\<close>

definition guarded :: "machine \<Rightarrow> u64 set \<Rightarrow> u64 set" where
  "guarded s F = - pool_area s \<union> frame_bytes F"

text \<open>Machines that differ in memory and in the tags of their pools only.\<close>

definition same_machine :: "machine \<Rightarrow> machine \<Rightarrow> bool" where
  "same_machine s s' \<longleftrightarrow> list_all2 same_pool (petmem_pool_list s) (petmem_pool_list s') \<and>
     cr3 s' = cr3 s \<and> flushed s' = flushed s"

lemma same_machine_areas:
  assumes "same_machine s s'"
  shows "pool_area s' = pool_area s" "pool_bytes s' = pool_bytes s" "spare s' = spare s" "guarded s' = guarded s"
proof -
  have l: "list_all2 same_pool (petmem_pool_list s) (petmem_pool_list s')"
    using assms by (simp add: same_machine_def)
  show a: "pool_area s' = pool_area s" "pool_bytes s' = pool_bytes s"
    unfolding pool_area_def pool_bytes_def using l
    by (induction rule: list_all2_induct) (auto simp: same_pool_footprint same_pool_fields)
  then show "spare s' = spare s" "guarded s' = guarded s"
    by (simp_all add: spare_def guarded_def fun_eq_iff)
qed

lemma same_machine_refl [simp]: "same_machine s s"
  by (simp add: same_machine_def)

lemma same_machine_trans: "same_machine s s' \<Longrightarrow> same_machine s' s'' \<Longrightarrow> same_machine s s''"
  using list_all2_trans [of same_pool same_pool same_pool, OF same_pool_trans] by (auto simp: same_machine_def)

lemma page_ord_1: "page_ord (Suc 0) = 12"
proof -
  have "get_order 4096 = 0" unfolding get_order_def by (subst get_order_loop.simps) simp
  then show ?thesis by (simp add: page_ord_def PAGE_SIZE_def)
qed

lemma in_page_span: "unat x \<in> page_span (f, Suc 0) \<longleftrightarrow> x \<in> page_at (va f)"
  by (simp add: page_span_def byte_range_def page_ord_1)

lemma card_byte_range: "unat a + n \<le> 2 ^ 64 \<Longrightarrow> card (byte_range a n) = n"
proof -
  assume n: "unat a + n \<le> 2 ^ 64"
  have "unat ` byte_range a n = {unat a ..< unat a + n}"
  proof (intro set_eqI iffI)
    fix x assume "x \<in> {unat a ..< unat a + n}"
    moreover then have "unat (of_nat x :: u64) = x" using n by (intro unat_of_nat_u64) simp
    ultimately show "x \<in> unat ` byte_range a n" by (auto simp: byte_range_def intro!: image_eqI [of _ _ "of_nat x"])
  qed (auto simp: byte_range_def)
  moreover have "inj_on unat (byte_range a n)" by (simp add: inj_on_def word_unat_eq_iff)
  ultimately show ?thesis by (metis card_image card_atLeastLessThan add_diff_cancel_left')
qed

section \<open>The ghost state of the pools\<close>

lemma held_blocks:
  assumes "pool_inv p m fl A"
  shows "held p A = (\<Union>(k, j) \<in> A. byte_range (baddr p k) (2 ^ j))"
proof -
  note c = inv_core [OF assms]
  have "unat (baddr p k) = unat (base_addr p) + k" if "(k, j) \<in> A" for k j
    using unat_baddr [OF core_layout [OF c] core_alloc_block(1) [OF c that]] .
  then have "(\<exists>x \<in> ext (k, j). unat a = unat (base_addr p) + x) \<longleftrightarrow> a \<in> byte_range (baddr p k) (2 ^ j)"
    if "(k, j) \<in> A" for k j a
    using that by (force simp: byte_range_def ext_def le_iff_add)
  then show ?thesis by (force simp: held_def in_covered)
qed

lemma held_in_nth:
  assumes "length G = length ps"
  shows "a \<in> held_in ps G \<longleftrightarrow> (\<exists>i < length ps. a \<in> held (ps ! i) (snd (G ! i)))"
proof -
  have "a \<in> held_in ps G \<longleftrightarrow> (\<exists>x \<in> set (zip ps G). a \<in> held (fst x) (snd (snd x)))"
    by (simp add: held_in_def split_beta)
  also have "\<dots> \<longleftrightarrow> (\<exists>i < length (zip ps G). a \<in> held (fst (zip ps G ! i)) (snd (snd (zip ps G ! i))))"
    by (metis in_set_conv_nth)
  also have "\<dots> \<longleftrightarrow> (\<exists>i < length ps. a \<in> held (ps ! i) (snd (G ! i)))"
    using assms by (intro ex_cong1 conj_cong) simp_all
  finally show ?thesis .
qed

lemma held_in_same_pools:
  assumes "list_all2 same_pool ps ps'" "length G = length ps"
  shows "held_in ps' G = held_in ps G"
proof -
  have "held (ps' ! i) = held (ps ! i)" if "i < length ps" for i
    using same_pool_footprint(2) [OF list_all2_nthD [OF assms(1) that]] .
  then show ?thesis using list_all2_lengthD [OF assms(1)] assms(2) by (intro set_eqI) (metis held_in_nth)
qed

lemma held_in_blocks:
  assumes "pools_ok ps m G"
  shows "held_in ps G = (\<Union>(v, j) \<in> out_blocks ps G. byte_range v (2 ^ j))"
proof (rule set_eqI)
  fix a
  have "a \<in> held_in ps G \<longleftrightarrow> (\<exists>i < length ps. a \<in> held (ps ! i) (snd (G ! i)))"
    by (rule held_in_nth [OF pools_ok_length [OF assms]])
  also have "\<dots> \<longleftrightarrow> (\<exists>i < length ps. \<exists>(k, j) \<in> snd (G ! i). a \<in> byte_range (baddr (ps ! i) k) (2 ^ j))"
    using held_blocks pools_ok_nth [OF assms] by fastforce
  also have "\<dots> \<longleftrightarrow> a \<in> (\<Union>(v, j) \<in> out_blocks ps G. byte_range v (2 ^ j))"
    by (fastforce simp: in_out_blocks)
  finally show "a \<in> held_in ps G \<longleftrightarrow> a \<in> (\<Union>(v, j) \<in> out_blocks ps G. byte_range v (2 ^ j))" .
qed

lemma frames_ghost:
  assumes "frames_ok s F"
  obtains G where "pools_ok (petmem_pool_list s) (kmem s) G"
    "out_blocks (petmem_pool_list s) G = (\<lambda>f. (va f, 12)) ` F" "off_limits (petmem_pool_list s) G = guarded s F"
proof -
  obtain G where G: "pools_ok (petmem_pool_list s) (kmem s) G"
    "out_blocks (petmem_pool_list s) G = out_of ` (\<lambda>f. (f, 1)) ` F"
    using assms by (auto simp: frames_ok_def pages_live_def)
  then have o: "out_blocks (petmem_pool_list s) G = (\<lambda>f. (va f, 12)) ` F"
    by (simp add: image_image out_of_def page_ord_1)
  have "held_in (petmem_pool_list s) G = frame_bytes F"
    unfolding held_in_blocks [OF G(1)] o by (auto simp: frame_bytes_def)
  then have "off_limits (petmem_pool_list s) G = guarded s F"
    by (auto simp: off_limits_def guarded_def pool_area_def)
  with G(1) o that show thesis by blast
qed

lemma inj_frames: "inj_on out_of ((\<lambda>f. (f, 1)) ` F)"
  by (auto simp: inj_on_def out_of_def va_def)

lemma frames_okI:
  assumes "pools_ok (petmem_pool_list s) (kmem s) G" "out_blocks (petmem_pool_list s) G = (\<lambda>f. (va f, 12)) ` F"
    and "\<And>p. p \<in> set (petmem_pool_list s) \<Longrightarrow> 4096 dvd unat (base_addr p)"
  shows "frames_ok s F"
proof -
  have "out_blocks (petmem_pool_list s) G = out_of ` (\<lambda>f. (f, 1)) ` F"
    using assms(2) by (simp add: image_image out_of_def page_ord_1)
  then show ?thesis using assms(1,3) inj_frames unfolding frames_ok_def pages_live_def by blast
qed

section \<open>What a frame is\<close>

lemma frame_props:
  assumes ok: "frames_ok s F" and f: "f \<in> F"
  shows "4096 dvd unat (va f)" "unat (va f) + 4096 < 2 ^ 64" "unat PAGE_OFFSET < unat (va f)"
    "page_at (va f) \<subseteq> pool_bytes s"
proof -
  obtain G where G: "pools_ok (petmem_pool_list s) (kmem s) G"
    "out_blocks (petmem_pool_list s) G = (\<lambda>f. (va f, 12)) ` F" by (rule frames_ghost [OF ok])
  have "(va f, 12) \<in> out_blocks (petmem_pool_list s) G" using G(2) f by simp
  then obtain i k where i: "i < length (petmem_pool_list s)" "va f = baddr (petmem_pool_list s ! i) k"
    "(k, 12) \<in> snd (G ! i)" by (auto simp: in_out_blocks)
  let ?p = "petmem_pool_list s ! i"
  have m: "managed ?p" and c: "pool_core ?p (kmem s) (fst (G ! i)) (snd (G ! i))"
    using pools_ok_nth [OF G(1) i(1)] inv_core by auto
  have p: "?p \<in> set (petmem_pool_list s)" using i(1) by simp
  note kb = core_alloc_block [OF c i(3)]
  have u: "unat (va f) = unat (base_addr ?p) + k" using unat_baddr [OF core_layout [OF c] kb(1)] i(2) by simp
  have "4096 dvd unat (base_addr ?p)" using ok p by (auto simp: frames_ok_def)
  then show "4096 dvd unat (va f)" using kb(4) u by simp
  show "unat (va f) + 4096 < 2 ^ 64" "unat PAGE_OFFSET < unat (va f)"
    using m kb(5) u by (auto simp: managed_def)
  have "page_at (va f) \<subseteq> byte_range (base_addr ?p) (2 ^ pool_order ?p)"
    using kb(5) u by (auto simp: byte_range_def)
  then show "page_at (va f) \<subseteq> pool_bytes s" using p by (auto simp: pool_bytes_def)
qed

lemma frames_disjoint:
  assumes "frames_ok s F" "f \<in> F" "g \<in> F" "f \<noteq> g"
  shows "page_at (va f) \<inter> page_at (va g) = {}"
proof -
  have "page_span (f, 1) \<inter> page_span (g, 1) = {}"
    by (rule pages_live_disjoint) (use assms in \<open>auto simp: frames_ok_def\<close>)
  then show ?thesis using in_page_span by (auto simp flip: in_page_span)
qed

lemma pool_bytes_area: "pool_bytes s \<subseteq> pool_area s"
  by (auto simp: pool_bytes_def pool_area_def footprint_ranges)

section \<open>Operations\<close>

text \<open>When the allocator fails, nothing is spare.\<close>

lemma no_run_no_spare:
  assumes G: "pools_ok (petmem_pool_list s) (kmem s) G" "out_blocks (petmem_pool_list s) G = (\<lambda>f. (va f, 12)) ` F"
    and n: "\<forall>i < length (petmem_pool_list s). \<not> has_run (petmem_pool_list s ! i) (G ! i) 12"
  shows "spare s F = {}"
proof (rule ccontr)
  let ?ps = "petmem_pool_list s"
  assume "spare s F \<noteq> {}"
  then obtain x i where x: "x \<in> byte_range (base_addr (?ps ! i)) (2 ^ pool_order (?ps ! i))" "i < length ?ps"
    "x \<notin> frame_bytes F" by (force simp: spare_def pool_bytes_def in_set_conv_nth)
  let ?p = "?ps ! i" and ?g = "G ! i"
  have inv: "managed ?p" "pool_inv ?p (kmem s) (fst ?g) (snd ?g)" using pools_ok_nth [OF G(1) x(2)] by auto
  note c = inv_core [OF inv(2)]
  have "x \<notin> held_in ?ps G" using x(3) unfolding held_in_blocks [OF G(1)] G(2) by (auto simp: frame_bytes_def)
  then have "x \<notin> held ?p (snd ?g)"
    using x(2) held_in_nth [OF pools_ok_length [OF G(1)]] by blast
  then have "unat x - unat (base_addr ?p) \<notin> covered (snd ?g)"
    using x(1) by (auto simp: held_def byte_range_def)
  then have "unat x - unat (base_addr ?p) \<in> free_bytes (fst ?g)"
    using core_free_bytes(1) [OF c] x(1) by (auto simp: byte_range_def)
  then obtain k j where k: "(k, j) \<in> free_set (fst ?g)" by (auto simp: free_bytes_def in_covered)
  then have j: "12 \<le> j" "wf_blk (pool_order ?p) (k, j)"
    using core_block(2) [OF c, of k j] inv(1) family_wf [OF core_family [OF c]] by (auto simp: managed_def)
  have le: "(2 :: nat) ^ 12 \<le> 2 ^ j" using j(1) by (intro power_increasing) auto
  have "ext (k, 12) \<subseteq> ext (k, j)" using le by (auto simp: ext_def)
  moreover have "ext (k, j) \<subseteq> free_bytes (fst ?g)" using k by (force simp: free_bytes_def in_covered)
  moreover have "wf_blk (pool_order ?p) (k, 12)"
    using j le le_imp_power_dvd [OF j(1), of "2 :: nat"] by (auto simp: wf_blk_def elim: dvd_trans)
  ultimately have "has_run ?p ?g 12" unfolding has_run_def by blast
  then show False using n x(2) by blast
qed

lemma frames_servable: "frames_ok s F \<Longrightarrow> servable s 1"
proof -
  assume "frames_ok s F"
  then obtain G where G: "pools_ok (petmem_pool_list s) (kmem s) G" by (rule frames_ghost)
  have "12 \<le> pool_order p" if p: "p \<in> set (petmem_pool_list s)" for p
  proof -
    obtain i where i: "i < length (petmem_pool_list s)" "p = petmem_pool_list s ! i"
      using p by (auto simp: in_set_conv_nth)
    have "managed p" "pool_inv p (kmem s) (fst (G ! i)) (snd (G ! i))" using pools_ok_nth [OF G i(1)] i(2) by auto
    then show ?thesis using pool_layout_orders(2) [OF core_layout [OF inv_core]] by (fastforce simp: managed_def)
  qed
  then show "servable s 1" by (simp add: servable_def page_ord_1)
qed

lemma frame_alloc:
  assumes ok: "frames_ok s F"
  obtains "petmem_alloc_pages 1 s = Inr (0, s)" "spare s F = {}"
  | f s' where "petmem_alloc_pages 1 s = Inr (f, s')" "f \<noteq> 0" "f \<notin> F" "same_machine s s'"
      "frames_ok s' (insert f F)" "page_at (va f) \<subseteq> spare s F"
      "\<And>x. x \<in> guarded s F \<Longrightarrow> kmem s' x = kmem s x"
proof -
  let ?L = "(\<lambda>f. (f, 1 :: nat)) ` F"
  obtain G where G: "pools_ok (petmem_pool_list s) (kmem s) G"
    "out_blocks (petmem_pool_list s) G = (\<lambda>f. (va f, 12)) ` F" "off_limits (petmem_pool_list s) G = guarded s F"
    by (rule frames_ghost [OF ok])
  obtain a s' where r: "petmem_alloc_pages 1 s = Inr (a, s')"
    "list_all2 same_pool (petmem_pool_list s) (petmem_pool_list s')"
    "s' = s\<lparr>petmem_pool_list := petmem_pool_list s', kmem := kmem s'\<rparr>"
    "\<And>x. x \<in> guarded s F \<Longrightarrow> kmem s' x = kmem s x"
    "pools_alloc_ok (petmem_pool_list s) (kmem s) G 12 (if a = 0 then 0 else va a) (petmem_pool_list s') (kmem s')"
    "a \<noteq> 0 \<Longrightarrow> va a \<noteq> 0"
    by (rule petmem_alloc_pages_ok [OF G(1) frames_servable [OF ok]]) (auto simp: page_ord_1 G(3))
  have sm: "same_machine s s'" using r(2,3) by (cases s') (simp add: same_machine_def)
  show thesis
  proof (cases "a = 0")
    case True
    then have "petmem_pool_list s' = petmem_pool_list s" "kmem s' = kmem s"
      "\<forall>i < length (petmem_pool_list s). \<not> has_run (petmem_pool_list s ! i) (G ! i) 12"
      using r(5) by (auto simp: pools_alloc_ok_def)
    moreover then have "s' = s" using r(3) by simp
    ultimately show thesis using that(1) r(1) True no_run_no_spare [OF G(1,2)] by simp
  next
    case False
    have l: "pages_live s ?L" using ok by (simp add: frames_ok_def)
    obtain l: "(a, 1) \<notin> ?L" "pages_live s' (insert (a, 1) ?L)"
      using pages_live_alloc [OF l frames_servable [OF ok]] r(1) False by (auto simp: page_request_def)
    have "\<forall>p \<in> set (petmem_pool_list s'). 4096 dvd unat (base_addr p)"
    proof
      fix p assume "p \<in> set (petmem_pool_list s')"
      then obtain i where "i < length (petmem_pool_list s)" "p = petmem_pool_list s' ! i"
        using list_all2_lengthD [OF r(2)] by (auto simp: in_set_conv_nth)
      then show "4096 dvd unat (base_addr p)"
        using ok same_pool_fields(1) [OF list_all2_nthD [OF r(2)]] by (auto simp: frames_ok_def)
    qed
    then have ok': "frames_ok s' (insert a F)" using l(2) by (simp add: frames_ok_def)
    have nF: "a \<notin> F" using l(1) by auto
    have "page_at (va a) \<subseteq> spare s F"
      using frame_props(4) [OF ok', of a] frames_disjoint [OF ok', of a] nF same_machine_areas(2) [OF sm]
      by (fastforce simp: spare_def frame_bytes_def)
    then show thesis using that(2) r(1,4) False nF sm ok' by blast
  qed
qed

lemma frame_free:
  assumes ok: "frames_ok s F" and f: "f \<in> F"
  obtains s' where "petmem_free_pages f 1 s = Inr s'" "same_machine s s'" "frames_ok s' (F - {f})"
    "\<And>x. x \<in> guarded s (F - {f}) \<Longrightarrow> kmem s' x = kmem s x"
proof -
  obtain G where G: "pools_ok (petmem_pool_list s) (kmem s) G"
    "out_blocks (petmem_pool_list s) G = (\<lambda>f. (va f, 12)) ` F" by (rule frames_ghost [OF ok])
  have "(va f, 12) \<in> out_blocks (petmem_pool_list s) G" using G(2) f by simp
  then obtain i k where i: "i < length (petmem_pool_list s)" "va f = baddr (petmem_pool_list s ! i) k"
    "(k, 12) \<in> snd (G ! i)" by (auto simp: in_out_blocks)
  let ?A = "snd (G ! i) - {(k, 12)}"
  have A: "snd (G ! i) = insert (k, page_ord 1) ?A" "(k, page_ord 1) \<notin> ?A" using i(3) by (auto simp: page_ord_1)
  obtain s' fl' where r: "petmem_free_pages f (of_nat 1) s = Inr s'"
    "list_all2 same_pool (petmem_pool_list s) (petmem_pool_list s')"
    "s' = s\<lparr>petmem_pool_list := petmem_pool_list s', kmem := kmem s'\<rparr>"
    "\<And>x. x \<in> off_limits (petmem_pool_list s) (G[i := (fl', ?A)]) \<Longrightarrow> kmem s' x = kmem s x"
    "pools_ok (petmem_pool_list s') (kmem s') (G[i := (fl', ?A)])"
    by (rule petmem_free_pages_ok [OF G(1) i(1) A i(2)]) blast
  have sm: "same_machine s s'" using r(2,3) by (cases s') (simp add: same_machine_def)
  have "out_blocks (petmem_pool_list s) (G[i := (fl', ?A)]) = (\<lambda>f. (va f, 12)) ` F - {(va f, 12)}"
    using out_blocks_remove [OF G(1) i(1) A, of fl'] G(2) i(2) by (simp add: page_ord_1)
  also have "\<dots> = (\<lambda>f. (va f, 12)) ` (F - {f})" by (auto simp: va_def)
  finally have o: "out_blocks (petmem_pool_list s) (G[i := (fl', ?A)]) = (\<lambda>f. (va f, 12)) ` (F - {f})" .
  have o': "out_blocks (petmem_pool_list s') (G[i := (fl', ?A)]) = (\<lambda>f. (va f, 12)) ` (F - {f})"
    unfolding out_blocks_same_pools [OF r(2)] by (rule o)
  have "4096 dvd unat (base_addr p)" if p: "p \<in> set (petmem_pool_list s')" for p
  proof -
    obtain j where "j < length (petmem_pool_list s)" "p = petmem_pool_list s' ! j"
      using p list_all2_lengthD [OF r(2)] by (auto simp: in_set_conv_nth)
    then show ?thesis
      using ok same_pool_fields(1) [OF list_all2_nthD [OF r(2)]] by (auto simp: frames_ok_def)
  qed
  then have ok': "frames_ok s' (F - {f})" using frames_okI [OF r(5) o'] by blast
  have "held_in (petmem_pool_list s') (G[i := (fl', ?A)]) = frame_bytes (F - {f})"
    unfolding held_in_blocks [OF r(5)] o' by (auto simp: frame_bytes_def)
  moreover have "held_in (petmem_pool_list s') (G[i := (fl', ?A)]) = held_in (petmem_pool_list s) (G[i := (fl', ?A)])"
    by (rule held_in_same_pools [OF r(2)]) (simp add: pools_ok_length [OF G(1)])
  ultimately have "off_limits (petmem_pool_list s) (G[i := (fl', ?A)]) = guarded s (F - {f})"
    by (auto simp: off_limits_def guarded_def pool_area_def)
  then show thesis using that [of s'] r(1,4) sm ok' by simp
qed

text \<open>The holders of the frames write to them, and anyone outside the pools.\<close>

lemma frames_ok_write:
  assumes ok: "frames_ok s F" and w: "\<And>x. x \<notin> guarded s F \<Longrightarrow> m x = kmem s x"
  shows "frames_ok (s\<lparr>kmem := m\<rparr>) F"
proof -
  obtain G where G: "pools_ok (petmem_pool_list s) (kmem s) G"
    "out_blocks (petmem_pool_list s) G = (\<lambda>f. (va f, 12)) ` F" "off_limits (petmem_pool_list s) G = guarded s F"
    by (rule frames_ghost [OF ok])
  have "pools_ok (petmem_pool_list s) m G"
  proof (rule pools_ok_owner_writes [OF G(1)])
    fix q a assume "q \<in> set (petmem_pool_list s)" "a \<in> footprint q" "a \<notin> held_in (petmem_pool_list s) G"
    then have "a \<notin> guarded s F" unfolding G(3) [symmetric] by (auto simp: off_limits_def)
    then show "m a = kmem s a" by (rule w)
  qed
  then show ?thesis using ok G(2) by (intro frames_okI [of _ G]) (auto simp: frames_ok_def)
qed

lemma spare_insert:
  assumes "page_at (va f) \<subseteq> spare s F" "unat (va f) + 4096 \<le> 2 ^ 64"
  shows "card (spare s (insert f F)) + 4096 = card (spare s F)"
proof -
  have e: "spare s (insert f F) = spare s F - page_at (va f)" by (auto simp: spare_def frame_bytes_def)
  have "card (spare s F - page_at (va f)) = card (spare s F) - card (page_at (va f))"
    using assms(1) by (intro card_Diff_subset) (auto intro: finite_subset)
  moreover have "card (page_at (va f)) \<le> card (spare s F)" using assms(1) by (intro card_mono) auto
  ultimately show ?thesis unfolding e using card_byte_range [OF assms(2)] by simp
qed

end
