(* ===== verification/Pgtables.thy ===== *)
theory Pgtables
  imports Pools
begin

text \<open>
  The page-table formats of \<open>pgtables.h\<close>. The packed bit-field structures are tables of field
  names and widths, from the least significant bit up, as gcc lays them out on x86; a
  field is read and written by its place in the table. Also the index, base-address and
  page-address macros.
\<close>

section \<open>Bit fields\<close>

type_synonym layout = "(string \<times> nat) list"

text \<open>The first bit and the width of a field.\<close>

fun field_pos :: "layout \<Rightarrow> string \<Rightarrow> (nat \<times> nat) option" where
  "field_pos [] f = None"
| "field_pos ((g, n) # lay) f =
     (if g = f then Some (0, n) else map_option (\<lambda>(lo, k). (n + lo, k)) (field_pos lay f))"

definition width :: "layout \<Rightarrow> nat" where
  "width lay = sum_list (map snd lay)"

definition get_bits :: "nat \<Rightarrow> nat \<Rightarrow> u64 \<Rightarrow> u64" where
  "get_bits lo n w = take_bit n (drop_bit lo w)"

definition put_bits :: "nat \<Rightarrow> nat \<Rightarrow> u64 \<Rightarrow> u64 \<Rightarrow> u64" where
  "put_bits lo n v w = (w AND NOT (push_bit lo (mask n))) OR push_bit lo (take_bit n v)"

text \<open>\<open>p->f\<close> and \<open>p->f = v\<close>.\<close>

definition get_field :: "layout \<Rightarrow> string \<Rightarrow> u64 \<Rightarrow> u64" where
  "get_field lay f w = (case field_pos lay f of None \<Rightarrow> 0 | Some (lo, n) \<Rightarrow> get_bits lo n w)"

definition set_field :: "layout \<Rightarrow> string \<Rightarrow> u64 \<Rightarrow> u64 \<Rightarrow> u64" where
  "set_field lay f v w = (case field_pos lay f of None \<Rightarrow> w | Some (lo, n) \<Rightarrow> put_bits lo n v w)"

lemma bit_get_bits: "bit (get_bits lo n w) i \<longleftrightarrow> i < n \<and> bit w (lo + i)"
  by (auto simp: get_bits_def bit_simps)

lemma bit_put_bits:
  "bit (put_bits lo n v w) i \<longleftrightarrow>
     (if lo \<le> i \<and> i < lo + n then i < 64 \<and> bit v (i - lo) else bit w i)"
  using bit_imp_le_length [of w i] by (auto simp: put_bits_def bit_simps)

lemma get_put_same: "lo + n \<le> 64 \<Longrightarrow> get_bits lo n (put_bits lo n v w) = take_bit n v"
  by (rule bit_word_eqI) (auto simp: bit_get_bits bit_put_bits bit_simps)

lemma get_put_other:
  "lo + n \<le> lo' \<or> lo' + n' \<le> lo \<Longrightarrow> get_bits lo n (put_bits lo' n' v w) = get_bits lo n w"
  by (rule bit_word_eqI) (auto simp: bit_get_bits bit_put_bits)

lemma put_get: "put_bits lo n (get_bits lo n w) w = w"
  by (rule bit_word_eqI) (auto simp: bit_get_bits bit_put_bits)

text \<open>Fields of one layout do not overlap and lie within its width.\<close>

lemma field_pos_within: "field_pos lay f = Some (lo, n) \<Longrightarrow> lo + n \<le> width lay"
  by (induction lay f arbitrary: lo rule: field_pos.induct)
    (auto simp: width_def split: if_splits)

lemma field_pos_disjoint:
  "field_pos lay f = Some (lo, n) \<Longrightarrow> field_pos lay g = Some (lo', n') \<Longrightarrow> f \<noteq> g \<Longrightarrow>
   lo + n \<le> lo' \<or> lo' + n' \<le> lo"
  by (induction lay f arbitrary: lo lo' rule: field_pos.induct) (auto split: if_splits)

lemma get_set_field:
  assumes "width lay \<le> 64" "field_pos lay f = Some (lo, n)"
  shows "get_field lay g (set_field lay f v w) = (if g = f then take_bit n v else get_field lay g w)"
proof (cases "field_pos lay g")
  case None
  then show ?thesis using assms(2) by (auto simp: get_field_def)
next
  case (Some p)
  then obtain lo' n' where g: "field_pos lay g = Some (lo', n')" by (cases p) auto
  show ?thesis
  proof (cases "g = f")
    case True
    then show ?thesis
      using assms field_pos_within [OF assms(2)] by (simp add: get_field_def set_field_def get_put_same)
  next
    case False
    then show ?thesis
      using assms(2) g field_pos_disjoint [OF g assms(2)] by (simp add: get_field_def set_field_def get_put_other)
  qed
qed

section \<open>The structures\<close>

definition gen_pt :: layout where
  "gen_pt = [(''present'', 1), (''writable'', 1), (''user_page'', 1)]"

definition pde32 :: layout where
  "pde32 = [(''present'', 1), (''writable'', 1), (''user_page'', 1), (''write_through'', 1),
     (''cache_disable'', 1), (''accessed'', 1), (''reserved'', 1), (''large_page'', 1),
     (''global_page'', 1), (''vmm_info'', 3), (''pt_base_addr'', 20)]"

definition pde32_4MB :: layout where
  "pde32_4MB = [(''present'', 1), (''writable'', 1), (''user_page'', 1), (''write_through'', 1),
     (''cache_disable'', 1), (''accessed'', 1), (''dirty'', 1), (''large_page'', 1),
     (''global_page'', 1), (''vmm_info'', 3), (''pat'', 1), (''rsvd'', 9), (''page_base_addr'', 10)]"

definition pte32 :: layout where
  "pte32 = [(''present'', 1), (''writable'', 1), (''user_page'', 1), (''write_through'', 1),
     (''cache_disable'', 1), (''accessed'', 1), (''dirty'', 1), (''pte_attr'', 1),
     (''global_page'', 1), (''vmm_info'', 3), (''page_base_addr'', 20)]"

definition pdpe32pae :: layout where
  "pdpe32pae = [(''present'', 1), (''rsvd'', 2), (''write_through'', 1), (''cache_disable'', 1),
     (''accessed'', 1), (''avail'', 1), (''rsvd2'', 2), (''vmm_info'', 3), (''pd_base_addr'', 24),
     (''rsvd3'', 28)]"

definition pde32pae :: layout where
  "pde32pae = [(''present'', 1), (''writable'', 1), (''user_page'', 1), (''write_through'', 1),
     (''cache_disable'', 1), (''accessed'', 1), (''avail'', 1), (''large_page'', 1),
     (''global_page'', 1), (''vmm_info'', 3), (''pt_base_addr'', 24), (''rsvd'', 28)]"

definition pde32pae_2MB :: layout where
  "pde32pae_2MB = [(''present'', 1), (''writable'', 1), (''user_page'', 1), (''write_through'', 1),
     (''cache_disable'', 1), (''accessed'', 1), (''dirty'', 1), (''one'', 1), (''global_page'', 1),
     (''vmm_info'', 3), (''pat'', 1), (''rsvd'', 8), (''page_base_addr'', 15), (''rsvd2'', 28)]"

definition pte32pae :: layout where
  "pte32pae = [(''present'', 1), (''writable'', 1), (''user_page'', 1), (''write_through'', 1),
     (''cache_disable'', 1), (''accessed'', 1), (''dirty'', 1), (''pte_attr'', 1),
     (''global_page'', 1), (''vmm_info'', 3), (''page_base_addr'', 24), (''rsvd'', 28)]"

definition pml4e64 :: layout where
  "pml4e64 = [(''present'', 1), (''writable'', 1), (''user_page'', 1), (''write_through'', 1),
     (''cache_disable'', 1), (''accessed'', 1), (''reserved'', 1), (''zero'', 2), (''vmm_info'', 3),
     (''pdp_base_addr'', 40), (''available'', 11), (''no_execute'', 1)]"

definition pdpe64 :: layout where
  "pdpe64 = [(''present'', 1), (''writable'', 1), (''user_page'', 1), (''write_through'', 1),
     (''cache_disable'', 1), (''accessed'', 1), (''avail'', 1), (''large_page'', 1), (''zero'', 1),
     (''vmm_info'', 3), (''pd_base_addr'', 40), (''available'', 11), (''no_execute'', 1)]"

definition pdpe64_1GB :: layout where
  "pdpe64_1GB = [(''present'', 1), (''writable'', 1), (''user_page'', 1), (''write_through'', 1),
     (''cache_disable'', 1), (''accessed'', 1), (''dirty'', 1), (''large_page'', 1),
     (''global_page'', 1), (''vmm_info'', 3), (''pat'', 1), (''rsvd'', 17), (''page_base_addr'', 22),
     (''available'', 11), (''no_execute'', 1)]"

definition pde64 :: layout where
  "pde64 = [(''present'', 1), (''writable'', 1), (''user_page'', 1), (''write_through'', 1),
     (''cache_disable'', 1), (''accessed'', 1), (''avail'', 1), (''large_page'', 1),
     (''global_page'', 1), (''vmm_info'', 3), (''pt_base_addr'', 40), (''available'', 11),
     (''no_execute'', 1)]"

definition pde64_2MB :: layout where
  "pde64_2MB = [(''present'', 1), (''writable'', 1), (''user_page'', 1), (''write_through'', 1),
     (''cache_disable'', 1), (''accessed'', 1), (''dirty'', 1), (''large_page'', 1),
     (''global_page'', 1), (''vmm_info'', 3), (''pat'', 1), (''rsvd'', 8), (''page_base_addr'', 31),
     (''available'', 11), (''no_execute'', 1)]"

definition pte64 :: layout where
  "pte64 = [(''present'', 1), (''writable'', 1), (''user_page'', 1), (''write_through'', 1),
     (''cache_disable'', 1), (''accessed'', 1), (''dirty'', 1), (''pte_attr'', 1),
     (''global_page'', 1), (''vmm_info'', 3), (''page_base_addr'', 40), (''available'', 11),
     (''no_execute'', 1)]"

definition pf_error :: layout where
  "pf_error = [(''present'', 1), (''write'', 1), (''user'', 1), (''rsvd_access'', 1), (''ifetch'', 1),
     (''rsvd'', 27)]"

section \<open>Indices and addresses\<close>

definition PDE32_INDEX :: "u32 \<Rightarrow> u32" where "PDE32_INDEX x = drop_bit 22 x AND 0x3ff"
definition PTE32_INDEX :: "u32 \<Rightarrow> u32" where "PTE32_INDEX x = drop_bit 12 x AND 0x3ff"

definition PDPE32PAE_INDEX :: "u32 \<Rightarrow> u32" where "PDPE32PAE_INDEX x = drop_bit 30 x AND 0x3"
definition PDE32PAE_INDEX :: "u32 \<Rightarrow> u32" where "PDE32PAE_INDEX x = drop_bit 21 x AND 0x1ff"
definition PTE32PAE_INDEX :: "u32 \<Rightarrow> u32" where "PTE32PAE_INDEX x = drop_bit 12 x AND 0x1ff"

definition PML4E64_INDEX :: "u64 \<Rightarrow> u64" where "PML4E64_INDEX x = drop_bit 39 x AND 0x1ff"
definition PDPE64_INDEX :: "u64 \<Rightarrow> u64" where "PDPE64_INDEX x = drop_bit 30 x AND 0x1ff"
definition PDE64_INDEX :: "u64 \<Rightarrow> u64" where "PDE64_INDEX x = drop_bit 21 x AND 0x1ff"
definition PTE64_INDEX :: "u64 \<Rightarrow> u64" where "PTE64_INDEX x = drop_bit 12 x AND 0x1ff"

definition PAGE_TO_BASE_ADDR :: "u64 \<Rightarrow> u64" where "PAGE_TO_BASE_ADDR x = drop_bit 12 x"
definition PAGE_TO_BASE_ADDR_2MB :: "u64 \<Rightarrow> u64" where "PAGE_TO_BASE_ADDR_2MB x = drop_bit 21 x"
definition PAGE_TO_BASE_ADDR_4MB :: "u64 \<Rightarrow> u64" where "PAGE_TO_BASE_ADDR_4MB x = drop_bit 22 x"
definition PAGE_TO_BASE_ADDR_1GB :: "u64 \<Rightarrow> u64" where "PAGE_TO_BASE_ADDR_1GB x = drop_bit 30 x"

definition BASE_TO_PAGE_ADDR :: "u64 \<Rightarrow> u64" where "BASE_TO_PAGE_ADDR x = push_bit 12 x"
definition BASE_TO_PAGE_ADDR_2MB :: "u64 \<Rightarrow> u64" where "BASE_TO_PAGE_ADDR_2MB x = push_bit 21 x"
definition BASE_TO_PAGE_ADDR_4MB :: "u64 \<Rightarrow> u64" where "BASE_TO_PAGE_ADDR_4MB x = push_bit 22 x"
definition BASE_TO_PAGE_ADDR_1GB :: "u64 \<Rightarrow> u64" where "BASE_TO_PAGE_ADDR_1GB x = push_bit 30 x"

definition PAGE_OFFSET_4KB :: "u64 \<Rightarrow> u64" where "PAGE_OFFSET_4KB x = x AND 0xfff"
definition PAGE_OFFSET_2MB :: "u64 \<Rightarrow> u64" where "PAGE_OFFSET_2MB x = x AND 0x1fffff"
definition PAGE_OFFSET_4MB :: "u64 \<Rightarrow> u64" where "PAGE_OFFSET_4MB x = x AND 0x3fffff"
definition PAGE_OFFSET_1GB :: "u64 \<Rightarrow> u64" where "PAGE_OFFSET_1GB x = x AND 0x3fffffff"

definition PAGE_ADDR :: "u64 \<Rightarrow> u64" where "PAGE_ADDR x = push_bit 12 (drop_bit 12 x)"
definition PAGE_ADDR_2MB :: "u64 \<Rightarrow> u64" where "PAGE_ADDR_2MB x = push_bit 21 (drop_bit 21 x)"
definition PAGE_ADDR_4MB :: "u64 \<Rightarrow> u64" where "PAGE_ADDR_4MB x = push_bit 22 (drop_bit 22 x)"
definition PAGE_ADDR_1GB :: "u64 \<Rightarrow> u64" where "PAGE_ADDR_1GB x = push_bit 30 (drop_bit 30 x)"

definition CR3_TO_PML4E64_PA :: "u64 \<Rightarrow> u64" where "CR3_TO_PML4E64_PA cr = cr AND 0x000ffffffffff000"
definition CR3_TO_PML4E64_VA :: "u64 \<Rightarrow> u64" where "CR3_TO_PML4E64_VA cr = va (cr AND 0x000ffffffffff000)"
definition CR3_TO_PDE32_PA :: "u32 \<Rightarrow> u64" where "CR3_TO_PDE32_PA cr = ucast (cr AND 0xfffff000)"
definition CR3_TO_PDPE32PAE_PA :: "u32 \<Rightarrow> u64" where "CR3_TO_PDPE32PAE_PA cr = ucast (cr AND 0xffffffe0)"

definition CR3_TO_PDE32_VA :: "u32 \<Rightarrow> u64" where "CR3_TO_PDE32_VA cr = va (ucast (cr AND 0xfffff000))"
definition CR3_TO_PDPE32PAE_VA :: "u32 \<Rightarrow> u64" where "CR3_TO_PDPE32PAE_VA cr = va (ucast (cr AND 0xffffffe0))"

section \<open>Properties\<close>

lemmas layout_defs = pde32_def pde32_4MB_def pte32_def pdpe32pae_def pde32pae_def pde32pae_2MB_def
  pte32pae_def pml4e64_def pdpe64_def pdpe64_1GB_def pde64_def pde64_2MB_def pte64_def pf_error_def



lemma long_mode_pos:
  "map (field_pos pml4e64) [''present'', ''writable'', ''user_page'', ''accessed'', ''pdp_base_addr''] =
     [Some (0, 1), Some (1, 1), Some (2, 1), Some (5, 1), Some (12, 40)]"
  "map (field_pos pdpe64) [''present'', ''writable'', ''user_page'', ''accessed'', ''pd_base_addr''] =
     [Some (0, 1), Some (1, 1), Some (2, 1), Some (5, 1), Some (12, 40)]"
  "map (field_pos pde64) [''present'', ''writable'', ''user_page'', ''accessed'', ''pt_base_addr''] =
     [Some (0, 1), Some (1, 1), Some (2, 1), Some (5, 1), Some (12, 40)]"
  "map (field_pos pte64) [''present'', ''writable'', ''user_page'', ''accessed'', ''page_base_addr''] =
     [Some (0, 1), Some (1, 1), Some (2, 1), Some (5, 1), Some (12, 40)]"
  by code_simp+

text \<open>
  The walk through the four levels treats every entry as a \<open>pte64_t\<close>; that is sound: the
  fields it uses are at the same place in all four formats (the base address under its own
  name in each).
\<close>

theorem entries_as_pte64:
  "f \<in> {''present'', ''writable'', ''user_page'', ''accessed''} \<Longrightarrow>
   get_field pml4e64 f = get_field pte64 f \<and> get_field pdpe64 f = get_field pte64 f \<and>
   get_field pde64 f = get_field pte64 f \<and>
   set_field pml4e64 f = set_field pte64 f \<and> set_field pdpe64 f = set_field pte64 f \<and>
   set_field pde64 f = set_field pte64 f \<and>
   get_field pml4e64 ''pdp_base_addr'' = get_field pte64 ''page_base_addr'' \<and>
   get_field pdpe64 ''pd_base_addr'' = get_field pte64 ''page_base_addr'' \<and>
   get_field pde64 ''pt_base_addr'' = get_field pte64 ''page_base_addr''"
  using long_mode_pos by (auto simp: fun_eq_iff get_field_def set_field_def)

theorem entries_as_pte64_witness:
  "get_field pde64 ''present'' 0x1001 = get_field pte64 ''present'' 0x1001 \<and>
   get_field pde64 ''pt_base_addr'' 0x1001 = 1"
proof -
  have "get_field pde64 ''present'' = get_field pte64 ''present''"
    "get_field pde64 ''pt_base_addr'' = get_field pte64 ''page_base_addr''"
    using entries_as_pte64 [of "''present''"] by blast+
  moreover have "get_field pte64 ''page_base_addr'' 0x1001 = 1" by code_simp
  ultimately show ?thesis by metis
qed

text \<open>The masks of the macros as numbers of bits.\<close>

lemma and_masks:
  "x AND 0x1ff = take_bit 9 x" "x AND 0xfff = take_bit 12 x" "x AND 0x1fffff = take_bit 21 x"
  "x AND 0x3fffff = take_bit 22 x" "x AND 0x3fffffff = take_bit 30 x" "x AND 0x3 = take_bit 2 x"
  "x AND 0x3ff = take_bit 10 x" for x :: "'a::len word"
  by (simp_all add: take_bit_eq_mask mask_eq_exp_minus_1)

lemma bit_slice:
  "bit (push_bit k (take_bit n (drop_bit k x))) i \<longleftrightarrow> k \<le> i \<and> i < k + n \<and> bit (x :: u64) i"
  using bit_imp_le_length [of x i] by (auto simp: bit_simps)

lemma take_bit_9_less: "take_bit 9 y < (512 :: u64)" for y :: u64
proof -
  have "unat (take_bit 9 y) < 2 ^ 9" by (simp only: unsigned_take_bit_eq take_bit_nat_less_exp)
  then show ?thesis by (simp add: word_less_nat_alt)
qed

lemmas index_defs = PML4E64_INDEX_def PDPE64_INDEX_def PDE64_INDEX_def PTE64_INDEX_def PAGE_OFFSET_4KB_def

lemmas page_addr_defs = PAGE_ADDR_def PAGE_ADDR_2MB_def PAGE_ADDR_4MB_def PAGE_ADDR_1GB_def
  PAGE_OFFSET_4KB_def PAGE_OFFSET_2MB_def PAGE_OFFSET_4MB_def PAGE_OFFSET_1GB_def
  PAGE_TO_BASE_ADDR_def PAGE_TO_BASE_ADDR_2MB_def PAGE_TO_BASE_ADDR_4MB_def PAGE_TO_BASE_ADDR_1GB_def
  BASE_TO_PAGE_ADDR_def BASE_TO_PAGE_ADDR_2MB_def BASE_TO_PAGE_ADDR_4MB_def BASE_TO_PAGE_ADDR_1GB_def

text \<open>
  The four table indices and the page offset of an address determine it: no two 48-bit
  addresses share all five. The indices are below 512 and each level's index depends on its own
  nine bits only.
\<close>

theorem walk_indices:
  fixes x :: u64
  assumes "unat x < 2 ^ 48"
  shows "x = push_bit 39 (PML4E64_INDEX x) OR push_bit 30 (PDPE64_INDEX x) OR push_bit 21 (PDE64_INDEX x) OR
      push_bit 12 (PTE64_INDEX x) OR PAGE_OFFSET_4KB x \<and>
    PML4E64_INDEX x < 512 \<and> PDPE64_INDEX x < 512 \<and> PDE64_INDEX x < 512 \<and> PTE64_INDEX x < 512"
proof -
  have t: "take_bit 48 x = x"
    using assms by (simp only: word_unat_eq_iff unsigned_take_bit_eq take_bit_nat_eq_self)
  have hi: "\<not> bit x i" if "48 \<le> i" for i
    using that by (subst t [symmetric]) (simp add: bit_simps)
  have "x = push_bit 39 (PML4E64_INDEX x) OR push_bit 30 (PDPE64_INDEX x) OR push_bit 21 (PDE64_INDEX x) OR
      push_bit 12 (PTE64_INDEX x) OR PAGE_OFFSET_4KB x"
    unfolding index_defs and_masks
  proof (rule bit_word_eqI)
    fix i assume i: "i < LENGTH(64)"
    show "bit x i = bit (push_bit 39 (take_bit 9 (drop_bit 39 x)) OR push_bit 30 (take_bit 9 (drop_bit 30 x)) OR
        push_bit 21 (take_bit 9 (drop_bit 21 x)) OR push_bit 12 (take_bit 9 (drop_bit 12 x)) OR take_bit 12 x) i"
      unfolding bit_or_iff bit_slice bit_take_bit_iff using hi [of i] i by auto
  qed
  then show ?thesis unfolding index_defs and_masks using take_bit_9_less by simp
qed

theorem walk_indices_witness:
  "(0x1000203000 :: u64) = push_bit 39 (PML4E64_INDEX 0x1000203000) OR push_bit 30 (PDPE64_INDEX 0x1000203000) OR
     push_bit 21 (PDE64_INDEX 0x1000203000) OR push_bit 12 (PTE64_INDEX 0x1000203000) OR
     PAGE_OFFSET_4KB 0x1000203000 \<and> PDPE64_INDEX 0x1000203000 = 64"
proof -
  have "unat (0x1000203000 :: u64) < 2 ^ 48" by simp
  moreover have "PDPE64_INDEX 0x1000203000 = 64" by code_simp
  ultimately show ?thesis using walk_indices [of "0x1000203000"] by blast
qed

text \<open>
  An address splits into the address of its page and its offset in it, for each of the page
  sizes, and a page's address survives the conversion to a base address and back.
\<close>

theorem page_addr_split:
  "x = PAGE_ADDR x OR PAGE_OFFSET_4KB x \<and> PAGE_ADDR x = BASE_TO_PAGE_ADDR (PAGE_TO_BASE_ADDR x) \<and>
   x = PAGE_ADDR_2MB x OR PAGE_OFFSET_2MB x \<and> PAGE_ADDR_2MB x = BASE_TO_PAGE_ADDR_2MB (PAGE_TO_BASE_ADDR_2MB x) \<and>
   x = PAGE_ADDR_4MB x OR PAGE_OFFSET_4MB x \<and> PAGE_ADDR_4MB x = BASE_TO_PAGE_ADDR_4MB (PAGE_TO_BASE_ADDR_4MB x) \<and>
   x = PAGE_ADDR_1GB x OR PAGE_OFFSET_1GB x \<and> PAGE_ADDR_1GB x = BASE_TO_PAGE_ADDR_1GB (PAGE_TO_BASE_ADDR_1GB x)"
proof -
  have "x = push_bit n (drop_bit n x) OR take_bit n x" for n
    by (rule bit_word_eqI) (auto simp: bit_simps)
  then show ?thesis
    unfolding page_addr_defs and_masks by (intro conjI) (rule refl | assumption | blast)+
qed

end
