(* ===== verification/Vspace.thy ===== *)
theory Vspace
  imports Klist
begin

text \<open>
  The virtual address regions of \<open>on_demand.c\<close>: a kernel list of \<open>struct vaddr_reg\<close> nodes that
  tile the 128 GB region of a process, and the operations on it: the list part of
  \<open>petmem_init_process\<close>, \<open>allocate\<close>, \<open>check_address_range\<close>, and of \<open>free_address\<close> the search and
  the merging of neighbours. Nodes live in memory: \<open>status\<close> is the byte at offset 0 of a node,
  \<open>size\<close>, \<open>page_addr\<close> and \<open>list\<close> are at 8, 16 and 24. The addresses \<open>kmalloc\<close> returns are arguments.
  A loop over the list that does not end is \<open>None\<close>.
\<close>

section \<open>Nodes in memory\<close>

definition ALLOCATED :: u8 where "ALLOCATED = 0"
definition FREE :: u8 where "FREE = 11"

definition PETMEM_REGION_START :: u64 where "PETMEM_REGION_START = 0x1000000000"
definition PETMEM_REGION_END :: u64 where "PETMEM_REGION_END = 0x3000000000"

abbreviation PAGE_POWER_4KB :: nat where "PAGE_POWER_4KB \<equiv> 12"

definition reg_status :: "mem \<Rightarrow> u64 \<Rightarrow> u8" where "reg_status m n = ucast (m n)"
definition reg_size :: "mem \<Rightarrow> u64 \<Rightarrow> u64" where "reg_size m n = m (n + 8)"
definition reg_page_addr :: "mem \<Rightarrow> u64 \<Rightarrow> u64" where "reg_page_addr m n = m (n + 16)"

definition set_status :: "u64 \<Rightarrow> u8 \<Rightarrow> mem \<Rightarrow> mem" where
  "set_status n v m = m(n := (m n AND NOT 0xff) OR ucast v)"
definition set_size :: "u64 \<Rightarrow> u64 \<Rightarrow> mem \<Rightarrow> mem" where "set_size n v m = m(n + 8 := v)"
definition set_page_addr :: "u64 \<Rightarrow> u64 \<Rightarrow> mem \<Rightarrow> mem" where "set_page_addr n v m = m(n + 16 := v)"

text \<open>\<open>&(n->list)\<close> and \<open>list_entry\<close>.\<close>

definition lnode :: "u64 \<Rightarrow> u64" where "lnode n = n + 24"
definition list_entry :: "u64 \<Rightarrow> u64" where "list_entry p = p - 24"

section \<open>Operations\<close>

text \<open>The list part of \<open>petmem_init_process\<close>: \<open>head\<close> is \<open>&(new_proc->memory_allocations)\<close>.\<close>

definition init_regions :: "u64 \<Rightarrow> u64 \<Rightarrow> mem \<Rightarrow> mem" where
  "init_regions first_node head m =
     (let m1 = INIT_LIST_HEAD head m;
          m2 = set_status first_node FREE m1;
          m3 = set_size first_node (drop_bit PAGE_POWER_4KB (PETMEM_REGION_END - PETMEM_REGION_START)) m2;
          m4 = set_page_addr first_node PETMEM_REGION_START m3;
          m5 = INIT_LIST_HEAD (lnode first_node) m4
      in list_add (lnode first_node) head m5)"

text \<open>The search of \<open>allocate\<close>, from list position \<open>pos\<close>; 0 is \<open>NULL\<close>.\<close>

partial_function (option) find_fit :: "mem \<Rightarrow> u64 \<Rightarrow> u64 \<Rightarrow> u64 \<Rightarrow> u64 option" where
  "find_fit m head pos sz =
     (if pos = head then Some 0
      else let cur = list_entry pos
           in if reg_status m cur = FREE \<and> reg_size m cur \<ge> sz then Some cur
              else find_fit m head (m pos) sz)"

definition allocate :: "u64 \<Rightarrow> u64 \<Rightarrow> u64 \<Rightarrow> mem \<Rightarrow> (u64 \<times> mem) option" where
  "allocate new_node head sz m =
     (case find_fit m head (m head) sz of
        None \<Rightarrow> None
      | Some node \<Rightarrow>
          if node = 0 then Some (-1, m)
          else let m1 = set_status node ALLOCATED m
               in if reg_size m1 node = sz then Some (reg_page_addr m1 node, m1)
                  else let current_size = reg_size m1 node - sz;
                           m2 = INIT_LIST_HEAD (lnode new_node) m1;
                           m3 = list_add (lnode new_node) (lnode node) m2;
                           m4 = set_size new_node current_size m3;
                           m5 = set_page_addr new_node (reg_page_addr m4 node + push_bit PAGE_POWER_4KB sz) m4;
                           m6 = set_status new_node FREE m5;
                           m7 = set_size node sz m6
                       in Some (reg_page_addr m7 node, m7))"

text \<open>The search of \<open>free_address\<close>: the last node at the address, 0 when there is none.\<close>

partial_function (option) find_region :: "mem \<Rightarrow> u64 \<Rightarrow> u64 \<Rightarrow> u64 \<Rightarrow> u64 \<Rightarrow> u64 option" where
  "find_region m head pos page found =
     (if pos = head then Some found
      else let cur = list_entry pos
           in find_region m head (m pos) page (if reg_page_addr m cur = page then cur else found))"

text \<open>
  The merging at the end of \<open>free_address\<close>. \<open>next\<close> and \<open>prev\<close> are computed from the links without a
  test for the list head, whose surroundings are then read as a node.
\<close>

definition merge_regions :: "u64 \<Rightarrow> u64 \<Rightarrow> mem \<Rightarrow> mem" where
  "merge_regions found page m =
     (let nxt = list_entry (m (lnode found));
          prv = list_entry (m (lnode found + 8));
          m1 = (if reg_page_addr m nxt \<noteq> page \<and> reg_status m nxt = FREE
                then let m' = list_del (m (lnode found)) m
                     in set_size found (reg_size m' found + reg_size m' nxt) m'
                else m)
      in if reg_page_addr m1 prv \<noteq> page \<and> reg_status m1 prv = FREE
         then let m2 = set_page_addr found (reg_page_addr m1 prv) m1;
                  m3 = list_del (m2 (lnode found + 8)) m2
              in set_size found (reg_size m3 found + reg_size m3 prv) m3
         else m1)"

definition NOT_VALID_RANGE :: int where "NOT_VALID_RANGE = 1"
definition ALLOCATED_ADDRESS_RANGE :: int where "ALLOCATED_ADDRESS_RANGE = 2"

partial_function (option) check_range_loop :: "mem \<Rightarrow> u64 \<Rightarrow> u64 \<Rightarrow> u64 \<Rightarrow> int option" where
  "check_range_loop m head pos address =
     (if pos = head then Some NOT_VALID_RANGE
      else let cur = list_entry pos
           in if reg_status m cur = ALLOCATED \<and> reg_page_addr m cur \<le> address \<and>
                 address < reg_page_addr m cur + 4096 * reg_size m cur
              then Some ALLOCATED_ADDRESS_RANGE
              else check_range_loop m head (m pos) address)"

definition check_address_range :: "u64 \<Rightarrow> u64 \<Rightarrow> mem \<Rightarrow> int option" where
  "check_address_range head address m = check_range_loop m head (m head) address"

declare find_fit.simps [code] find_region.simps [code] check_range_loop.simps [code]

section \<open>The list of regions in memory\<close>

record region =
  rstatus :: u8
  rsize :: u64
  raddr :: u64

definition reg_at :: "mem \<Rightarrow> u64 \<Rightarrow> region" where
  "reg_at m n = \<lparr>rstatus = reg_status m n, rsize = reg_size m n, raddr = reg_page_addr m n\<rparr>"

text \<open>The words of a node and of the list head; nodes are apart from each other and from the head.\<close>

definition node_words :: "u64 \<Rightarrow> u64 set" where
  "node_words n = {n, n + 8, n + 16, n + 24, n + 32}"

definition nodes_apart :: "u64 \<Rightarrow> u64 list \<Rightarrow> bool" where
  "nodes_apart head ns \<longleftrightarrow> distinct ns \<and> 0 \<notin> set ns \<and>
     (\<forall>n \<in> set ns. node_words n \<inter> {head, head + 8} = {}) \<and>
     (\<forall>n \<in> set ns. \<forall>k \<in> set ns. n \<noteq> k \<longrightarrow> node_words n \<inter> node_words k = {})"

definition regions :: "mem \<Rightarrow> u64 \<Rightarrow> u64 list \<Rightarrow> region list \<Rightarrow> bool" where
  "regions m head ns rs \<longleftrightarrow>
     dlist m head (map lnode ns) \<and> nodes_apart head ns \<and> map (reg_at m) ns = rs"

lemma list_entry_lnode [simp]: "list_entry (lnode n) = n"
  by (simp add: list_entry_def lnode_def)

lemma node_words_lnode: "lnode n \<in> node_words n" "lnode n + 8 \<in> node_words n"
  by (simp_all add: node_words_def lnode_def)

lemma lnode_inj [simp]: "lnode a = lnode b \<longleftrightarrow> a = b"
  by (simp add: lnode_def)

lemma nodes_apartD:
  assumes "nodes_apart head ns" "n \<in> set ns"
  shows "n \<noteq> 0" "head \<notin> node_words n" "head + 8 \<notin> node_words n"
    "k \<in> set ns \<Longrightarrow> k \<noteq> n \<Longrightarrow> node_words n \<inter> node_words k = {}"
  using assms by (auto simp: nodes_apart_def)

lemma nodes_apart_sep:
  assumes "nodes_apart head ns"
  shows "sep (insert head (lnode ` set ns))"
  unfolding sep_def
proof
  fix a assume a: "a \<in> insert head (lnode ` set ns)"
  have hn: "head + 8 \<noteq> lnode n" "lnode n + 8 \<noteq> head" if "n \<in> set ns" for n
    using nodes_apartD(2,3) [OF assms that] node_words_lnode [of n] by auto
  have nk: "lnode n + 8 \<noteq> lnode k" if "n \<in> set ns" "k \<in> set ns" for n k
  proof (cases "k = n")
    case False
    have "lnode n + 8 \<in> node_words n" "lnode k \<in> node_words k" by (rule node_words_lnode)+
    then show ?thesis using nodes_apartD(4) [OF assms that False] by (metis disjoint_iff)
  qed simp
  from a show "a + 8 \<notin> insert head (lnode ` set ns)"
    by (elim insertE imageE) (simp_all add: hn nk image_iff)
qed

lemma nodes_apart_subset:
  "nodes_apart head ns \<Longrightarrow> set ks \<subseteq> set ns \<Longrightarrow> distinct ks \<Longrightarrow> nodes_apart head ks"
  unfolding nodes_apart_def by (meson subsetD)

text \<open>Writes to the data words of one node change that node's region only.\<close>

lemma reg_at_fields:
  "raddr (reg_at m n) = reg_page_addr m n" "rsize (reg_at m n) = reg_size m n" "rstatus (reg_at m n) = reg_status m n"
  by (simp_all add: reg_at_def)

lemma reg_at_cong: "(\<And>a. a \<in> {n, n + 8, n + 16} \<Longrightarrow> m' a = m a) \<Longrightarrow> reg_at m' n = reg_at m n"
  by (simp add: reg_at_def reg_status_def reg_size_def reg_page_addr_def)

lemma regions_frame:
  assumes r: "regions m head ns rs" and e: "\<And>a. a \<in> {head, head + 8} \<union> \<Union> (node_words ` set ns) \<Longrightarrow> m' a = m a"
  shows "regions m' head ns rs"
proof -
  have "dlist m' head (map lnode ns)"
    by (rule dlist_frame [of m]) (use r e node_words_lnode in \<open>auto simp: regions_def\<close>)
  moreover have "reg_at m' n = reg_at m n" if "n \<in> set ns" for n
    by (rule reg_at_cong) (use e that in \<open>auto simp: node_words_def\<close>)
  then have "map (reg_at m') ns = map (reg_at m) ns" by (intro map_cong refl)
  ultimately show ?thesis using r by (simp only: regions_def simp_thms)
qed

lemma regions_update:
  assumes r: "regions m head (xs @ n # ys) rs" and e: "\<And>a. a \<notin> {n, n + 8, n + 16} \<Longrightarrow> m' a = m a"
  shows "regions m' head (xs @ n # ys) (map (reg_at m) xs @ reg_at m' n # map (reg_at m) ys)"
proof -
  have ap: "nodes_apart head (xs @ n # ys)" using r by (simp add: regions_def)
  have w: "{n, n + 8, n + 16} \<subseteq> node_words n" by (auto simp: node_words_def)
  have other: "a \<notin> {n, n + 8, n + 16}" if "a \<in> node_words k" "k \<in> set (xs @ ys)" for a k
  proof -
    have "k \<noteq> n" using ap that(2) by (auto simp: nodes_apart_def)
    then show ?thesis using nodes_apartD(4) [OF ap, of n k] that w by auto
  qed
  have "dlist m' head (map lnode (xs @ n # ys))"
  proof (rule dlist_frame [of m])
    fix l assume l: "l \<in> insert head (set (map lnode (xs @ n # ys)))"
    have "l \<notin> {n, n + 8, n + 16} \<and> l + 8 \<notin> {n, n + 8, n + 16}"
    proof (cases "l = head")
      case True
      have "head \<notin> node_words n" "head + 8 \<notin> node_words n"
        by (rule nodes_apartD [OF ap]; simp)+
      then show ?thesis unfolding True using w by blast
    next
      case False
      then obtain k where k: "k \<in> set (xs @ n # ys)" "l = lnode k" using l by auto
      show ?thesis
      proof (cases "k = n")
        case True
        then show ?thesis using k(2) by (auto simp: lnode_def)
      next
        case False
        then show ?thesis using other [of l k] other [of "l + 8" k] k node_words_lnode [of k] by auto
      qed
    qed
    then show "m' l = m l \<and> m' (l + 8) = m (l + 8)" using e by blast
  qed (use r in \<open>simp add: regions_def\<close>)
  moreover have "reg_at m' k = reg_at m k" if "k \<in> set (xs @ ys)" for k
    by (rule reg_at_cong, rule e) (use other that in \<open>auto simp: node_words_def\<close>)
  ultimately show ?thesis using ap by (auto simp: regions_def)
qed

section \<open>The operations on lists of regions\<close>

definition fits :: "u64 \<Rightarrow> region \<Rightarrow> bool" where
  "fits sz r \<longleftrightarrow> rstatus r = FREE \<and> sz \<le> rsize r"

definition split_region :: "u64 \<Rightarrow> region \<Rightarrow> region list" where
  "split_region sz r =
     (if rsize r = sz then [r\<lparr>rstatus := ALLOCATED\<rparr>]
      else [r\<lparr>rstatus := ALLOCATED, rsize := sz\<rparr>,
            \<lparr>rstatus = FREE, rsize = rsize r - sz, raddr = raddr r + push_bit PAGE_POWER_4KB sz\<rparr>])"

fun spec_allocate :: "u64 \<Rightarrow> region list \<Rightarrow> (u64 \<times> region list) option" where
  "spec_allocate sz [] = None"
| "spec_allocate sz (r # rs) =
     (if fits sz r then Some (raddr r, split_region sz r @ rs)
      else map_option (\<lambda>(a, rs'). (a, r # rs')) (spec_allocate sz rs))"

lemma spec_allocate_None: "spec_allocate sz rs = None \<longleftrightarrow> (\<forall>r \<in> set rs. \<not> fits sz r)"
  by (induction rs) auto

lemma spec_allocate_append:
  "(\<forall>r \<in> set ps. \<not> fits sz r) \<Longrightarrow> fits sz r \<Longrightarrow>
   spec_allocate sz (ps @ r # qs) = Some (raddr r, ps @ split_region sz r @ qs)"
  by (induction ps) auto

lemma spec_allocate_Some:
  "spec_allocate sz rs = Some (a, rs') \<Longrightarrow>
   \<exists>ps r qs. rs = ps @ r # qs \<and> fits sz r \<and> a = raddr r \<and> rs' = ps @ split_region sz r @ qs \<and>
     (\<forall>p \<in> set ps. \<not> fits sz p)"
proof (induction rs arbitrary: a rs')
  case (Cons q rs)
  show ?case
  proof (cases "fits sz q")
    case True
    then show ?thesis using Cons.prems by (intro exI [of _ "[]"]) auto
  next
    case False
    then obtain rs1 where "spec_allocate sz rs = Some (a, rs1)" "rs' = q # rs1" using Cons.prems by auto
    with Cons.IH [of a rs1] False show ?thesis by (metis append_Cons set_ConsD)
  qed
qed simp

text \<open>Searching the list in memory.\<close>

lemma find_fit_chain:
  assumes "chain m a (map lnode ns) head" "head \<notin> lnode ` set ns"
  shows "find_fit m head (m a) sz = Some (case List.find (\<lambda>n. fits sz (reg_at m n)) ns of None \<Rightarrow> 0 | Some n \<Rightarrow> n)"
  using assms
proof (induction ns arbitrary: a)
  case Nil
  then show ?case by (subst find_fit.simps) simp
next
  case (Cons n ns)
  then have ma: "m a = lnode n" "lnode n \<noteq> head" by auto
  show ?case
  proof (cases "fits sz (reg_at m n)")
    case True
    then show ?thesis using ma by (subst find_fit.simps) (simp add: fits_def reg_at_def)
  next
    case False
    then have "find_fit m head (lnode n) sz = find_fit m head (m (lnode n)) sz"
      using ma(2) by (subst find_fit.simps) (auto simp: fits_def reg_at_def)
    then show ?thesis using Cons.IH [of "lnode n"] Cons.prems ma False by simp
  qed
qed

lemma find_fit_regions:
  assumes "regions m head ns rs"
  shows "find_fit m head (m head) sz = Some (case List.find (\<lambda>n. fits sz (reg_at m n)) ns of None \<Rightarrow> 0 | Some n \<Rightarrow> n)"
  by (rule find_fit_chain) (use assms in \<open>auto simp: regions_def dlist_def\<close>)

lemma find_SomeD:
  assumes "List.find P xs = Some x"
  obtains ps qs where "xs = ps @ x # qs" "P x" "\<forall>p \<in> set ps. \<not> P p"
proof -
  obtain i where i: "i < length xs" "P (xs ! i)" "x = xs ! i" "\<And>j. j < i \<Longrightarrow> \<not> P (xs ! j)"
    using assms by (auto simp: find_Some_iff)
  have "xs = take i xs @ x # drop (Suc i) xs" using id_take_nth_drop [OF i(1)] i(3) by simp
  moreover have "\<forall>p \<in> set (take i xs). \<not> P p" using i(1,4) by (auto simp: in_set_conv_nth)
  ultimately show thesis using that i(2,3) by blast
qed

text \<open>Adding a node behind another one.\<close>

lemma regions_insert:
  assumes r: "regions m head (xs @ n # ys) rs" and ap: "nodes_apart head (new # xs @ n # ys)"
    and m1: "\<And>a. a \<notin> node_words new \<Longrightarrow> m1 a = m a"
  defines "m' \<equiv> list_add (lnode new) (lnode n) m1"
  shows "regions m' head (xs @ n # new # ys) (map (reg_at m) xs @ reg_at m n # reg_at m1 new # map (reg_at m) ys)"
    and "a \<notin> \<Union> (node_words ` set (new # xs @ n # ys)) \<union> {head, head + 8} \<Longrightarrow> m' a = m a"
proof -
  let ?L = "map lnode xs @ lnode n # map lnode ys"
  have new: "new \<notin> set (xs @ n # ys)" using ap by (auto simp: nodes_apart_def)
  have "regions m1 head (xs @ n # ys) rs"
  proof (rule regions_frame [OF r m1])
    fix a assume "a \<in> {head, head + 8} \<union> \<Union> (node_words ` set (xs @ n # ys))"
    then show "a \<notin> node_words new"
      using nodes_apartD [OF ap, of new] new by auto
  qed
  then have d: "dlist m1 head ?L" and rs: "map (reg_at m1) (xs @ n # ys) = rs" by (auto simp: regions_def)
  have sp: "sep (insert (lnode new) (set (head # ?L)))"
    using nodes_apart_sep [OF ap] by (rule sep_subset) auto
  have nw: "lnode new \<notin> set (head # ?L)"
    using new nodes_apartD(2) [OF ap, of new] node_words_lnode [of new] by auto
  have d': "dlist m' head (map lnode (xs @ n # new # ys))"
    using dlist_list_add_after [OF d nw sp] by (simp add: m'_def)
  have fr: "m' a = m1 a" if "a \<noteq> lnode new" "a \<noteq> lnode new + 8" "a \<notin> set (head # ?L)" "a \<notin> (\<lambda>x. x + 8) ` set (head # ?L)" for a
    unfolding m'_def by (rule list_add_after_frame [OF d]) (use that in auto)
  show "m' a = m a" if "a \<notin> \<Union> (node_words ` set (new # xs @ n # ys)) \<union> {head, head + 8}"
  proof -
    have "m' a = m1 a" by (rule fr) (use that node_words_lnode in auto)
    then show ?thesis using m1 that by simp
  qed
  have dat: "reg_at m' k = reg_at m1 k" if k: "k \<in> set (new # xs @ n # ys)" for k
  proof (rule reg_at_cong, rule fr)
    fix a assume a: "a \<in> {k, k + 8, k + 16}"
    then have ak: "a \<in> node_words k" by (auto simp: node_words_def)
    have ll: "a \<noteq> lnode j \<and> a \<noteq> lnode j + 8" if j: "j \<in> set (new # xs @ n # ys)" for j
    proof (cases "j = k")
      case True
      then show ?thesis using a by (auto simp: lnode_def)
    next
      case False
      have "lnode j \<in> node_words j" "lnode j + 8 \<in> node_words j" by (rule node_words_lnode)+
      then show ?thesis using nodes_apartD(4) [OF ap k j False] ak by blast
    qed
    have hh: "a \<noteq> head" "a \<noteq> head + 8" using nodes_apartD(2,3) [OF ap k] ak by auto
    show "a \<noteq> lnode new" "a \<noteq> lnode new + 8" using ll [of new] by auto
    show "a \<notin> set (head # ?L)" "a \<notin> (\<lambda>x. x + 8) ` set (head # ?L)" using ll hh by auto
  qed
  have "reg_at m1 k = reg_at m k" if "k \<in> set (xs @ n # ys)" for k
  proof (rule reg_at_cong, rule m1)
    fix a assume "a \<in> {k, k + 8, k + 16}"
    then have "a \<in> node_words k" by (auto simp: node_words_def)
    then show "a \<notin> node_words new" using nodes_apartD(4) [OF ap, of new k] new that by auto
  qed
  moreover have "nodes_apart head (xs @ n # new # ys)"
    by (rule nodes_apart_subset [OF ap]) (use ap in \<open>auto simp: nodes_apart_def\<close>)
  ultimately show "regions m' head (xs @ n # new # ys) (map (reg_at m) xs @ reg_at m n # reg_at m1 new # map (reg_at m) ys)"
    using d' dat by (simp add: regions_def)
qed

lemma reg_status_set [simp]: "reg_status (set_status n v m) n = v"
proof -
  have ff: "(0xff :: u64) = mask 8" by (simp add: mask_eq_exp_minus_1)
  show ?thesis
    unfolding reg_status_def set_status_def ff by (intro bit_word_eqI) (auto simp: bit_simps)
qed

text \<open>The word at which a field is kept.\<close>

lemma reg_at_sets:
  "reg_at (set_status n v m) n = (reg_at m n)\<lparr>rstatus := v\<rparr>"
  "reg_at (set_size n x m) n = (reg_at m n)\<lparr>rsize := x\<rparr>"
  "reg_at (set_page_addr n x m) n = (reg_at m n)\<lparr>raddr := x\<rparr>"
proof -
  show "reg_at (set_status n v m) n = (reg_at m n)\<lparr>rstatus := v\<rparr>"
    by (simp add: reg_at_def, simp add: set_status_def reg_size_def reg_page_addr_def)
  show "reg_at (set_size n x m) n = (reg_at m n)\<lparr>rsize := x\<rparr>"
    "reg_at (set_page_addr n x m) n = (reg_at m n)\<lparr>raddr := x\<rparr>"
    by (simp_all add: reg_at_def reg_status_def reg_size_def reg_page_addr_def set_size_def set_page_addr_def)
qed

lemma set_frames:
  "a \<noteq> n \<Longrightarrow> set_status n v m a = m a" "a \<noteq> n + 8 \<Longrightarrow> set_size n x m a = m a"
  "a \<noteq> n + 16 \<Longrightarrow> set_page_addr n x m a = m a"
  by (simp_all add: set_status_def set_size_def set_page_addr_def)

definition region_words :: "u64 \<Rightarrow> u64 list \<Rightarrow> u64 set" where
  "region_words head ns = {head, head + 8} \<union> \<Union> (node_words ` set ns)"

lemma allocate_split_ok:
  assumes r: "regions m head (xs @ n # ys) rs" and ap: "nodes_apart head (new # xs @ n # ys)"
    and ne: "reg_size m n \<noteq> sz"
  defines "q \<equiv> reg_at m n"
  shows "\<exists>m'. (let m1 = set_status n ALLOCATED m; current_size = reg_size m1 n - sz;
                  m2 = INIT_LIST_HEAD (lnode new) m1; m3 = list_add (lnode new) (lnode n) m2;
                  m4 = set_size new current_size m3;
                  m5 = set_page_addr new (reg_page_addr m4 n + push_bit PAGE_POWER_4KB sz) m4;
                  m6 = set_status new FREE m5; m7 = set_size n sz m6
              in (reg_page_addr m7 n, m7)) = (raddr q, m') \<and>
    regions m' head (xs @ n # new # ys) (map (reg_at m) xs @ split_region sz q @ map (reg_at m) ys) \<and>
    (\<forall>a. a \<notin> region_words head (new # xs @ n # ys) \<longrightarrow> m' a = m a)"
proof -
  have nn: "new \<noteq> n" and dj: "node_words new \<inter> node_words n = {}"
    using ap nodes_apartD(4) [OF ap, of new n] by (auto simp: nodes_apart_def)
  let ?m1 = "set_status n ALLOCATED m"
  let ?m2 = "INIT_LIST_HEAD (lnode new) ?m1"
  let ?m3 = "list_add (lnode new) (lnode n) ?m2"
  let ?m4 = "set_size new (reg_size ?m1 n - sz) ?m3"
  let ?m5 = "set_page_addr new (reg_page_addr ?m4 n + push_bit PAGE_POWER_4KB sz) ?m4"
  let ?m6 = "set_status new FREE ?m5"
  let ?m7 = "set_size n sz ?m6"
  have r1: "regions ?m1 head (xs @ n # ys) (map (reg_at m) xs @ reg_at ?m1 n # map (reg_at m) ys)"
    by (rule regions_update [OF r]) (simp add: set_frames)
  then have at1: "map (reg_at ?m1) xs = map (reg_at m) xs" "map (reg_at ?m1) ys = map (reg_at m) ys"
    by (auto simp: regions_def)
  have m2: "?m2 a = ?m1 a" if "a \<notin> node_words new" for a
    using that by (auto simp: INIT_LIST_HEAD_def node_words_def lnode_def)
  note ins = regions_insert [OF r1 ap m2]
  have at3: "reg_at ?m3 n = reg_at ?m1 n" using ins(1) by (simp add: regions_def)
  have r6: "regions ?m6 head (xs @ n # new # ys)
      (map (reg_at ?m3) (xs @ [n]) @ reg_at ?m6 new # map (reg_at ?m3) ys)"
    using regions_update [of ?m3 head "xs @ [n]" new ys _ ?m6] ins(1) by (simp add: set_frames)
  then have at6: "reg_at ?m6 n = reg_at ?m3 n" by (simp add: regions_def)
  have r7: "regions ?m7 head (xs @ n # new # ys)
      (map (reg_at ?m6) xs @ reg_at ?m7 n # map (reg_at ?m6) (new # ys))"
    using r6 by (rule regions_update) (simp add: set_frames)
  have at7: "reg_at ?m7 n = q\<lparr>rstatus := ALLOCATED, rsize := sz\<rparr>"
    unfolding reg_at_sets at6 at3 q_def by simp
  have "reg_page_addr ?m4 n = raddr q"
  proof -
    have "reg_page_addr ?m4 n = reg_page_addr ?m3 n"
      using dj nn by (auto simp: reg_page_addr_def node_words_def intro!: set_frames)
    also have "\<dots> = raddr q"
      using at3 by (simp add: reg_at_sets q_def) (simp add: reg_at_def)
    finally show ?thesis .
  qed
  moreover have "reg_size ?m1 n = rsize q"
    using reg_at_sets(1) [of n ALLOCATED m] by (simp add: reg_at_def q_def)
  ultimately have "reg_at ?m6 new = \<lparr>rstatus = FREE, rsize = rsize q - sz, raddr = raddr q + push_bit PAGE_POWER_4KB sz\<rparr>"
    unfolding reg_at_sets by (simp add: reg_at_def)
  moreover have "map (reg_at ?m6) xs = map (reg_at m) xs" "map (reg_at ?m6) ys = map (reg_at m) ys"
    using r6 ins(1) at1 by (auto simp: regions_def simp del: map_eq_conv)
  moreover have "rsize q \<noteq> sz" using ne by (simp add: q_def reg_at_def)
  ultimately have "map (reg_at ?m6) xs @ reg_at ?m7 n # map (reg_at ?m6) (new # ys) =
      map (reg_at m) xs @ split_region sz q @ map (reg_at m) ys"
    using at7 by (simp add: split_region_def del: map_eq_conv)
  then have "regions ?m7 head (xs @ n # new # ys) (map (reg_at m) xs @ split_region sz q @ map (reg_at m) ys)"
    using r7 by (simp only:)
  moreover have "?m7 a = m a" if "a \<notin> region_words head (new # xs @ n # ys)" for a
  proof -
    have "a \<notin> node_words n" "a \<notin> node_words new" using that by (auto simp: region_words_def)
    moreover have "?m3 a = ?m1 a" by (rule ins(2)) (use that in \<open>auto simp: region_words_def\<close>)
    ultimately show ?thesis by (simp add: set_frames node_words_def)
  qed
  moreover have "reg_page_addr ?m7 n = raddr q"
    using arg_cong [OF at7, of raddr] by (simp only: reg_at_fields) simp
  ultimately show ?thesis unfolding Let_def by blast
qed

lemma allocate_refines:
  assumes r: "regions m head ns rs" and ap: "nodes_apart head (new # ns)"
  shows "case spec_allocate sz rs of
      None \<Rightarrow> allocate new head sz m = Some (-1, m)
    | Some (a, rs') \<Rightarrow> \<exists>m' ns'. allocate new head sz m = Some (a, m') \<and> regions m' head ns' rs' \<and>
        set ns \<subseteq> set ns' \<and> set ns' \<subseteq> insert new (set ns) \<and> (\<forall>x. x \<notin> region_words head (new # ns) \<longrightarrow> m' x = m x)"
proof (cases "List.find (\<lambda>n. fits sz (reg_at m n)) ns")
  case None
  then have "\<forall>q \<in> set rs. \<not> fits sz q" using r by (auto simp: regions_def find_None_iff)
  then have "spec_allocate sz rs = None" by (simp add: spec_allocate_None)
  then show ?thesis using find_fit_regions [OF r] None by (simp add: allocate_def)
next
  case (Some n)
  then obtain xs ys where n: "ns = xs @ n # ys" "fits sz (reg_at m n)" "\<forall>k \<in> set xs. \<not> fits sz (reg_at m k)"
    by (rule find_SomeD)
  have rs: "rs = map (reg_at m) xs @ reg_at m n # map (reg_at m) ys" using r n(1) by (auto simp: regions_def)
  have sp: "spec_allocate sz rs =
      Some (raddr (reg_at m n), map (reg_at m) xs @ split_region sz (reg_at m n) @ map (reg_at m) ys)"
    unfolding rs by (rule spec_allocate_append) (use n in auto)
  have n0: "n \<noteq> 0" using nodes_apartD(1) [OF ap, of n] n(1) by simp
  have find: "find_fit m head (m head) sz = Some n" using find_fit_regions [OF r] Some by simp
  let ?m1 = "set_status n ALLOCATED m"
  have at1: "reg_at ?m1 n = (reg_at m n)\<lparr>rstatus := ALLOCATED\<rparr>" by (rule reg_at_sets)
  then have f1: "reg_size ?m1 n = reg_size m n" "reg_page_addr ?m1 n = raddr (reg_at m n)"
    by (metis reg_at_fields(1,2) region.simps(2,3) region.surjective region.update_convs(1))+
  show ?thesis
  proof (cases "reg_size m n = sz")
    case True
    have "regions ?m1 head ns (map (reg_at m) xs @ reg_at ?m1 n # map (reg_at m) ys)"
      using regions_update [of m head xs n ys rs ?m1] r n(1) by (simp add: set_frames)
    moreover have "split_region sz (reg_at m n) = [reg_at ?m1 n]"
      using True at1 by (simp add: split_region_def reg_at_fields)
    moreover have "allocate new head sz m = Some (raddr (reg_at m n), ?m1)"
      using find n0 True f1 by (simp add: allocate_def)
    ultimately show ?thesis
      unfolding sp using n(1) by (auto simp: region_words_def node_words_def set_frames intro!: exI [of _ ns])
  next
    case False
    have "allocate new head sz m = Some (let m1 = set_status n ALLOCATED m; current_size = reg_size m1 n - sz;
                  m2 = INIT_LIST_HEAD (lnode new) m1; m3 = list_add (lnode new) (lnode n) m2;
                  m4 = set_size new current_size m3;
                  m5 = set_page_addr new (reg_page_addr m4 n + push_bit PAGE_POWER_4KB sz) m4;
                  m6 = set_status new FREE m5; m7 = set_size n sz m6
              in (reg_page_addr m7 n, m7))"
      using find n0 False f1 by (simp add: allocate_def Let_def)
    with allocate_split_ok [OF r [unfolded n(1)] ap [unfolded n(1)] False] show ?thesis
      unfolding sp n(1) by (auto intro!: exI [of _ "xs @ n # new # ys"])
  qed
qed

section \<open>Merging\<close>

text \<open>Data words and link words of nodes do not meet.\<close>

lemma data_not_link:
  assumes ap: "nodes_apart head ns" and k: "k \<in> set ns" and a: "a \<in> {k, k + 8, k + 16}"
  shows "a \<notin> insert head (lnode ` set ns)" "a \<notin> (\<lambda>x. x + 8) ` insert head (lnode ` set ns)"
proof -
  have ak: "a \<in> node_words k" using a by (auto simp: node_words_def)
  have ll: "a \<noteq> lnode j \<and> a \<noteq> lnode j + 8" if j: "j \<in> set ns" for j
  proof (cases "j = k")
    case True
    then show ?thesis using a by (auto simp: lnode_def)
  next
    case False
    have "lnode j \<in> node_words j" "lnode j + 8 \<in> node_words j" by (rule node_words_lnode)+
    then show ?thesis using nodes_apartD(4) [OF ap k j False] ak by blast
  qed
  have "a \<noteq> head" "a \<noteq> head + 8" using nodes_apartD(2,3) [OF ap k] ak by auto
  with ll show "a \<notin> insert head (lnode ` set ns)" "a \<notin> (\<lambda>x. x + 8) ` insert head (lnode ` set ns)"
    by auto
qed

lemma regions_remove:
  assumes r: "regions m head (xs @ k # ys) rs"
  defines "m' \<equiv> list_del (lnode k) m"
  shows "regions m' head (xs @ ys) (map (reg_at m) (xs @ ys))"
    and "n \<in> set (xs @ k # ys) \<Longrightarrow> reg_at m' n = reg_at m n"
    and "a \<notin> region_words head (xs @ k # ys) \<Longrightarrow> m' a = m a"
proof -
  let ?S = "insert head (lnode ` set (xs @ k # ys))"
  have d: "dlist m head (map lnode xs @ lnode k # map lnode ys)" and ap: "nodes_apart head (xs @ k # ys)"
    using r by (auto simp: regions_def)
  have fr: "m' a = m a" if "a \<notin> ?S" "a \<notin> (\<lambda>x. x + 8) ` ?S" for a
    unfolding m'_def by (rule list_del_frame [OF d]) (use that in auto)
  show dat: "reg_at m' n = reg_at m n" if "n \<in> set (xs @ k # ys)" for n
    by (rule reg_at_cong, rule fr) (use data_not_link [OF ap that] in blast)+
  show "m' a = m a" if "a \<notin> region_words head (xs @ k # ys)"
  proof (rule fr)
    show "a \<notin> ?S" "a \<notin> (\<lambda>x. x + 8) ` ?S"
      using that node_words_lnode by (auto simp: region_words_def)
  qed
  have "dlist m' head (map lnode xs @ map lnode ys)"
    unfolding m'_def by (rule dlist_list_del [OF d]) (rule sep_subset [OF nodes_apart_sep [OF ap]], auto)
  moreover have "nodes_apart head (xs @ ys)"
    by (rule nodes_apart_subset [OF ap]) (use ap in \<open>auto simp: nodes_apart_def\<close>)
  ultimately show "regions m' head (xs @ ys) (map (reg_at m) (xs @ ys))"
    using dat by (simp add: regions_def)
qed

definition merge_next :: "u64 \<Rightarrow> region \<Rightarrow> region list \<Rightarrow> region \<times> region list" where
  "merge_next page r qs = (case qs of
     q # qs' \<Rightarrow> if raddr q \<noteq> page \<and> rstatus q = FREE then (r\<lparr>rsize := rsize r + rsize q\<rparr>, qs') else (r, qs)
   | [] \<Rightarrow> (r, qs))"

definition spec_merge :: "u64 \<Rightarrow> region list \<Rightarrow> region \<Rightarrow> region list \<Rightarrow> region list" where
  "spec_merge page ps r qs =
     (let (r1, qs1) = merge_next page r qs
      in if ps \<noteq> [] \<and> raddr (last ps) \<noteq> page \<and> rstatus (last ps) = FREE
         then butlast ps @ r1\<lparr>raddr := raddr (last ps), rsize := rsize r1 + rsize (last ps)\<rparr> # qs1
         else ps @ r1 # qs1)"

text \<open>
  What is read as a node at the list head is not taken for a free region: this depends on the
  memory in front of \<open>struct mem_map\<close>, which the code does not own.
\<close>

definition head_quiet :: "mem \<Rightarrow> u64 \<Rightarrow> u64 list \<Rightarrow> u64 \<Rightarrow> bool" where
  "head_quiet m head ns page \<longleftrightarrow>
     \<not> (reg_page_addr m (list_entry head) \<noteq> page \<and> reg_status m (list_entry head) = FREE) \<and>
     {head - 24, head - 8} \<inter> region_words head ns = {}"

lemma head_quiet_cong:
  assumes q: "head_quiet m head ns page" and e: "\<And>a. a \<notin> region_words head ns \<Longrightarrow> m' a = m a"
  shows "\<not> (reg_page_addr m' (list_entry head) \<noteq> page \<and> reg_status m' (list_entry head) = FREE)"
proof -
  have "m' (head - 24) = m (head - 24)" "m' (head - 8) = m (head - 8)"
    using q e by (auto simp: head_quiet_def)
  moreover have "list_entry head = head - 24" "list_entry head + 16 = head - 8" by (simp_all add: list_entry_def)
  ultimately show ?thesis using q by (simp add: head_quiet_def reg_page_addr_def reg_status_def)
qed

lemma region_words_mono: "set ns \<subseteq> set ks \<Longrightarrow> region_words head ns \<subseteq> region_words head ks"
  by (auto simp: region_words_def)

lemma set_size_frame: "n \<in> set ns \<Longrightarrow> a \<notin> region_words head ns \<Longrightarrow> set_size n x m a = m a"
  and set_page_addr_frame: "n \<in> set ns \<Longrightarrow> a \<notin> region_words head ns \<Longrightarrow> set_page_addr n x m a = m a"
  by (auto simp: region_words_def node_words_def intro!: set_frames)

lemma regions_split: "regions m head (xs @ n # ys) rs \<Longrightarrow> rs = map (reg_at m) xs @ reg_at m n # map (reg_at m) ys"
  by (auto simp: regions_def)

lemma merge_next_ok:
  assumes r: "regions m head (xs @ n # ys) rs" and q: "head_quiet m head (xs @ n # ys) page"
    and mn: "merge_next page (reg_at m n) (map (reg_at m) ys) = (r1, qs1)"
  defines "nxt \<equiv> list_entry (m (lnode n))"
  defines "m1 \<equiv> (if reg_page_addr m nxt \<noteq> page \<and> reg_status m nxt = FREE
                then let m' = list_del (m (lnode n)) m
                     in set_size n (reg_size m' n + reg_size m' nxt) m'
                else m)"
  shows "\<exists>ys1. regions m1 head (xs @ n # ys1) (map (reg_at m) xs @ r1 # qs1) \<and> set ys1 \<subseteq> set ys \<and>
    (\<forall>a. a \<notin> region_words head (xs @ n # ys) \<longrightarrow> m1 a = m a)"
proof (cases ys)
  case Nil
  then have "nxt = list_entry head"
    using dlist_next [of m head "map lnode xs" "lnode n" "[]"] r by (simp add: nxt_def regions_def)
  then have "m1 = m" using head_quiet_cong [OF q, of m] by (auto simp: m1_def)
  then show ?thesis using r mn Nil regions_split [OF r] by (auto simp: merge_next_def)
next
  case (Cons k ys')
  then have l: "m (lnode n) = lnode k"
    using dlist_next [of m head "map lnode xs" "lnode n" "map lnode ys"] r by (simp add: regions_def)
  then have nx: "nxt = k" by (simp add: nxt_def)
  show ?thesis
  proof (cases "reg_page_addr m k \<noteq> page \<and> reg_status m k = FREE")
    case False
    then have "m1 = m" using nx by (auto simp: m1_def)
    moreover have "r1 = reg_at m n" "qs1 = map (reg_at m) ys"
      using mn False Cons by (auto simp: merge_next_def reg_at_fields split: if_splits)
    ultimately show ?thesis using r regions_split [OF r] by auto
  next
    case True
    let ?m' = "list_del (lnode k) m"
    have rm: "regions m head ((xs @ [n]) @ k # ys') rs" using r Cons by simp
    note rem = regions_remove [OF rm]
    have at: "reg_at ?m' n = reg_at m n" "reg_at ?m' k = reg_at m k" by (rule rem(2); simp)+
    have m1: "m1 = set_size n (reg_size m n + reg_size m k) ?m'"
      using True l nx at unfolding m1_def by (simp flip: reg_at_fields(2))
    have r1: "r1 = (reg_at m n)\<lparr>rsize := reg_size m n + reg_size m k\<rparr>" "qs1 = map (reg_at m) ys'"
      using mn True Cons by (auto simp: merge_next_def reg_at_fields)
    have "regions m1 head (xs @ n # ys') (map (reg_at ?m') xs @ reg_at m1 n # map (reg_at ?m') ys')"
      unfolding m1 by (rule regions_update [of ?m']) (use rem(1) in \<open>simp_all add: set_frames\<close>)
    moreover have "reg_at m1 n = r1" unfolding m1 reg_at_sets at r1 ..
    moreover have "map (reg_at ?m') xs = map (reg_at m) xs" "map (reg_at ?m') ys' = map (reg_at m) ys'"
      using rem(2) by auto
    ultimately have "regions m1 head (xs @ n # ys') (map (reg_at m) xs @ r1 # qs1)" using r1(2) by (simp only:)
    moreover have "m1 a = m a" if "a \<notin> region_words head (xs @ n # ys)" for a
      unfolding m1 using that rem(3) [of a] Cons set_size_frame [of n "xs @ n # ys"] by simp
    ultimately show ?thesis using Cons by auto
  qed
qed

lemma merge_prev_ok:
  assumes r: "regions m head (xs @ n # ys) (ps @ r1 # qs)" and len: "length ps = length xs"
    and q: "\<not> (reg_page_addr m (list_entry head) \<noteq> page \<and> reg_status m (list_entry head) = FREE)"
  defines "prv \<equiv> list_entry (last (head # map lnode xs))"
  defines "m' \<equiv> (if reg_page_addr m prv \<noteq> page \<and> reg_status m prv = FREE
         then let m2 = set_page_addr n (reg_page_addr m prv) m;
                  m3 = list_del (m2 (lnode n + 8)) m2
              in set_size n (reg_size m3 n + reg_size m3 prv) m3
         else m)"
  shows "\<exists>xs'. regions m' head (xs' @ n # ys)
      (if ps \<noteq> [] \<and> raddr (last ps) \<noteq> page \<and> rstatus (last ps) = FREE
       then butlast ps @ r1\<lparr>raddr := raddr (last ps), rsize := rsize r1 + rsize (last ps)\<rparr> # qs
       else ps @ r1 # qs) \<and> set xs' \<subseteq> set xs \<and> (\<forall>a. a \<notin> region_words head (xs @ n # ys) \<longrightarrow> m' a = m a)"
proof (cases xs rule: rev_cases)
  case Nil
  then have "m' = m" using q by (auto simp: m'_def prv_def)
  then show ?thesis using r len Nil by (auto intro!: exI [of _ "[]"])
next
  case (snoc xs' k)
  then have pk: "prv = k" by (simp add: prv_def)
  have e: "ps = map (reg_at m) xs" "r1 = reg_at m n" "qs = map (reg_at m) ys"
    using regions_split [OF r] len by auto
  then have lp: "ps \<noteq> []" "last ps = reg_at m k" "butlast ps = map (reg_at m) xs'"
    using snoc by auto
  show ?thesis
  proof (cases "reg_page_addr m k \<noteq> page \<and> reg_status m k = FREE")
    case False
    then have "m' = m" using pk by (auto simp: m'_def)
    moreover have "\<not> (raddr (last ps) \<noteq> page \<and> rstatus (last ps) = FREE)" using False lp by (simp add: reg_at_fields)
    ultimately show ?thesis using r by (auto intro!: exI [of _ xs])
  next
    case True
    let ?m2 = "set_page_addr n (reg_page_addr m k) m"
    let ?m3 = "list_del (lnode k) ?m2"
    let ?q = "r1\<lparr>raddr := reg_page_addr m k, rsize := rsize r1 + reg_size m k\<rparr>"
    have nk: "n \<noteq> k" using r snoc by (auto simp: regions_def nodes_apart_def)
    have r2: "regions ?m2 head (xs @ n # ys) (map (reg_at m) xs @ reg_at ?m2 n # map (reg_at m) ys)"
      using r by (rule regions_update) (simp add: set_frames)
    then have a2: "map (reg_at ?m2) xs = map (reg_at m) xs" "map (reg_at ?m2) ys = map (reg_at m) ys"
      by (auto simp: regions_def simp del: map_eq_conv)
    have k2: "reg_at ?m2 k = reg_at m k" using a2(1) snoc by simp
    have lk: "?m2 (lnode n + 8) = lnode k"
      using dlist_prev [of ?m2 head "map lnode xs" "lnode n" "map lnode ys"] r2 snoc by (simp add: regions_def)
    have rm: "regions ?m2 head (xs' @ k # n # ys) (map (reg_at m) xs @ reg_at ?m2 n # map (reg_at m) ys)"
      using r2 snoc by simp
    note rem = regions_remove [OF rm]
    have at: "reg_at ?m3 n = reg_at ?m2 n" "reg_at ?m3 k = reg_at m k" using rem(2) k2 by simp_all
    have sz: "reg_size ?m3 n = rsize r1" "reg_size ?m3 k = reg_size m k"
      using at e(2) by (simp_all add: reg_at_sets flip: reg_at_fields(2))
    have m': "m' = set_size n (rsize r1 + reg_size m k) ?m3"
      unfolding m'_def pk using True lk sz by (simp add: Let_def)
    have "regions m' head (xs' @ n # ys) (map (reg_at ?m3) xs' @ reg_at m' n # map (reg_at ?m3) ys)"
      unfolding m' by (rule regions_update [of ?m3]) (use rem(1) in \<open>simp_all add: set_frames\<close>)
    moreover have "reg_at m' n = ?q" unfolding m' reg_at_sets at(1) e(2) by simp
    moreover have "map (reg_at ?m3) xs' = map (reg_at m) xs'" "map (reg_at ?m3) ys = map (reg_at m) ys"
      using rem(2) a2 snoc by auto
    ultimately have "regions m' head (xs' @ n # ys) (butlast ps @ ?q # qs)" using lp e by (simp only:)
    moreover have "m' a = m a" if "a \<notin> region_words head (xs @ n # ys)" for a
      unfolding m' using that rem(3) [of a] snoc set_size_frame [of n "xs @ n # ys"] set_page_addr_frame [of n "xs @ n # ys"]
      by simp
    ultimately show ?thesis using True lp snoc by (auto simp: reg_at_fields)
  qed
qed

lemma merge_regions_refines:
  assumes r: "regions m head (xs @ n # ys) (ps @ r # qs)" and len: "length ps = length xs"
    and q: "head_quiet m head (xs @ n # ys) page"
  shows "\<exists>ns'. regions (merge_regions n page m) head ns' (spec_merge page ps r qs) \<and> set ns' \<subseteq> set (xs @ n # ys) \<and>
    (\<forall>a. a \<notin> region_words head (xs @ n # ys) \<longrightarrow> merge_regions n page m a = m a)"
proof -
  have e: "ps = map (reg_at m) xs" "r = reg_at m n" "qs = map (reg_at m) ys"
    using regions_split [OF r] len by auto
  obtain r1 qs1 where mn: "merge_next page (reg_at m n) (map (reg_at m) ys) = (r1, qs1)" by fastforce
  let ?nxt = "list_entry (m (lnode n))"
  let ?m1 = "if reg_page_addr m ?nxt \<noteq> page \<and> reg_status m ?nxt = FREE
             then let m' = list_del (m (lnode n)) m in set_size n (reg_size m' n + reg_size m' ?nxt) m' else m"
  obtain ys1 where n1: "regions ?m1 head (xs @ n # ys1) (ps @ r1 # qs1)" "set ys1 \<subseteq> set ys"
    "\<And>a. a \<notin> region_words head (xs @ n # ys) \<Longrightarrow> ?m1 a = m a"
    using merge_next_ok [OF r q mn] unfolding e(1) by blast
  have prv: "list_entry (m (lnode n + 8)) = list_entry (last (head # map lnode xs))"
    using dlist_prev [of m head "map lnode xs" "lnode n" "map lnode ys"] r by (simp add: regions_def)
  have sub: "region_words head (xs @ n # ys1) \<subseteq> region_words head (xs @ n # ys)"
    by (rule region_words_mono) (use n1(2) in auto)
  obtain xs' where n2: "regions (merge_regions n page m) head (xs' @ n # ys1) (spec_merge page ps r qs)"
    "set xs' \<subseteq> set xs" "\<And>a. a \<notin> region_words head (xs @ n # ys1) \<Longrightarrow> merge_regions n page m a = ?m1 a"
    using merge_prev_ok [OF n1(1) len head_quiet_cong [OF q n1(3)]] mn
    unfolding merge_regions_def spec_merge_def Let_def prv e(2,3) by auto
  moreover have "merge_regions n page m a = m a" if "a \<notin> region_words head (xs @ n # ys)" for a
    using n2(3) [of a] n1(3) [OF that] sub that by auto
  ultimately show ?thesis using n1(2) by (intro exI [of _ "xs' @ n # ys1"]) auto
qed

section \<open>The other searches\<close>

lemma find_region_chain:
  assumes "chain m a (map lnode ns) head" "head \<notin> lnode ` set ns"
  shows "find_region m head (m a) page found =
    Some (last (found # filter (\<lambda>n. raddr (reg_at m n) = page) ns))"
  using assms
proof (induction ns arbitrary: a found)
  case Nil
  then show ?case by (subst find_region.simps) simp
next
  case (Cons n ns)
  then have ma: "m a = lnode n" "lnode n \<noteq> head" by auto
  have "find_region m head (lnode n) page found =
      find_region m head (m (lnode n)) page (if raddr (reg_at m n) = page then n else found)"
    using ma(2) by (subst find_region.simps) (simp add: reg_at_fields)
  then show ?case using Cons.IH [of "lnode n"] Cons.prems ma by simp
qed

definition holds :: "u64 \<Rightarrow> region \<Rightarrow> bool" where
  "holds address r \<longleftrightarrow> rstatus r = ALLOCATED \<and> raddr r \<le> address \<and> address < raddr r + 4096 * rsize r"

lemma check_range_chain:
  assumes "chain m a (map lnode ns) head" "head \<notin> lnode ` set ns"
  shows "check_range_loop m head (m a) address =
    Some (if \<exists>n \<in> set ns. holds address (reg_at m n) then ALLOCATED_ADDRESS_RANGE else NOT_VALID_RANGE)"
  using assms
proof (induction ns arbitrary: a)
  case Nil
  then show ?case by (subst check_range_loop.simps) simp
next
  case (Cons n ns)
  then have ma: "m a = lnode n" "lnode n \<noteq> head" by auto
  show ?case
  proof (cases "holds address (reg_at m n)")
    case True
    then show ?thesis using ma by (subst check_range_loop.simps) (simp add: holds_def reg_at_fields)
  next
    case False
    then have "check_range_loop m head (lnode n) address = check_range_loop m head (m (lnode n)) address"
      using ma(2) by (subst check_range_loop.simps) (auto simp: holds_def reg_at_fields)
    then show ?thesis using Cons.IH [of "lnode n"] Cons.prems ma False by simp
  qed
qed

lemma check_address_range_regions:
  assumes "regions m head ns rs"
  shows "check_address_range head address m =
    Some (if \<exists>r \<in> set rs. holds address r then ALLOCATED_ADDRESS_RANGE else NOT_VALID_RANGE)"
  using check_range_chain [of m head ns head address] assms
  by (auto simp: check_address_range_def regions_def dlist_def)

end
