(* ===== verification/File_IO.thy ===== *)
theory File_IO
  imports Prelude
begin

text \<open>
  The file interface of \<open>file_io.c\<close>, thin wrappers around the kernel's VFS plus the creation of
  a directory with its parents. The VFS itself is not part of the program: its functions are
  the fields of a record that every operation takes, over a file-system state of any type. The
  wrappers are those compiled for Linux 2.6.38, the version the module is built against.
\<close>

section \<open>The VFS functions used\<close>

text \<open>
  Files and dentries are pointers; the kernel returns an error as a pointer among the last 4095
  addresses. \<open>vfs_read\<close> returns the number of bytes read (or a negative error) and the bytes.
\<close>

record 'fs vfs =
  filp_open :: "string \<Rightarrow> u32 \<Rightarrow> 'fs \<Rightarrow> u64 \<times> 'fs"
  filp_close :: "u64 \<Rightarrow> 'fs \<Rightarrow> 'fs"
  vfs_getattr :: "u64 \<Rightarrow> 'fs \<Rightarrow> int \<times> u64"
  vfs_read :: "u64 \<Rightarrow> nat \<Rightarrow> u64 \<Rightarrow> 'fs \<Rightarrow> int \<times> u8 list \<times> 'fs"
  vfs_write :: "u64 \<Rightarrow> u8 list \<Rightarrow> u64 \<Rightarrow> 'fs \<Rightarrow> int \<times> 'fs"
  path_lookup :: "string \<Rightarrow> u32 \<Rightarrow> 'fs \<Rightarrow> int"
  lookup_create :: "string \<Rightarrow> 'fs \<Rightarrow> u64"
  vfs_mkdir :: "string \<Rightarrow> u64 \<Rightarrow> u32 \<Rightarrow> 'fs \<Rightarrow> int \<times> 'fs"

definition IS_ERR :: "u64 \<Rightarrow> bool" where
  "IS_ERR p \<longleftrightarrow> 0xfffffffffffff001 \<le> p"

definition O_RDWR :: u32 where "O_RDWR = 2"
definition O_LARGEFILE :: u32 where "O_LARGEFILE = 0x8000"
definition LOOKUP_FOLLOW :: u32 where "LOOKUP_FOLLOW = 1"
definition LOOKUP_DIRECTORY :: u32 where "LOOKUP_DIRECTORY = 2"
definition LOOKUP_PARENT :: u32 where "LOOKUP_PARENT = 16"

section \<open>Files\<close>

definition file_open :: "'fs vfs \<Rightarrow> string \<Rightarrow> u32 \<Rightarrow> 'fs \<Rightarrow> u64 \<times> 'fs" where
  "file_open v path mode fs =
     (let (file_ptr, fs') = filp_open v path (mode OR O_LARGEFILE) fs
      in if IS_ERR file_ptr then (0, fs') else (file_ptr, fs'))"

definition file_close :: "'fs vfs \<Rightarrow> u64 \<Rightarrow> 'fs \<Rightarrow> int \<times> 'fs" where
  "file_close v file_ptr fs = (0, filp_close v file_ptr fs)"

text \<open>The result \<open>-1\<close> is returned as an \<open>unsigned long long\<close>.\<close>

definition file_size :: "'fs vfs \<Rightarrow> u64 \<Rightarrow> 'fs \<Rightarrow> u64" where
  "file_size v file_ptr fs =
     (let (ret, sz) = vfs_getattr v file_ptr fs in if ret \<noteq> 0 then -1 else sz)"

definition file_read :: "'fs vfs \<Rightarrow> u64 \<Rightarrow> nat \<Rightarrow> u64 \<Rightarrow> 'fs \<Rightarrow> u64 \<times> u8 list \<times> 'fs" where
  "file_read v file_ptr len offset fs =
     (let (ret, data, fs') = vfs_read v file_ptr len offset fs in (of_int ret, data, fs'))"

definition file_write :: "'fs vfs \<Rightarrow> u64 \<Rightarrow> u8 list \<Rightarrow> u64 \<Rightarrow> 'fs \<Rightarrow> u64 \<times> 'fs" where
  "file_write v file_ptr buffer offset fs =
     (let (ret, fs') = vfs_write v file_ptr buffer offset fs in (of_int ret, fs'))"

section \<open>Directories\<close>

definition file_mkdir1 :: "'fs vfs \<Rightarrow> string \<Rightarrow> u16 \<Rightarrow> 'fs \<Rightarrow> int \<times> 'fs" where
  "file_mkdir1 v pathname perms fs =
     (if path_lookup v pathname (LOOKUP_DIRECTORY OR LOOKUP_FOLLOW) fs = 0 then (0, fs)
      else if path_lookup v pathname (LOOKUP_PARENT OR LOOKUP_FOLLOW) fs \<noteq> 0 then (-1, fs)
      else let dentry = lookup_create v pathname fs
           in if \<not> IS_ERR dentry then vfs_mkdir v pathname dentry (ucast perms) fs else (0, fs))"

definition is_print :: "char \<Rightarrow> bool" where
  "is_print a \<longleftrightarrow> (of_char a :: nat) \<ge> 32 \<and> (of_char a :: nat) \<le> 126"

text \<open>
  The scan from \<open>tmp_iter\<close> to the next slash or the end of the string; \<open>None\<close> at a character
  that is not printable. A path is a C string: a list of characters none of which is NUL,
  ended by one.
\<close>

function mkdir_scan :: "string \<Rightarrow> nat \<Rightarrow> nat option" where
  "mkdir_scan path i =
     (if i < length path \<and> path ! i \<noteq> CHR ''/'' then
        if \<not> is_print (path ! i) then None else mkdir_scan path (Suc i)
      else Some i)"
  by pat_completeness auto
termination
  by (relation "measure (\<lambda>(path, i). length path - i)") auto

declare mkdir_scan.simps [simp del]

lemma mkdir_scan_ge: "mkdir_scan path i = Some j \<Longrightarrow> i \<le> j"
proof (induction path i rule: mkdir_scan.induct)
  case (1 path i)
  then show ?case by (subst (asm) (2) mkdir_scan.simps) (auto split: if_splits)
qed

text \<open>
  The loop over the components: \<open>dirname\<close> is the offset of the current one. While a component
  is being created the slash behind it is overwritten with NUL, so the call gets the path up
  to \<open>tmp_iter\<close>. The test for empty components is \<open>tmp_iter - dirname_ptr > 1\<close>.
\<close>

function mkdir_loop :: "'fs vfs \<Rightarrow> string \<Rightarrow> u16 \<Rightarrow> nat \<Rightarrow> 'fs \<Rightarrow> int \<times> 'fs" where
  "mkdir_loop v path perms dirname fs =
     (case mkdir_scan path dirname of
        None \<Rightarrow> (-1, fs)
      | Some j \<Rightarrow>
          let at_end = \<not> j < length path;
              (ret, fs') = (if j - dirname > 1 then file_mkdir1 v (take j path) perms fs else (0, fs))
          in if ret \<noteq> 0 then (-1, fs')
             else if at_end then (0, fs')
             else mkdir_loop v path perms (Suc j) fs')"
  by pat_completeness auto
termination
  by (relation "measure (\<lambda>(v, path, perms, d, fs). length path - d)") (auto dest: mkdir_scan_ge)

declare mkdir_loop.simps [simp del]

definition mkdir_recursive :: "'fs vfs \<Rightarrow> string \<Rightarrow> u16 \<Rightarrow> 'fs \<Rightarrow> int \<times> 'fs" where
  "mkdir_recursive v path perms fs = mkdir_loop v path perms 0 fs"

definition file_mkdir :: "'fs vfs \<Rightarrow> string \<Rightarrow> u16 \<Rightarrow> int \<Rightarrow> 'fs \<Rightarrow> int \<times> 'fs" where
  "file_mkdir v pathname perms recurse fs =
     (if recurse \<noteq> 0 then mkdir_recursive v pathname perms fs else file_mkdir1 v pathname perms fs)"

section \<open>The directories that are created\<close>

text \<open>
  The reference: the components of a path as pairs of start and end, the prefixes of the path
  that end with a component of two characters or more, and the creation of a list of
  directories up to the first failure.
\<close>

fun segments :: "string \<Rightarrow> nat \<Rightarrow> nat \<Rightarrow> (nat \<times> nat) list" where
  "segments [] d j = [(d, j)]"
| "segments (c # cs) d j = (if c = CHR ''/'' then (d, j) # segments cs (Suc j) (Suc j) else segments cs d (Suc j))"

definition mkdir_targets :: "string \<Rightarrow> nat \<Rightarrow> string list" where
  "mkdir_targets path d = map (\<lambda>(d, j). take j path) (filter (\<lambda>(d, j). j - d > 1) (segments (drop d path) d d))"

fun mkdirs :: "'fs vfs \<Rightarrow> string list \<Rightarrow> u16 \<Rightarrow> 'fs \<Rightarrow> int \<times> 'fs" where
  "mkdirs v [] perms fs = (0, fs)"
| "mkdirs v (p # ps) perms fs =
     (let (ret, fs') = file_mkdir1 v p perms fs in if ret \<noteq> 0 then (-1, fs') else mkdirs v ps perms fs')"

definition path_ok :: "string \<Rightarrow> bool" where
  "path_ok path \<longleftrightarrow> (\<forall>c \<in> set path. is_print c)"

lemma segments_scan:
  assumes "path_ok path" "i \<le> length path" "d \<le> i"
  shows "\<exists>j. mkdir_scan path i = Some j \<and> i \<le> j \<and> j \<le> length path \<and>
    segments (drop i path) d i = (d, j) # (if j < length path then segments (drop (Suc j) path) (Suc j) (Suc j) else [])"
  using assms
proof (induction "length path - i" arbitrary: i)
  case 0
  then show ?case by (subst mkdir_scan.simps) auto
next
  case (Suc n)
  then have i: "i < length path" by simp
  then have dr: "drop i path = path ! i # drop (Suc i) path" by (rule Cons_nth_drop_Suc [symmetric])
  have pr: "is_print (path ! i)" using Suc.prems(1) i by (auto simp: path_ok_def)
  show ?case
  proof (cases "path ! i = CHR ''/''")
    case True
    then show ?thesis using i dr by (subst mkdir_scan.simps) simp
  next
    case False
    then have "mkdir_scan path i = mkdir_scan path (Suc i)" using i pr by (subst mkdir_scan.simps) simp
    moreover have "segments (drop i path) d i = segments (drop (Suc i) path) d (Suc i)" using dr False by simp
    moreover have "n = length path - Suc i" "Suc i \<le> length path" "d \<le> Suc i" using Suc.hyps(2) Suc.prems i by auto
    note Suc.hyps(1) [OF this(1) Suc.prems(1) this(2,3)]
    ultimately show ?thesis by (metis Suc_leD)
  qed
qed

lemma mkdir_loop_targets:
  assumes "path_ok path" "d \<le> length path"
  shows "mkdir_loop v path perms d fs = mkdirs v (mkdir_targets path d) perms fs"
  using assms(2)
proof (induction "length path - d" arbitrary: d fs rule: less_induct)
  case less
  obtain j where j: "mkdir_scan path d = Some j" "d \<le> j" "j \<le> length path"
    "segments (drop d path) d d = (d, j) # (if j < length path then segments (drop (Suc j) path) (Suc j) (Suc j) else [])"
    using segments_scan [OF assms(1) less.prems] by blast
  have t: "mkdir_targets path d = (if j - d > 1 then [take j path] else []) @
      (if j < length path then mkdir_targets path (Suc j) else [])"
    by (simp add: mkdir_targets_def j(4))
  have "mkdir_loop v path perms (Suc j) fs' = mkdirs v (mkdir_targets path (Suc j)) perms fs'"
    if "j < length path" for fs'
    using less.hyps [of "Suc j"] that j(2) by simp
  then show ?case
    unfolding t by (subst mkdir_loop.simps) (auto simp: j(1) Let_def split: prod.splits)
qed

lemma mkdir_scan_invalid:
  "mkdir_scan path i = Some j \<Longrightarrow> i \<le> k \<Longrightarrow> k < j \<Longrightarrow> is_print (path ! k)"
proof (induction path i rule: mkdir_scan.induct)
  case (1 path i)
  then show ?case
    by (subst (asm) (2) mkdir_scan.simps) (cases "k = i"; auto split: if_splits simp: Suc_le_eq)
qed

lemma mkdir_scan_stop:
  "mkdir_scan path i = Some j \<Longrightarrow> i \<le> length path \<Longrightarrow> j < length path \<Longrightarrow> path ! j = CHR ''/''"
proof (induction path i rule: mkdir_scan.induct)
  case (1 path i)
  then show ?case
    by (subst (asm) (2) mkdir_scan.simps) (auto split: if_splits)
qed

lemma mkdir_loop_invalid:
  "k < length path \<Longrightarrow> \<not> is_print (path ! k) \<Longrightarrow> d \<le> k \<Longrightarrow> fst (mkdir_loop v path perms d fs) = -1"
proof (induction v path perms d fs rule: mkdir_loop.induct)
  case (1 v path perms d fs)
  show ?case
  proof (cases "mkdir_scan path d")
    case None
    then show ?thesis by (subst mkdir_loop.simps) simp
  next
    case (Some j)
    have "j \<le> k" using mkdir_scan_invalid [OF Some 1(4)] 1(3) by (meson leI)
    moreover have "j \<noteq> k" using mkdir_scan_stop [OF Some] 1(2-4) by (auto simp: is_print_def)
    ultimately have j: "j < length path" "Suc j \<le> k" using 1(2) by auto
    let ?r = "if j - d > 1 then file_mkdir1 v (take j path) perms fs else (0, fs)"
    obtain ret fs' where r: "?r = (ret, fs')" by (cases ?r)
    show ?thesis
    proof (cases "ret = 0")
      case True
      have "fst (mkdir_loop v path perms (Suc j) fs') = -1"
        by (rule 1(1) [OF Some _ r [symmetric]]) (use j 1 True in auto)
      then show ?thesis using j True r Some by (subst mkdir_loop.simps) (simp add: Let_def)
    next
      case False
      then show ?thesis using r Some by (subst mkdir_loop.simps) (simp add: Let_def)
    qed
  qed
qed


text \<open>A file system that records the directories made, for the witnesses.\<close>

definition demo_vfs :: "string list vfs" where
  "demo_vfs = \<lparr>filp_open = \<lambda>p m fs. (0x1000, fs), filp_close = \<lambda>f fs. fs, vfs_getattr = \<lambda>f fs. (0, 0),
     vfs_read = \<lambda>f n off fs. (0, [], fs), vfs_write = \<lambda>f bs off fs. (int (length bs), fs),
     path_lookup = \<lambda>p fl fs. (if p \<in> set fs then 0 else if fl AND LOOKUP_PARENT \<noteq> 0 then 0 else -2),
     lookup_create = \<lambda>p fs. 0x2000, vfs_mkdir = \<lambda>p d m fs. (0, p # fs)\<rparr>"


text \<open>
  A component of one character is taken for an empty one: the directory is not created, and
  the call reports success.
\<close>

theorem mkdir_skips_short:
  assumes "is_print c" "c \<noteq> CHR ''/''"
  shows "mkdir_recursive v [CHR ''/'', c] perms fs = (0, fs)"
proof -
  have "path_ok [CHR ''/'', c]" using assms(1) by (simp add: path_ok_def is_print_def)
  moreover have "mkdir_targets [CHR ''/'', c] 0 = []" using assms(2) by (simp add: mkdir_targets_def)
  ultimately show ?thesis by (simp add: mkdir_recursive_def mkdir_loop_targets)
qed

theorem mkdir_skips_short_witness: "mkdir_recursive demo_vfs ''/a'' 0 [] = (0, [])"
  by (rule mkdir_skips_short) (simp_all add: is_print_def)

end
