(* ===== verification/Swap.thy ===== *)
theory Swap
  imports File_IO Bitops
begin

text \<open>
  The swap space of \<open>swap.c\<close>: a file of 4 KB slots and a bitmap, one bit per slot, in a
  \<open>kmalloc\<close>ed byte array. An access past the end of the array is \<open>OOB\<close>. The abstract view is a
  partial map from slots to pages; \<open>swap_out_page\<close> and \<open>swap_in_page\<close> refine insertion at the
  first free slot and removal, on any file that stores what is written to it.
\<close>

section \<open>State and operations\<close>

record swap_space =
  swap_file :: u64
  alloc_map :: "u8 list"
  swap_size :: u64

text \<open>
  \<open>swap_init\<close> reads the bitmap from the start of the swap file into fresh memory, whose
  contents before that are \<open>junk\<close>. \<open>BITS_IN_A_BYTE\<close> is 3 in the source.
\<close>

definition BITS_IN_A_BYTE :: nat where "BITS_IN_A_BYTE = 3"

definition map_bytes :: "u32 \<Rightarrow> u32" where
  "map_bytes pages =
     (let char_map_page_size = drop_bit BITS_IN_A_BYTE pages
      in if char_map_page_size mod 3 \<noteq> 0 then char_map_page_size + 1 else char_map_page_size)"

definition overwrite :: "'a list \<Rightarrow> 'a list \<Rightarrow> 'a list" where
  "overwrite data old = data @ drop (length data) old"

definition swap_init :: "'fs vfs \<Rightarrow> (nat \<Rightarrow> u8 list) \<Rightarrow> 'fs \<Rightarrow> swap_space option \<times> 'fs" where
  "swap_init v junk fs =
     (let (f, fs1) = file_open v ''/tmp/cs2510.swap'' O_RDWR fs
      in if f = 0 then (None, fs1)
         else let pages = (ucast (drop_bit 12 (file_size v f fs1)) :: u32);
                  n = unat (map_bytes pages);
                  (ret, data, fs2) = file_read v f n 0 fs1
              in (Some \<lparr>swap_file = f, alloc_map = overwrite data (junk n), swap_size = ucast pages\<rparr>, fs2))"

text \<open>\<open>alloc_map\<close> holds \<open>char\<close>s: a byte is sign-extended to \<open>int\<close> before the bit is picked.\<close>

definition check_bitmap :: "swap_space \<Rightarrow> u32 \<Rightarrow> int outcome" where
  "check_bitmap swap index =
     (if ucast index < swap_size swap then
        let byte_location = unat (drop_bit 3 index); bit_location = unat (index mod 8)
        in if byte_location < length (alloc_map swap) then
             let b = (scast (alloc_map swap ! byte_location) :: u32)
             in Inr (sint (drop_bit bit_location (b AND push_bit bit_location 1)))
           else Inl OOB
      else Inr (-1))"

definition put_value :: "swap_space \<Rightarrow> u32 \<Rightarrow> u8 \<Rightarrow> swap_space outcome" where
  "put_value swap index val =
     (if ucast index < swap_size swap then
        let byte_location = unat (drop_bit 3 index); bit_location = unat (index mod 8)
        in if byte_location < length (alloc_map swap) then
             let b = alloc_map swap ! byte_location;
                 b1 = b AND NOT (push_bit bit_location 1);
                 b2 = b1 OR push_bit bit_location val
             in Inr (swap\<lparr>alloc_map := (alloc_map swap)[byte_location := b2]\<rparr>)
           else Inl OOB
      else Inr swap)"

definition swap_free :: "'fs vfs \<Rightarrow> swap_space \<Rightarrow> 'fs \<Rightarrow> 'fs" where
  "swap_free v swap fs = snd (file_close v (swap_file swap) fs)"

text \<open>
  The offsets in the file: in \<open>swap_out_page\<close> the product \<open>i * 4096\<close> is an \<open>int\<close>, which becomes an
  \<open>unsigned long long\<close>; in \<open>swap_in_page\<close> \<open>index * 4096\<close> is a \<open>u32\<close>.
\<close>

definition out_offset :: "nat \<Rightarrow> u64" where
  "out_offset i = scast (of_nat i * 4096 :: u32)"

definition in_offset :: "u32 \<Rightarrow> u64" where
  "in_offset index = ucast (index * 4096)"

function swap_out_loop ::
    "'fs vfs \<Rightarrow> swap_space \<Rightarrow> u32 \<Rightarrow> u8 list \<Rightarrow> nat \<Rightarrow> 'fs \<Rightarrow> (u32 \<times> swap_space \<times> 'fs) outcome" where
  "swap_out_loop v swap index page i fs =
     (if i < unat (swap_size swap) then
        ebind (check_bitmap swap (of_nat i)) (\<lambda>r.
          if r = 0 then
            ebind (put_value swap (of_nat i) 1) (\<lambda>swap'.
              let (ret, fs') = file_write v (swap_file swap') page (out_offset i) fs
              in Inr (of_nat i, swap', fs'))
          else swap_out_loop v swap index page (Suc i) fs)
      else Inr (index, swap, fs))"
  by pat_completeness auto
termination
  by (relation "measure (\<lambda>(v, swap, index, page, i, fs). unat (swap_size swap) - i)") auto

declare swap_out_loop.simps [simp del]

text \<open>Result: the return value, which is always \<open>-1\<close>, \<open>*index\<close>, the swap space and the files.\<close>

definition swap_out_page ::
    "'fs vfs \<Rightarrow> swap_space \<Rightarrow> u32 \<Rightarrow> u8 list \<Rightarrow> 'fs \<Rightarrow> (int \<times> u32 \<times> swap_space \<times> 'fs) outcome" where
  "swap_out_page v swap index page fs =
     ebind (swap_out_loop v swap index page 0 fs) (\<lambda>(index', swap', fs'). Inr (-1, index', swap', fs'))"

definition swap_in_page ::
    "'fs vfs \<Rightarrow> swap_space \<Rightarrow> u32 \<Rightarrow> u8 list \<Rightarrow> 'fs \<Rightarrow> (int \<times> u8 list \<times> swap_space \<times> 'fs) outcome" where
  "swap_in_page v swap index dst_page fs =
     (let (ret, data, fs') = file_read v (swap_file swap) 4096 (in_offset index) fs
      in ebind (put_value swap index 0) (\<lambda>swap'. Inr (0, overwrite data dst_page, swap', fs')))"

section \<open>The bitmap\<close>

text \<open>The bitmap has a bit for every slot, and slots are numbered below \<open>2 ^ 31\<close>.\<close>

definition map_ok :: "swap_space \<Rightarrow> bool" where
  "map_ok swap \<longleftrightarrow> unat (swap_size swap) \<le> 8 * length (alloc_map swap) \<and> unat (swap_size swap) < 2 ^ 31"

definition is_slot :: "swap_space \<Rightarrow> nat \<Rightarrow> bool" where
  "is_slot swap i \<longleftrightarrow> map_ok swap \<and> i < unat (swap_size swap)"

definition used :: "swap_space \<Rightarrow> nat \<Rightarrow> bool" where
  "used swap i \<longleftrightarrow> check_bitmap swap (of_nat i) = Inr 1"

definition put_slot :: "swap_space \<Rightarrow> nat \<Rightarrow> bool \<Rightarrow> swap_space" where
  "put_slot swap i b = projr (put_value swap (of_nat i) (if b then 1 else 0))"

lemma slot_index:
  assumes "i < 2 ^ 31"
  shows "unat (of_nat i :: u32) = i" "unat (drop_bit 3 (of_nat i :: u32)) = i div 8"
    "unat ((of_nat i :: u32) mod 8) = i mod 8" "unat (ucast (of_nat i :: u32) :: u64) = i"
proof -
  show u: "unat (of_nat i :: u32) = i" using assms by (simp add: unat_of_nat take_bit_nat_eq_self)
  show "unat (drop_bit 3 (of_nat i :: u32)) = i div 8" unfolding unat_drop_bit u by simp
  show "unat ((of_nat i :: u32) mod 8) = i mod 8" using u by (simp add: unat_mod)
  show "unat (ucast (of_nat i :: u32) :: u64) = i"
    using u assms by (simp add: unsigned_ucast_eq take_bit_nat_eq_self)
qed

lemma slot_less: "is_slot swap i \<Longrightarrow> (ucast (of_nat i :: u32) :: u64) < swap_size swap"
  and slot_byte: "is_slot swap i \<Longrightarrow> i div 8 < length (alloc_map swap)"
  and slot_31: "is_slot swap i \<Longrightarrow> i < 2 ^ 31"
  using slot_index(4) [of i] by (auto simp: is_slot_def map_ok_def word_less_nat_alt)

lemma pick_bit:
  assumes "k < 8"
  shows "sint (drop_bit k ((scast (b :: u8) :: u32) AND push_bit k 1)) = of_bool (bit b k)"
proof -
  have "drop_bit k ((scast b :: u32) AND push_bit k 1) = of_bool (bit b k)"
    using assms by (intro bit_word_eqI) (auto simp: bit_simps)
  then show ?thesis by simp
qed

lemma check_bitmap_slot:
  assumes "is_slot swap i"
  shows "check_bitmap swap (of_nat i) = Inr (of_bool (bit (alloc_map swap ! (i div 8)) (i mod 8)))"
  unfolding check_bitmap_def slot_index [OF slot_31 [OF assms]] Let_def
  using slot_less [OF assms] slot_byte [OF assms] by (simp only: pick_bit if_True mod_less_divisor zero_less_numeral)

lemma put_value_slot:
  assumes "is_slot swap i"
  shows "put_value swap (of_nat i) val = Inr (swap\<lparr>alloc_map := (alloc_map swap)[i div 8 :=
     (alloc_map swap ! (i div 8) AND NOT (push_bit (i mod 8) 1)) OR push_bit (i mod 8) val]\<rparr>)"
  unfolding put_value_def slot_index [OF slot_31 [OF assms]] Let_def
  using slot_less [OF assms] slot_byte [OF assms] by simp

lemma put_value_put_slot:
  "is_slot swap i \<Longrightarrow> put_value swap (of_nat i) (if b then 1 else 0) = Inr (put_slot swap i b)"
  by (simp add: put_slot_def put_value_slot)

lemma put_slot_fields [simp]:
  assumes "is_slot swap i"
  shows "swap_size (put_slot swap i b) = swap_size swap" "swap_file (put_slot swap i b) = swap_file swap"
    "length (alloc_map (put_slot swap i b)) = length (alloc_map swap)"
  using assms by (simp_all add: put_slot_def put_value_slot)

lemma is_slot_put_slot [simp]: "is_slot swap i \<Longrightarrow> is_slot (put_slot swap i b) j = is_slot swap j"
  by (simp add: is_slot_def map_ok_def)

lemma used_slot: "is_slot swap i \<Longrightarrow> used swap i \<longleftrightarrow> bit (alloc_map swap ! (i div 8)) (i mod 8)"
  by (simp add: used_def check_bitmap_slot)

lemma used_put_slot:
  assumes i: "is_slot swap i" and j: "is_slot swap j"
  shows "used (put_slot swap i b) j = (if j = i then b else used swap j)"
proof -
  have ij: "j = i \<longleftrightarrow> j div 8 = i div 8 \<and> j mod 8 = i mod 8" by (metis div_mult_mod_eq)
  have "alloc_map (put_slot swap i b) = (alloc_map swap)[i div 8 :=
     (alloc_map swap ! (i div 8) AND NOT (push_bit (i mod 8) 1)) OR push_bit (i mod 8) (if b then 1 else 0)]"
    by (simp add: put_slot_def put_value_slot [OF i])
  then show ?thesis
    unfolding used_slot [OF j] used_slot [OF iffD2 [OF is_slot_put_slot [OF i] j]] ij
    using slot_byte [OF i] by (cases "j div 8 = i div 8") (auto simp: bit_simps)
qed

text \<open>The allocation map behaves as the array of bits the buddy tags are.\<close>

definition put_bit_at :: "swap_space \<Rightarrow> nat \<Rightarrow> bool \<Rightarrow> swap_space" where
  "put_bit_at swap i b = (if is_slot swap i then put_slot swap i b else swap)"

interpretation sbit: bit_array is_slot used put_bit_at
  by unfold_locales (simp_all add: put_bit_at_def used_put_slot)

section \<open>Slots of the file\<close>

text \<open>Both offset computations are right below \<open>2 ^ 19\<close> slots (2 GB of swap).\<close>

definition slot_offset :: "nat \<Rightarrow> u64" where
  "slot_offset i = of_nat (4096 * i)"

lemma unat_slot_offset: "i < 2 ^ 19 \<Longrightarrow> unat (slot_offset i) = 4096 * i"
  unfolding slot_offset_def by (rule unat_of_nat_u64) simp

lemma in_offset_slot: "i < 2 ^ 19 \<Longrightarrow> in_offset (of_nat i) = slot_offset i"
proof -
  assume i: "i < 2 ^ 19"
  then have "unat (of_nat (i * 4096) :: u32) = i * 4096"
    by (simp only: unsigned_of_nat) (simp add: take_bit_nat_eq_self)
  then have "unat (in_offset (of_nat i)) = 4096 * i"
    using i by (simp add: in_offset_def unsigned_ucast_eq take_bit_nat_eq_self)
  then show ?thesis using unat_slot_offset [OF i] by (simp add: word_unat_eq_iff)
qed

lemma out_offset_slot: "i < 2 ^ 19 \<Longrightarrow> out_offset i = slot_offset i"
  using scast_of_nat_u32 [of "4096 * i"] by (simp add: out_offset_def slot_offset_def mult.commute)

text \<open>
  What the swap code relies on of the file behind it, for the first \<open>n\<close> bytes: a write inside
  them is done in full, reads back and leaves all other bytes; a read inside them is done in full.
\<close>

definition file_ok :: "'fs vfs \<Rightarrow> u64 \<Rightarrow> nat \<Rightarrow> bool" where
  "file_ok v f n \<longleftrightarrow>
     (\<forall>fs off bs. unat off + length bs \<le> n \<longrightarrow>
        (\<exists>fs'. vfs_write v f bs off fs = (int (length bs), fs') \<and>
           fst (snd (vfs_read v f (length bs) off fs')) = bs \<and>
           (\<forall>off' k. unat off' + k \<le> n \<and> (unat off' + k \<le> unat off \<or> unat off + length bs \<le> unat off') \<longrightarrow>
              fst (snd (vfs_read v f k off' fs')) = fst (snd (vfs_read v f k off' fs))))) \<and>
     (\<forall>fs off k. unat off + k \<le> n \<longrightarrow> (\<exists>bs. vfs_read v f k off fs = (int k, bs, fs) \<and> length bs = k))"

lemma file_ok_write:
  assumes "file_ok v f n" "unat off + length bs \<le> n"
  obtains fs' where "vfs_write v f bs off fs = (int (length bs), fs')"
    "fst (snd (vfs_read v f (length bs) off fs')) = bs"
    "\<And>off' k. unat off' + k \<le> n \<Longrightarrow> unat off' + k \<le> unat off \<or> unat off + length bs \<le> unat off' \<Longrightarrow>
       fst (snd (vfs_read v f k off' fs')) = fst (snd (vfs_read v f k off' fs))"
  using assms unfolding file_ok_def by blast

lemma file_ok_read:
  assumes "file_ok v f n" "unat off + k \<le> n"
  obtains bs where "vfs_read v f k off fs = (int k, bs, fs)" "length bs = k"
  using assms unfolding file_ok_def by blast

definition slot_page :: "'fs vfs \<Rightarrow> swap_space \<Rightarrow> 'fs \<Rightarrow> nat \<Rightarrow> u8 list" where
  "slot_page v swap fs i = fst (snd (vfs_read v (swap_file swap) 4096 (slot_offset i) fs))"

text \<open>A swap space the code handles: a full map and at most 2 GB, all of it in the file.\<close>

definition swap_ok :: "'fs vfs \<Rightarrow> swap_space \<Rightarrow> bool" where
  "swap_ok v swap \<longleftrightarrow> map_ok swap \<and> unat (swap_size swap) \<le> 2 ^ 19 \<and>
     file_ok v (swap_file swap) (4096 * unat (swap_size swap))"

text \<open>The abstract swap space: the pages it holds.\<close>

definition swap_abs :: "'fs vfs \<Rightarrow> swap_space \<Rightarrow> 'fs \<Rightarrow> nat \<rightharpoonup> u8 list" where
  "swap_abs v swap fs i = (if is_slot swap i \<and> used swap i then Some (slot_page v swap fs i) else None)"

lemma swap_ok_put_slot: "swap_ok v swap \<Longrightarrow> is_slot swap i \<Longrightarrow> swap_ok v (put_slot swap i b)"
  by (simp add: swap_ok_def map_ok_def)

lemma swap_write_slot:
  assumes ok: "swap_ok v swap" and i: "is_slot swap i" and page: "length page = 4096"
  obtains fs' where "file_write v (swap_file swap) page (out_offset i) fs = (4096, fs')"
    "\<And>j. is_slot swap j \<Longrightarrow> slot_page v swap fs' j = (if j = i then page else slot_page v swap fs j)"
proof -
  let ?n = "unat (swap_size swap)" and ?f = "swap_file swap"
  have fo: "file_ok v ?f (4096 * ?n)" and n: "?n \<le> 2 ^ 19" using ok by (auto simp: swap_ok_def)
  have lt: "j < 2 ^ 19 \<and> j < ?n" if "is_slot swap j" for j using that n by (simp add: is_slot_def)
  have off: "unat (slot_offset j) = 4096 * j" if "is_slot swap j" for j
    using lt [OF that] by (simp add: unat_slot_offset)
  have "unat (slot_offset i) + length page \<le> 4096 * ?n" using off [OF i] lt [OF i] page by simp
  from this obtain fs' where w: "vfs_write v ?f page (slot_offset i) fs = (4096, fs')"
    "fst (snd (vfs_read v ?f 4096 (slot_offset i) fs')) = page"
    "\<And>off' k. unat off' + k \<le> 4096 * ?n \<Longrightarrow> unat off' + k \<le> unat (slot_offset i) \<or> unat (slot_offset i) + 4096 \<le> unat off' \<Longrightarrow>
       fst (snd (vfs_read v ?f k off' fs')) = fst (snd (vfs_read v ?f k off' fs))"
    by (rule file_ok_write [OF fo, where fs = fs]) (simp add: page)
  have "slot_page v swap fs' j = (if j = i then page else slot_page v swap fs j)" if j: "is_slot swap j" for j
  proof (cases "j = i")
    case True
    then show ?thesis using w(2) by (simp add: slot_page_def)
  next
    case False
    have "fst (snd (vfs_read v ?f 4096 (slot_offset j) fs')) = fst (snd (vfs_read v ?f 4096 (slot_offset j) fs))"
      by (rule w(3)) (use off [OF i] off [OF j] lt [OF j] False in \<open>auto simp: not_le\<close>)
    then show ?thesis using False by (simp add: slot_page_def)
  qed
  moreover have "file_write v ?f page (out_offset i) fs = (4096, fs')"
    using w(1) lt [OF i] by (simp add: file_write_def out_offset_slot)
  ultimately show thesis using that by blast
qed

section \<open>Swapping out and in\<close>

text \<open>The slot a page goes to: the first one not in use.\<close>

definition first_free :: "swap_space \<Rightarrow> nat \<Rightarrow> nat option" where
  "first_free swap i = List.find (\<lambda>k. \<not> used swap k) [i ..< unat (swap_size swap)]"

lemma swap_out_loop_eq:
  assumes ok: "map_ok swap"
  shows "swap_out_loop v swap index page i fs =
    (case first_free swap i of
       None \<Rightarrow> Inr (index, swap, fs)
     | Some k \<Rightarrow> Inr (of_nat k, put_slot swap k True,
                  snd (file_write v (swap_file swap) page (out_offset k) fs)))"
proof (induction "unat (swap_size swap) - i" arbitrary: i)
  case 0
  then show ?case by (subst swap_out_loop.simps) (simp add: first_free_def)
next
  case (Suc n)
  then have i: "i < unat (swap_size swap)" by simp
  then have sl: "is_slot swap i" using ok by (simp add: is_slot_def)
  have ff: "first_free swap i = (if used swap i then first_free swap (Suc i) else Some i)"
    using i by (simp add: first_free_def upt_conv_Cons)
  show ?case
  proof (cases "used swap i")
    case True
    then have "check_bitmap swap (of_nat i) = Inr 1" by (simp add: used_def)
    then show ?thesis using Suc.hyps(1) [of "Suc i"] Suc.hyps(2) True ff i by (subst swap_out_loop.simps) simp
  next
    case False
    then have "check_bitmap swap (of_nat i) = Inr 0" using sl by (simp add: check_bitmap_slot used_slot)
    moreover have "put_value swap (of_nat i) 1 = Inr (put_slot swap i True)"
      using put_value_put_slot [OF sl, of True] by simp
    ultimately show ?thesis
      using False ff i sl by (subst swap_out_loop.simps) (simp add: split_def)
  qed
qed

lemma swap_out_page_refines:
  assumes ok: "swap_ok v swap" and page: "length page = 4096"
  shows "\<exists>index' swap' fs'. swap_out_page v swap index page fs = Inr (-1, index', swap', fs') \<and> swap_ok v swap' \<and>
    (case List.find (\<lambda>k. swap_abs v swap fs k = None) [0 ..< unat (swap_size swap)] of
       None \<Rightarrow> index' = index \<and> swap' = swap \<and> fs' = fs
     | Some k \<Rightarrow> index' = of_nat k \<and> swap_abs v swap' fs' = (swap_abs v swap fs)(k \<mapsto> page))"
proof -
  have m: "map_ok swap" using ok by (simp add: swap_ok_def)
  have "List.find (\<lambda>k. swap_abs v swap fs k = None) [0 ..< unat (swap_size swap)] = first_free swap 0"
    unfolding first_free_def by (rule find_cong) (use m in \<open>auto simp: swap_abs_def is_slot_def\<close>)
  moreover have "\<exists>index' swap' fs'. swap_out_page v swap index page fs = Inr (-1, index', swap', fs') \<and> swap_ok v swap' \<and>
    (case first_free swap 0 of
       None \<Rightarrow> index' = index \<and> swap' = swap \<and> fs' = fs
     | Some k \<Rightarrow> index' = of_nat k \<and> swap_abs v swap' fs' = (swap_abs v swap fs)(k \<mapsto> page))"
  proof (cases "first_free swap 0")
    case None
    then show ?thesis using ok by (simp add: swap_out_page_def swap_out_loop_eq [OF m])
  next
    case (Some k)
    then have k: "is_slot swap k"
      using m by (auto simp: first_free_def find_Some_iff is_slot_def)
    obtain fs' where w: "file_write v (swap_file swap) page (out_offset k) fs = (4096, fs')"
      "\<And>j. is_slot swap j \<Longrightarrow> slot_page v swap fs' j = (if j = k then page else slot_page v swap fs j)"
      using swap_write_slot [OF ok k page] by blast
    have "swap_abs v (put_slot swap k True) fs' = (swap_abs v swap fs)(k \<mapsto> page)"
      using w(2) k by (auto simp: swap_abs_def fun_eq_iff used_put_slot slot_page_def split: if_splits)
    then show ?thesis
      using Some w(1) swap_ok_put_slot [OF ok k] by (simp add: swap_out_page_def swap_out_loop_eq [OF m])
  qed
  ultimately show ?thesis by simp
qed

text \<open>
  C12. \<open>swap_out_page\<close> of a page puts it into the first free slot, whose number it returns in
  \<open>*index\<close>: afterwards the swap space holds exactly the pages it held and that one. When no slot
  is free, nothing is stored and \<open>*index\<close> is left as it was; the caller cannot tell, since the
  return value is \<open>-1\<close> either way.
\<close>

theorem swap_out_page_correct:
  assumes ok: "swap_ok v swap" and page: "length page = 4096"
  shows "\<exists>index' swap' fs'. swap_out_page v swap index page fs = Inr (-1, index', swap', fs') \<and> swap_ok v swap' \<and>
    (case List.find (\<lambda>k. swap_abs v swap fs k = None) [0 ..< unat (swap_size swap)] of
       None \<Rightarrow> index' = index \<and> swap' = swap \<and> fs' = fs
     | Some k \<Rightarrow> index' = of_nat k \<and> swap_abs v swap' fs' = (swap_abs v swap fs)(k \<mapsto> page))"
  using assms by (rule swap_out_page_refines)

lemma swap_in_page_refines:
  assumes ok: "swap_ok v swap" and k: "swap_abs v swap fs k = Some page" and dst: "length dst = 4096"
  shows "\<exists>swap'. swap_in_page v swap (of_nat k) dst fs = Inr (0, page, swap', fs) \<and> swap_ok v swap' \<and>
    swap_abs v swap' fs = (swap_abs v swap fs)(k := None)"
proof -
  have sl: "is_slot swap k" and pg: "page = slot_page v swap fs k" using k by (auto simp: swap_abs_def split: if_splits)
  have lt: "k < 2 ^ 19" "k < unat (swap_size swap)" using sl ok by (auto simp: is_slot_def swap_ok_def)
  have "file_ok v (swap_file swap) (4096 * unat (swap_size swap))" using ok by (simp add: swap_ok_def)
  moreover have "unat (slot_offset k) + 4096 \<le> 4096 * unat (swap_size swap)" using lt by (simp add: unat_slot_offset)
  ultimately obtain bs where r: "vfs_read v (swap_file swap) 4096 (slot_offset k) fs = (4096, bs, fs)" "length bs = 4096"
    using file_ok_read [of v "swap_file swap" _ "slot_offset k" 4096 fs] by (metis of_nat_numeral)
  have "swap_in_page v swap (of_nat k) dst fs = Inr (0, page, put_slot swap k False, fs)"
    using r dst pg put_value_put_slot [OF sl, of False] lt(1)
    by (simp add: swap_in_page_def file_read_def in_offset_slot overwrite_def slot_page_def)
  moreover have "swap_abs v (put_slot swap k False) fs = (swap_abs v swap fs)(k := None)"
    using sl by (auto simp: swap_abs_def fun_eq_iff used_put_slot slot_page_def split: if_splits)
  ultimately show ?thesis using swap_ok_put_slot [OF ok sl] by blast
qed

text \<open>
  C21. \<open>swap_in_page\<close> of a slot in use delivers the page that was put there and frees the slot;
  all other pages stay.
\<close>

theorem swap_in_page_correct:
  assumes ok: "swap_ok v swap" and k: "swap_abs v swap fs k = Some page" and dst: "length dst = 4096"
  shows "\<exists>swap'. swap_in_page v swap (of_nat k) dst fs = Inr (0, page, swap', fs) \<and> swap_ok v swap' \<and>
    swap_abs v swap' fs = (swap_abs v swap fs)(k := None)"
  using assms by (rule swap_in_page_refines)

text \<open>A file as an array of bytes, and a swap space of 16 slots on it, for the witnesses.\<close>

definition array_vfs :: "u64 \<Rightarrow> (nat \<Rightarrow> u8) vfs" where
  "array_vfs sz = \<lparr>filp_open = \<lambda>p m fs. (0x1000, fs), filp_close = \<lambda>f fs. fs, vfs_getattr = \<lambda>f fs. (0, sz),
     vfs_read = \<lambda>f n off fs. (int n, map fs [unat off ..< unat off + n], fs),
     vfs_write = \<lambda>f bs off fs. (int (length bs),
       \<lambda>i. if unat off \<le> i \<and> i < unat off + length bs then bs ! (i - unat off) else fs i),
     path_lookup = \<lambda>p fl fs. 0, lookup_create = \<lambda>p fs. 0, vfs_mkdir = \<lambda>p d m fs. (0, fs)\<rparr>"

lemma array_file_ok: "file_ok (array_vfs sz) f n"
  by (auto simp: file_ok_def array_vfs_def intro: nth_equalityI)

definition demo_swap :: swap_space where
  "demo_swap = \<lparr>swap_file = 0x1000, alloc_map = [3, 0], swap_size = 16\<rparr>"

lemma demo_swap_ok: "swap_ok (array_vfs sz) demo_swap"
  by (simp add: swap_ok_def map_ok_def demo_swap_def array_file_ok)

lemma demo_swap_used: "map (used demo_swap) [0 ..< 4] = [True, True, False, False]"
  by code_simp

theorem swap_out_page_correct_witness:
  "\<exists>index' swap' fs'. swap_out_page (array_vfs 65536) demo_swap 7 (replicate 4096 1) (\<lambda>_. 0) =
     Inr (-1, index', swap', fs') \<and> swap_ok (array_vfs 65536) swap'"
  using swap_out_page_correct [OF demo_swap_ok, of "replicate 4096 1" 65536 7 "\<lambda>_. 0"] by auto

theorem swap_in_page_correct_witness:
  "\<exists>swap'. swap_in_page (array_vfs 65536) demo_swap (of_nat 1) (replicate 4096 0) (\<lambda>_. 9) =
     Inr (0, replicate 4096 9, swap', \<lambda>_. 9) \<and> swap_ok (array_vfs 65536) swap'"
proof -
  have "is_slot demo_swap 1" by (simp add: is_slot_def map_ok_def demo_swap_def)
  moreover have "used demo_swap 1" using demo_swap_used by (simp add: upt_conv_Cons)
  moreover have "slot_page (array_vfs 65536) demo_swap (\<lambda>_. 9) 1 = replicate 4096 9"
    by (simp add: slot_page_def array_vfs_def map_replicate_const)
  ultimately have "swap_abs (array_vfs 65536) demo_swap (\<lambda>_. 9) 1 = Some (replicate 4096 9)"
    by (simp add: swap_abs_def)
  from swap_in_page_correct [OF demo_swap_ok this, of "replicate 4096 0"] show ?thesis by auto
qed

lemma unat_map_bytes:
  "unat (map_bytes pages) = unat pages div 8 + (if unat pages div 8 mod 3 \<noteq> 0 then 1 else 0)"
proof -
  let ?c = "drop_bit BITS_IN_A_BYTE pages"
  have c: "unat ?c = unat pages div 8" unfolding unat_drop_bit BITS_IN_A_BYTE_def by simp
  have m: "?c mod 3 \<noteq> 0 \<longleftrightarrow> unat pages div 8 mod 3 \<noteq> 0"
  proof -
    have "unat (?c mod 3) = unat pages div 8 mod 3" using c by (simp add: unat_mod)
    then show ?thesis by (metis unat_eq_zero)
  qed
  have "unat (?c + 1) = unat ?c + 1"
    using c unat_less_pow2 [of pages] by (intro trans [OF unat_add_small]) simp_all
  then show ?thesis unfolding map_bytes_def Let_def m using c by simp
qed

lemma div_pred8: "n mod 8 \<noteq> 0 \<Longrightarrow> 0 < n \<and> (n - 1) div 8 = n div (8 :: nat)"
  by (cases n) (auto simp: div_Suc mod_Suc split: if_splits)

lemma swap_init_fields:
  assumes "swap_init v junk fs = (Some swap, fs')"
    and "\<And>n fs. length (fst (snd (vfs_read v (swap_file swap) n 0 fs))) \<le> n" and "\<And>n. length (junk n) = n"
  obtains pages where "swap_size swap = ucast pages" "length (alloc_map swap) = unat (map_bytes pages)"
proof -
  obtain f fs1 where o: "file_open v ''/tmp/cs2510.swap'' O_RDWR fs = (f, fs1)"
    by (cases "file_open v ''/tmp/cs2510.swap'' O_RDWR fs")
  let ?pages = "ucast (drop_bit 12 (file_size v f fs1)) :: u32"
  let ?n = "unat (map_bytes ?pages)"
  obtain ret data fs2 where rd: "file_read v f ?n 0 fs1 = (ret, data, fs2)"
    by (cases "file_read v f ?n 0 fs1")
  have sw: "swap = \<lparr>swap_file = f, alloc_map = overwrite data (junk ?n), swap_size = ucast ?pages\<rparr>"
    using assms(1) unfolding swap_init_def o by (simp add: Let_def rd split: if_splits)
  have "data = fst (snd (vfs_read v f ?n 0 fs1))"
    using rd by (auto simp: file_read_def Let_def split: prod.splits)
  then have "length data \<le> ?n" using assms(2) sw by simp
  then have "length (alloc_map swap) = ?n" using sw assms(3) by (simp add: overwrite_def)
  then show thesis using that [of ?pages] sw by simp
qed

text \<open>
  C37. \<open>swap_init\<close> rounds the size of the bitmap by the wrong divisor: the map it allocates has a
  bit for every slot exactly when the number of slots is a multiple of 8 or its eighth part is
  not a multiple of 3. Otherwise the last slots' bits lie past the end of the array, and
  looking one up is an access out of bounds.
\<close>

theorem swap_init_map:
  assumes r: "swap_init v junk fs = (Some swap, fs')"
    and data: "\<And>n fs. length (fst (snd (vfs_read v (swap_file swap) n 0 fs))) \<le> n" and j: "\<And>n. length (junk n) = n"
    and sz: "unat (swap_size swap) < 2 ^ 31"
  shows "(map_ok swap \<longleftrightarrow> unat (swap_size swap) mod 8 = 0 \<or> unat (swap_size swap) div 8 mod 3 \<noteq> 0) \<and>
    (\<not> map_ok swap \<longrightarrow> check_bitmap swap (of_nat (unat (swap_size swap) - 1)) = Inl OOB)"
proof -
  let ?P = "unat (swap_size swap)"
  obtain pages where p: "swap_size swap = ucast pages" "length (alloc_map swap) = unat (map_bytes pages)"
    by (rule swap_init_fields [OF r data j])
  have "unat (ucast pages :: u64) = unat pages"
    using unat_less_pow2 [of pages] by (simp add: unsigned_ucast_eq take_bit_nat_eq_self)
  then have len: "length (alloc_map swap) = ?P div 8 + (if ?P div 8 mod 3 \<noteq> 0 then 1 else 0)"
    using p by (simp add: unat_map_bytes)
  have iff: "map_ok swap \<longleftrightarrow> ?P mod 8 = 0 \<or> ?P div 8 mod 3 \<noteq> 0"
  proof -
    have "?P \<le> 8 * (?P div 8) \<longleftrightarrow> ?P mod 8 = 0" "?P \<le> 8 * (?P div 8 + 1)" by presburger+
    then show ?thesis using sz unfolding map_ok_def len by auto
  qed
  moreover have "check_bitmap swap (of_nat (?P - 1)) = Inl OOB" if "\<not> map_ok swap"
  proof -
    have nm: "?P mod 8 \<noteq> 0" "?P div 8 mod 3 = 0" using that iff by auto
    have P: "0 < ?P" "(?P - 1) div 8 = ?P div 8" using div_pred8 [OF nm(1)] by simp_all
    have lt: "?P - 1 < 2 ^ 31" using sz by simp
    have "ucast (of_nat (?P - 1) :: u32) < swap_size swap"
      using slot_index(4) [OF lt] P(1) by (simp add: word_less_nat_alt)
    moreover have "\<not> (?P - 1) div 8 < length (alloc_map swap)" unfolding P(2) len using nm(2) by simp
    ultimately show ?thesis
      unfolding check_bitmap_def slot_index [OF lt] Let_def by (simp only: if_True if_False)
  qed
  ultimately show ?thesis by blast
qed

text \<open>A file of 25 slots.\<close>

theorem swap_init_map_witness:
  "\<exists>swap fs'. swap_init (array_vfs 102400) (\<lambda>n. replicate n 0) (\<lambda>_. 0) = (Some swap, fs') \<and>
     swap_size swap = 25 \<and> \<not> map_ok swap \<and> check_bitmap swap 24 = Inl OOB"
proof -
  define swap where "swap = \<lparr>swap_file = 0x1000, alloc_map = replicate 3 (0 :: u8), swap_size = 25\<rparr>"
  have r: "swap_init (array_vfs 102400) (\<lambda>n. replicate n 0) (\<lambda>_. 0) = (Some swap, \<lambda>_. 0)"
  proof -
    have o: "file_open (array_vfs 102400) ''/tmp/cs2510.swap'' O_RDWR fs = (0x1000, fs)"
      and z: "file_size (array_vfs 102400) f fs = 102400"
      and rd: "file_read (array_vfs 102400) f 3 0 (\<lambda>_. 0) = (3, replicate 3 0, \<lambda>_. 0)" for f fs
      by (simp_all add: file_open_def array_vfs_def IS_ERR_def file_size_def file_read_def map_replicate_const)
    have n: "unat (map_bytes (ucast (drop_bit 12 (102400 :: u64)))) = 3"
      "(ucast (ucast (drop_bit 12 (102400 :: u64)) :: u32) :: u64) = 25" by code_simp+
    have ne: "(0x1000 :: u64) \<noteq> 0" by simp
    show ?thesis
      unfolding swap_init_def o split_conv z n Let_def if_not_P [OF ne] rd
      by (simp add: overwrite_def swap_def)
  qed
  have "length (fst (snd (vfs_read (array_vfs 102400) f n 0 fs))) \<le> n" for f n fs
    by (simp add: array_vfs_def)
  moreover have "unat (swap_size swap) = 25" by (simp add: swap_def)
  ultimately show ?thesis using swap_init_map [OF r] r by (simp add: swap_def)
qed

text \<open>
  The two offset computations part ways above 2 GB: from slot \<open>2 ^ 19\<close> to \<open>2 ^ 20\<close> the product in
  \<open>swap_out_page\<close> is a negative \<open>int\<close>, and the page is written to another place of the file than
  the one \<open>swap_in_page\<close> reads.
\<close>

theorem swap_offsets_differ:
  assumes "2 ^ 19 \<le> i" "i < 2 ^ 20"
  shows "out_offset i \<noteq> in_offset (of_nat i)"
proof
  let ?w = "of_nat i * 4096 :: u32"
  assume e: "out_offset i = in_offset (of_nat i)"
  have "unat (of_nat (i * 4096) :: u32) = i * 4096"
    using assms by (simp only: unsigned_of_nat) (simp add: take_bit_nat_eq_self)
  then have u: "unat ?w = i * 4096" by simp
  have "i * 4096 div 2 ^ 31 = 1" using assms by simp
  then have "bit (unat ?w) 31" unfolding u by (simp add: bit_iff_odd)
  then have "bit ?w 31" by (simp add: bit_unsigned_iff)
  then have "bit (out_offset i) 63" by (simp add: out_offset_def bit_simps)
  moreover have "\<not> bit (in_offset (of_nat i)) 63" 
    using bit_imp_le_length [of ?w 63] by (auto simp: in_offset_def bit_simps)
  ultimately show False using e by simp
qed

theorem swap_offsets_differ_witness: "out_offset 600000 \<noteq> in_offset (of_nat 600000)"
  by (rule swap_offsets_differ) simp_all

end
