(* ===== verification/On_Demand.thy ===== *)
theory On_Demand
  imports Pools Pgtables Vspace Swap
begin

text \<open>
  Demand paging, the rest of \<open>on_demand.c\<close>: walking and filling the four-level page tables,
  the page-fault handler, eviction by the clock algorithm into the swap space, and releasing the
  pages behind a region. The page tables, the region list, the page frames and the buddy
  allocator's free lists all live in the one memory of the machine.
\<close>

section \<open>State\<close>

text \<open>
  The machine, the files, and the process's \<open>struct mem_map\<close>: the address of its list head, the
  clock hand and the swap space (\<open>None\<close> for a null pointer).
\<close>

record 'fs process =
  mach :: machine
  files :: 'fs
  memory_allocations :: u64
  clock_hand :: u64
  swap :: "swap_space option"

definition upd_mem :: "(mem \<Rightarrow> mem) \<Rightarrow> 'fs process \<Rightarrow> 'fs process" where
  "upd_mem f p = p\<lparr>mach := (mach p)\<lparr>kmem := f (kmem (mach p))\<rparr>\<rparr>"

definition pmem :: "'fs process \<Rightarrow> mem" where
  "pmem p = kmem (mach p)"

definition invlpg :: "u64 \<Rightarrow> 'fs process \<Rightarrow> 'fs process" where
  "invlpg a p = p\<lparr>mach := (mach p)\<lparr>flushed := a # flushed (mach p)\<rparr>\<rparr>"

section \<open>Entries\<close>

definition entry_get :: "string \<Rightarrow> mem \<Rightarrow> u64 \<Rightarrow> u64" where
  "entry_get f m e = get_field pte64 f (m e)"

definition entry_set :: "string \<Rightarrow> u64 \<Rightarrow> u64 \<Rightarrow> mem \<Rightarrow> mem" where
  "entry_set f v e m = m(e := set_field pte64 f v (m e))"

definition present :: "mem \<Rightarrow> u64 \<Rightarrow> bool" where
  "present m e \<longleftrightarrow> entry_get ''present'' m e \<noteq> 0"

text \<open>
  The entry of the top table. The source adds \<open>PML4E64_INDEX(a) * 8\<close> to a \<open>pml4e64_t *\<close>, so the
  offset in bytes is 64 times the index.
\<close>

definition pml4_entry :: "u64 \<Rightarrow> u64 \<Rightarrow> u64" where
  "pml4_entry cr a = CR3_TO_PML4E64_VA cr + PML4E64_INDEX a * 8 * 8"

text \<open>The table an entry points to, and an entry of it.\<close>

definition entry_table :: "mem \<Rightarrow> u64 \<Rightarrow> u64" where
  "entry_table m e = va (BASE_TO_PAGE_ADDR (entry_get ''page_base_addr'' m e))"

definition next_entry :: "mem \<Rightarrow> u64 \<Rightarrow> u64 \<Rightarrow> u64" where
  "next_entry m e idx = va (BASE_TO_PAGE_ADDR (entry_get ''page_base_addr'' m e) + idx * 8)"

definition get_valid_page_entry :: "mem \<Rightarrow> u64 \<Rightarrow> u64 \<Rightarrow> u64" where
  "get_valid_page_entry m cr a =
     (let e3 = pml4_entry cr a in if \<not> present m e3 then 0
      else let e2 = next_entry m e3 (PDPE64_INDEX a) in if \<not> present m e2 then 0
      else let e1 = next_entry m e2 (PDE64_INDEX a) in if \<not> present m e1 then 0
      else let e0 = next_entry m e1 (PTE64_INDEX a) in if \<not> present m e0 then 0
      else e0)"

section \<open>Pages as bytes\<close>

definition word_bytes :: "u64 \<Rightarrow> u8 list" where
  "word_bytes w = map (\<lambda>i. ucast (drop_bit (8 * i) w)) [0 ..< 8]"

definition bytes_word :: "u8 list \<Rightarrow> u64" where
  "bytes_word bs = foldr (\<lambda>b w. ucast b OR push_bit 8 w) bs 0"

definition page_bytes :: "mem \<Rightarrow> u64 \<Rightarrow> u8 list" where
  "page_bytes m a = concat (map (\<lambda>i. word_bytes (m (a + 8 * of_nat i))) [0 ..< 512])"

definition write_page :: "u64 \<Rightarrow> u8 list \<Rightarrow> mem \<Rightarrow> mem" where
  "write_page a bs m =
     fold (\<lambda>i m. m(a + 8 * of_nat i := bytes_word (take 8 (drop (8 * i) bs)))) [0 ..< 512] m"

definition zero_page :: "u64 \<Rightarrow> mem \<Rightarrow> mem" where
  "zero_page a m = fold (\<lambda>i m. m(a + 8 * of_nat i := 0)) [0 ..< 512] m"

section \<open>The clock\<close>

definition PHYSICAL_OFFSET :: "u64 \<Rightarrow> u64" where "PHYSICAL_OFFSET x = x AND 0xfff"

text \<open>
  \<open>while(1) list_for_each_safe(pos, next, map->clock_hand)\<close>: the traversal starts behind the hand
  and starts over when it is back at it. Every node it passes is read as a region, the list
  head included when the hand is elsewhere. Result: the entry to evict, \<open>*mem\<close>, the new hand and
  the memory, in which accessed bits have been cleared.
\<close>

partial_function (option) page_replacement_clock ::
    "u64 \<Rightarrow> u64 \<Rightarrow> u64 \<Rightarrow> mem \<Rightarrow> (u64 \<times> u64 \<times> u64 \<times> mem) option" where
  "page_replacement_clock cr hand pos m =
     (if pos = hand then page_replacement_clock cr hand (m hand) m
      else let nxt = m pos;
               entry = list_entry pos;
               page = get_valid_page_entry m cr (reg_page_addr m entry)
           in if page \<noteq> 0 \<and> entry_get ''accessed'' m page \<noteq> 0 then
                page_replacement_clock cr hand nxt (entry_set ''accessed'' 0 page m)
              else if page \<noteq> 0 then
                Some (page, va (BASE_TO_PAGE_ADDR (entry_get ''page_base_addr'' m page) +
                                PHYSICAL_OFFSET (reg_page_addr m entry)), nxt, m)
              else page_replacement_clock cr hand nxt m)"

declare page_replacement_clock.simps [code]

section \<open>Eviction and allocation of frames\<close>

definition clear_up_memory :: "'fs vfs \<Rightarrow> 'fs process \<Rightarrow> 'fs process run" where
  "clear_up_memory v p =
     (case page_replacement_clock (cr3 (mach p)) (clock_hand p) (pmem p (clock_hand p)) (pmem p) of
        None \<Rightarrow> None
      | Some (page, loc, hand, m) \<Rightarrow>
          let m1 = entry_set ''dirty'' 1 page (entry_set ''present'' 0 page m);
              p1 = (upd_mem (\<lambda>_. m1) p)\<lparr>clock_hand := hand\<rparr>
          in case swap p of
               None \<Rightarrow> Some (Inl NULLPTR)
             | Some sw \<Rightarrow>
                 rbind (Some (swap_out_page v sw 0 (page_bytes m1 loc) (files p))) (\<lambda>(ret, index, sw', fs').
                 rbind (Some (petmem_free_pages (pa loc) 1 (mach p1))) (\<lambda>s.
                   returns (upd_mem (entry_set ''page_base_addr'' (ucast index) page)
                     (p1\<lparr>mach := s, files := fs', swap := Some sw'\<rparr>)))))"

definition alloc_frame :: "'fs vfs \<Rightarrow> 'fs process \<Rightarrow> (u64 \<times> 'fs process) run" where
  "alloc_frame v p =
     rbind (Some (petmem_alloc_pages 1 (mach p))) (\<lambda>(memory, s).
       let p1 = p\<lparr>mach := s\<rparr>
       in if memory = 0 then
            rbind (clear_up_memory v p1) (\<lambda>p2.
            rbind (Some (petmem_alloc_pages 1 (mach p2))) (\<lambda>(memory', s').
              returns (memory', p2\<lparr>mach := s'\<rparr>)))
          else returns (memory, p1))"

definition handle_table_memory :: "'fs vfs \<Rightarrow> u64 \<Rightarrow> 'fs process \<Rightarrow> (int \<times> 'fs process) run" where
  "handle_table_memory v handle p =
     rbind (alloc_frame v p) (\<lambda>(memory, p1).
       let temp = va memory;
           p2 = upd_mem (zero_page temp) p1;
           p3 = upd_mem (entry_set ''present'' 1 handle) p2;
           p4 = upd_mem (entry_set ''page_base_addr'' (PAGE_TO_BASE_ADDR (pa temp)) handle) p3
       in returns (0, p4))"

section \<open>The page-fault handler\<close>

definition ERROR_PERMISSION :: u32 where "ERROR_PERMISSION = 2"

definition set_user_rw :: "u64 \<Rightarrow> mem \<Rightarrow> mem" where
  "set_user_rw e m = entry_set ''user_page'' 1 e (entry_set ''writable'' 1 e (entry_set ''present'' 1 e m))"

text \<open>One level below the top: a missing table is allocated, then opened to user space.\<close>

definition fill_level :: "'fs vfs \<Rightarrow> u64 \<Rightarrow> int \<times> 'fs process \<Rightarrow> (int \<times> 'fs process) run" where
  "fill_level v e st =
     (let (bad_signal, p) = st
      in if \<not> present (pmem p) e then
           rbind (handle_table_memory v e p) (\<lambda>(r, p1).
             returns (bad_signal + r, upd_mem (set_user_rw e) p1))
         else returns (bad_signal, p))"

text \<open>The page at the end of the walk comes back from the swap space; \<open>buf\<close> is the fresh buffer.\<close>

definition swap_in_frame :: "'fs vfs \<Rightarrow> u8 list \<Rightarrow> u64 \<Rightarrow> 'fs process \<Rightarrow> 'fs process run" where
  "swap_in_frame v buf pte p =
     (case swap p of
        None \<Rightarrow> Some (Inl NULLPTR)
      | Some sw \<Rightarrow>
          rbind (Some (swap_in_page v sw (ucast (entry_get ''page_base_addr'' (pmem p) pte)) buf (files p)))
            (\<lambda>(ret, page, sw', fs').
          rbind (alloc_frame v (p\<lparr>swap := Some sw', files := fs'\<rparr>)) (\<lambda>(memory, p1).
            let space = va memory;
                p2 = upd_mem (write_page space page) p1;
                p3 = upd_mem (set_user_rw pte) p2;
                p4 = upd_mem (entry_set ''dirty'' 0 pte) p3
            in returns (upd_mem (entry_set ''page_base_addr'' (PAGE_TO_BASE_ADDR (pa space)) pte) p4))))"

definition fill_page :: "'fs vfs \<Rightarrow> u8 list \<Rightarrow> u64 \<Rightarrow> int \<times> 'fs process \<Rightarrow> (int \<times> 'fs process) run" where
  "fill_page v buf pte st =
     (let (bad_signal, p) = st
      in if \<not> present (pmem p) pte \<and> entry_get ''dirty'' (pmem p) pte = 0 then fill_level v pte st
         else if \<not> present (pmem p) pte \<and> entry_get ''dirty'' (pmem p) pte \<noteq> 0 then
           rbind (swap_in_frame v buf pte p) (\<lambda>p1. returns (bad_signal, p1))
         else returns st)"

definition petmem_handle_pagefault ::
    "'fs vfs \<Rightarrow> u8 list \<Rightarrow> u64 \<Rightarrow> u32 \<Rightarrow> 'fs process \<Rightarrow> (int \<times> 'fs process) run" where
  "petmem_handle_pagefault v buf fault_addr error_code p =
     (case check_address_range (memory_allocations p) fault_addr (pmem p) of
        None \<Rightarrow> None
      | Some valid_range \<Rightarrow>
          if valid_range = NOT_VALID_RANGE \<or> error_code = ERROR_PERMISSION then returns (-1, p)
          else let e3 = pml4_entry (cr3 (mach p)) fault_addr
               in rbind (if \<not> present (pmem p) e3 then handle_table_memory v e3 p else returns (0, p))
                    (\<lambda>st3. let pdp = next_entry (pmem (snd st3)) e3 (PDPE64_INDEX fault_addr)
                  in rbind (fill_level v pdp st3)
                    (\<lambda>st2. let pde = next_entry (pmem (snd st2)) pdp (PDE64_INDEX fault_addr)
                  in rbind (fill_level v pde st2)
                    (\<lambda>st1. let pte = next_entry (pmem (snd st1)) pde (PTE64_INDEX fault_addr)
                  in rbind (fill_page v buf pte st1)
                    (\<lambda>(bad_signal, p4). returns (if bad_signal \<noteq> 0 then -1 else 0, p4))))))"

section \<open>Releasing pages\<close>

definition PAGE_IN_USE :: int where "PAGE_IN_USE = 1"
definition PAGE_NOT_IN_USE :: int where "PAGE_NOT_IN_USE = 2"

definition is_entire_page_free :: "mem \<Rightarrow> u64 \<Rightarrow> int" where
  "is_entire_page_free m t =
     (if \<exists>i \<in> set [0 ..< 512]. entry_get ''present'' m (t + of_nat i * 8) = 1 then PAGE_IN_USE else PAGE_NOT_IN_USE)"

definition clear_entry :: "u64 \<Rightarrow> mem \<Rightarrow> mem" where
  "clear_entry e m =
     entry_set ''page_base_addr'' 0 e (entry_set ''present'' 0 e (entry_set ''user_page'' 0 e (entry_set ''writable'' 0 e m)))"

text \<open>The loop over the levels, from the page table up; it stops at the first table still in use.\<close>

fun free_levels :: "(u64 \<times> u64) list \<Rightarrow> 'fs process \<Rightarrow> 'fs process outcome" where
  "free_levels [] p = Inr p"
| "free_levels ((cur, table) # ls) p =
     (let p1 = invlpg cur (upd_mem (clear_entry cur) p)
      in if is_entire_page_free (pmem p1) table = PAGE_NOT_IN_USE
         then ebind (petmem_free_pages table 1 (mach p1)) (\<lambda>s.
                free_levels ls (invlpg table (p1\<lparr>mach := s\<rparr>)))
         else Inr p1)"

definition attempt_free_physical_address :: "u64 \<Rightarrow> 'fs process \<Rightarrow> 'fs process outcome" where
  "attempt_free_physical_address a p =
     (let m = pmem p;
          e3 = pml4_entry (cr3 (mach p)) a; t3 = CR3_TO_PML4E64_VA (cr3 (mach p))
      in if \<not> present m e3 then Inr p
      else let e2 = next_entry m e3 (PDPE64_INDEX a); t2 = entry_table m e3
      in if \<not> present m e2 then Inr p
      else let e1 = next_entry m e2 (PDE64_INDEX a); t1 = entry_table m e2
      in if \<not> present m e1 then Inr p
      else let e0 = next_entry m e1 (PTE64_INDEX a); t0 = entry_table m e1
      in if \<not> present m e0 then Inr p
      else let actual_mem = va (BASE_TO_PAGE_ADDR (entry_get ''page_base_addr'' m e0) + PHYSICAL_OFFSET a)
           in ebind (petmem_free_pages actual_mem 1 (mach p)) (\<lambda>s.
                free_levels [(e0, t0), (e1, t1), (e2, t2), (e3, t3)] (p\<lparr>mach := s\<rparr>)))"

text \<open>\<open>i * 4096\<close> with an \<open>int\<close> \<open>i\<close>, added to a \<open>u64\<close>.\<close>

definition page_step :: "u32 \<Rightarrow> u64" where
  "page_step i = scast (i * 4096)"

text \<open>
  The loop over the pages of the region \<open>entry\<close>. The \<open>int\<close> counter is sign-extended for the
  comparison with the size, and both fields are read again in every round.
\<close>

partial_function (option) free_range :: "u64 \<Rightarrow> u32 \<Rightarrow> 'fs process \<Rightarrow> 'fs process run" where
  "free_range entry i p =
     (if scast i < reg_size (pmem p) entry then
        case attempt_free_physical_address (reg_page_addr (pmem p) entry + page_step i) p of
          Inl e \<Rightarrow> Some (Inl e)
        | Inr p1 \<Rightarrow> free_range entry (i + 1) p1
      else returns p)"

text \<open>The second loop, which only invalidates.\<close>

partial_function (option) flush_range :: "u64 \<Rightarrow> u32 \<Rightarrow> 'fs process \<Rightarrow> 'fs process run" where
  "flush_range entry i p =
     (if scast i < reg_size (pmem p) entry
      then flush_range entry (i + 1) (invlpg (reg_page_addr (pmem p) entry + page_step i) p)
      else returns p)"

declare free_range.simps [code] flush_range.simps [code]

definition free_address :: "u64 \<Rightarrow> 'fs process \<Rightarrow> 'fs process run" where
  "free_address page p =
     (let head_list = memory_allocations p
      in case find_region (pmem p) head_list (pmem p head_list) page 0 of
           None \<Rightarrow> None
         | Some found \<Rightarrow>
             if found = 0 then returns p
             else rbind (free_range found 0 p) (\<lambda>p1.
                  rbind (flush_range found 0 (upd_mem (set_status found FREE) p1)) (\<lambda>p2.
                    returns (upd_mem (merge_regions found page) p2))))"

definition petmem_free_vspace :: "u64 \<Rightarrow> 'fs process \<Rightarrow> 'fs process run" where
  "petmem_free_vspace vaddr p = free_address vaddr p"

definition petmem_alloc_vspace :: "u64 \<Rightarrow> u64 \<Rightarrow> 'fs process \<Rightarrow> (u64 \<times> 'fs process) run" where
  "petmem_alloc_vspace new_node num_pages p =
     (case allocate new_node (memory_allocations p) num_pages (pmem p) of
        None \<Rightarrow> None
      | Some (a, m) \<Rightarrow> returns (a, upd_mem (\<lambda>_. m) p))"

definition petmem_dump_vspace :: "'fs process \<Rightarrow> 'fs process" where
  "petmem_dump_vspace p = p"

section \<open>Processes\<close>

text \<open>\<open>first_node\<close> and \<open>new_proc\<close> are the addresses \<open>kmalloc\<close> returns.\<close>

definition petmem_init_process ::
    "'fs vfs \<Rightarrow> (nat \<Rightarrow> u8 list) \<Rightarrow> u64 \<Rightarrow> u64 \<Rightarrow> machine \<Rightarrow> 'fs \<Rightarrow> 'fs process" where
  "petmem_init_process v junk first_node new_proc s fs =
     (let (swaps, fs') = swap_init v junk fs
      in \<lparr>mach = s\<lparr>kmem := init_regions first_node new_proc (kmem s)\<rparr>, files = fs',
          memory_allocations = new_proc, clock_hand = new_proc, swap = swaps\<rparr>)"

text \<open>
  The traversal of \<open>petmem_deinit_process\<close>: each region's pages are released and the node is taken
  from the list. The successor is read before the node is removed.
\<close>

partial_function (option) deinit_loop :: "u64 \<Rightarrow> 'fs process \<Rightarrow> 'fs process run" where
  "deinit_loop pos p =
     (if pos = memory_allocations p then returns p
      else let entry = list_entry pos; nxt = pmem p pos
           in case free_range entry 0 p of
                None \<Rightarrow> None
              | Some (Inl e) \<Rightarrow> Some (Inl e)
              | Some (Inr p1) \<Rightarrow> deinit_loop nxt (upd_mem (list_del pos) p1))"

declare deinit_loop.simps [code]

definition petmem_deinit_process :: "'fs vfs \<Rightarrow> 'fs process \<Rightarrow> 'fs process run" where
  "petmem_deinit_process v p =
     (case swap p of
        None \<Rightarrow> Some (Inl NULLPTR)
      | Some sw \<Rightarrow>
          let p1 = p\<lparr>files := swap_free v sw (files p), swap := None\<rparr>
          in deinit_loop (pmem p1 (memory_allocations p1)) p1)"

section \<open>Diagnostics\<close>

text \<open>
  \<open>print_bits\<close>: the digits printed for the bits of a word, lowest first. The cast to \<open>int\<close> comes before
  the shift.
\<close>

definition print_bits :: "u64 \<Rightarrow> int list" where
  "print_bits num = map (\<lambda>i. sint (signed_drop_bit i (ucast (num AND push_bit i 1) :: u32))) [0 ..< 64]"

text \<open>The bits up to 30 are printed as they are, bit 31 as 0 or -1, the others as 0.\<close>

lemma print_bits_digit:
  assumes "i < 64"
  shows "print_bits num ! i = (if bit num i \<and> i < 31 then 1 else if bit num i \<and> i = 31 then -1 else 0)"
proof -
  have "num AND push_bit i 1 = (if bit num i then push_bit i 1 else 0)"
    by (rule bit_word_eqI) (auto simp: bit_simps)
  moreover have "ucast (push_bit i 1 :: u64) = (if i < 32 then push_bit i 1 else 0 :: u32)"
    using assms by (intro bit_word_eqI) (auto simp: bit_simps)
  moreover have "signed_drop_bit i (push_bit i (1 :: u32)) = (if i = 31 then -1 else 1)" if "i < 32"
    using that by (intro bit_word_eqI) (auto simp: bit_simps bit_signed_drop_bit_iff)
  ultimately show ?thesis using assms by (auto simp: print_bits_def)
qed

end
