(* ===== verification/Vspace_Correct.thy ===== *)
theory Vspace_Correct
  imports Vspace Alloc_Contract
begin

text \<open>
  What the region list guarantees: the regions tile the 128 GB of a process with no two free ones
  side by side; \<open>allocate\<close> hands out a range that was free and marks exactly it, releasing a
  region makes exactly its range free again and merges it with its neighbours. At the level of
  region lists the two form a block allocator in the sense of the contract the buddy pools satisfy.
\<close>

section \<open>The invariant\<close>

fun tiles :: "nat \<Rightarrow> region list \<Rightarrow> nat \<Rightarrow> bool" where
  "tiles a [] b \<longleftrightarrow> a = b"
| "tiles a (r # rs) b \<longleftrightarrow> unat (raddr r) = a \<and> 0 < unat (rsize r) \<and> tiles (a + 4096 * unat (rsize r)) rs b"

definition not_both_free :: "region \<Rightarrow> region \<Rightarrow> bool" where
  "not_both_free r q \<longleftrightarrow> \<not> (rstatus r = FREE \<and> rstatus q = FREE)"

definition region_end :: nat where "region_end = unat PETMEM_REGION_END"

definition vspace_inv :: "region list \<Rightarrow> bool" where
  "vspace_inv rs \<longleftrightarrow> tiles (unat PETMEM_REGION_START) rs region_end \<and>
     (\<forall>r \<in> set rs. rstatus r = FREE \<or> rstatus r = ALLOCATED) \<and> successively not_both_free rs"

text \<open>The regions handed out, by address and number of pages, and the bytes of one.\<close>

definition handed_out :: "region list \<Rightarrow> (u64 \<times> u64) set" where
  "handed_out rs = {(raddr r, rsize r) | r. r \<in> set rs \<and> rstatus r = ALLOCATED}"

definition vspan :: "u64 \<times> u64 \<Rightarrow> nat set" where
  "vspan b = {unat (fst b) ..< unat (fst b) + 4096 * unat (snd b)}"

definition free_area :: "region list \<Rightarrow> nat set" where
  "free_area rs = \<Union> {vspan (raddr r, rsize r) | r. r \<in> set rs \<and> rstatus r = FREE}"

lemma status_neq [simp]: "FREE \<noteq> ALLOCATED" "ALLOCATED \<noteq> FREE"
  by (simp_all add: FREE_def ALLOCATED_def)

lemma region_end_small: "region_end < 2 ^ 39"
  by (simp add: region_end_def PETMEM_REGION_END_def)

lemma tiles_append: "tiles a (ps @ qs) b \<longleftrightarrow> (\<exists>c. tiles a ps c \<and> tiles c qs b)"
  by (induction ps arbitrary: a) auto

lemma tiles_le: "tiles a rs b \<Longrightarrow> a \<le> b"
  by (induction rs arbitrary: a) fastforce+

lemma tiles_bounds: "tiles a rs b \<Longrightarrow> r \<in> set rs \<Longrightarrow> a \<le> unat (raddr r) \<and> unat (raddr r) + 4096 * unat (rsize r) \<le> b"
proof (induction rs arbitrary: a)
  case (Cons q rs)
  then show ?case using tiles_le [of "a + 4096 * unat (rsize q)" rs b] by fastforce
qed simp

lemma tiles_cover: "tiles a rs b \<Longrightarrow> \<Union> ((\<lambda>r. vspan (raddr r, rsize r)) ` set rs) = {a ..< b}"
proof (induction rs arbitrary: a)
  case (Cons q rs)
  then have "tiles (a + 4096 * unat (rsize q)) rs b" "unat (raddr q) = a" by auto
  with Cons.IH [OF this(1)] tiles_le [OF this(1)] show ?case by (auto simp: vspan_def)
qed simp

text \<open>Regions of a tiling do not meet; so an address names at most one of them.\<close>

lemma tiles_disjoint:
  "tiles a (ps @ r # qs) b \<Longrightarrow> q \<in> set ps \<union> set qs \<Longrightarrow>
   vspan (raddr r, rsize r) \<inter> vspan (raddr q, rsize q) = {} \<and> raddr q \<noteq> raddr r"
proof -
  assume t: "tiles a (ps @ r # qs) b" and q: "q \<in> set ps \<union> set qs"
  from t obtain c where c: "tiles a ps c" "unat (raddr r) = c" "0 < unat (rsize r)" "tiles (c + 4096 * unat (rsize r)) qs b"
    by (auto simp: tiles_append)
  from q show ?thesis
  proof
    assume "q \<in> set ps"
    moreover then have "0 < unat (rsize q)" using c(1) by (auto simp: in_set_conv_decomp tiles_append)
    ultimately show ?thesis using tiles_bounds [OF c(1)] c(2) by (force simp: vspan_def)
  next
    assume "q \<in> set qs"
    then show ?thesis using tiles_bounds [OF c(4)] c(2,3) by (force simp: vspan_def)
  qed
qed

lemma successively_append3:
  "successively P (ps @ r # qs) \<longleftrightarrow> successively P ps \<and> successively P qs \<and>
     (ps \<noteq> [] \<longrightarrow> P (last ps) r) \<and> (qs \<noteq> [] \<longrightarrow> P r (hd qs))"
  by (auto simp: successively_append_iff successively_Cons)

section \<open>Allocation\<close>

lemma split_tiles:
  assumes t: "tiles a (r # qs) b" and b: "b < 2 ^ 39" and s: "0 < unat sz" "sz \<le> rsize r"
  shows "tiles a (split_region sz r @ qs) b"
proof (cases "rsize r = sz")
  case True
  then show ?thesis using t by (simp add: split_region_def)
next
  case False
  let ?n = "unat (rsize r)"
  have "sz < rsize r" using s(2) False by simp
  then have lt: "unat sz < ?n" by (simp add: word_less_nat_alt)
  have en: "a + 4096 * ?n \<le> b" "unat (raddr r) = a"
    using t tiles_le [of "a + 4096 * ?n" qs b] by auto
  have "unat (push_bit PAGE_POWER_4KB sz) = 4096 * unat sz"
    using lt en(1) b by (subst unat_push_bit) simp_all
  then have "unat (raddr r + push_bit PAGE_POWER_4KB sz) = a + 4096 * unat sz"
    using en lt b by (subst unat_add_small) auto
  moreover have "unat (rsize r - sz) = ?n - unat sz" using lt by (simp add: unat_sub_small)
  ultimately show ?thesis
    using t False s(1) lt by (simp add: split_region_def algebra_simps)
qed

lemma handed_out_append [simp]: "handed_out (ps @ qs) = handed_out ps \<union> handed_out qs"
  and handed_out_Cons: "handed_out (r # rs) =
    (if rstatus r = ALLOCATED then insert (raddr r, rsize r) (handed_out rs) else handed_out rs)"
  and handed_out_Nil [simp]: "handed_out [] = {}"
  by (auto simp: handed_out_def)

lemma split_handed_out: "rstatus r = FREE \<Longrightarrow> handed_out (split_region sz r) = {(raddr r, sz)}"
  by (auto simp: split_region_def handed_out_Cons)

lemma split_adj:
  assumes "successively not_both_free (ps @ r # qs)" "rstatus r = FREE"
  shows "successively not_both_free (ps @ split_region sz r @ qs)"
  using assms by (auto simp: successively_append3 split_region_def not_both_free_def successively_append_iff
      successively_Cons)

lemma spec_allocate_inv:
  assumes inv: "vspace_inv rs" and s: "0 < unat sz" and r: "spec_allocate sz rs = Some (a, rs')"
  shows "vspace_inv rs'" "handed_out rs' = insert (a, sz) (handed_out rs)" "(a, sz) \<notin> handed_out rs"
    "vspan (a, sz) \<subseteq> free_area rs"
proof -
  obtain ps q qs where d: "rs = ps @ q # qs" "fits sz q" "a = raddr q" "rs' = ps @ split_region sz q @ qs"
    using spec_allocate_Some [OF r] by blast
  have fq: "rstatus q = FREE" "sz \<le> rsize q" using d(2) by (auto simp: fits_def)
  have t: "tiles (unat PETMEM_REGION_START) (ps @ q # qs) region_end"
    and st: "\<forall>r \<in> set rs. rstatus r = FREE \<or> rstatus r = ALLOCATED"
    and adj: "successively not_both_free (ps @ q # qs)" using inv d(1) by (auto simp: vspace_inv_def)
  then obtain c where c: "tiles (unat PETMEM_REGION_START) ps c" "tiles c (q # qs) region_end"
    by (auto simp: tiles_append)
  have "tiles (unat PETMEM_REGION_START) rs' region_end"
    unfolding d(4) tiles_append using c(1) split_tiles [OF c(2) region_end_small s fq(2)] tiles_append by blast
  moreover have "\<forall>r \<in> set rs'. rstatus r = FREE \<or> rstatus r = ALLOCATED"
    using st unfolding d(1,4) by (auto simp: split_region_def split: if_splits)
  ultimately show "vspace_inv rs'" using split_adj [OF adj fq(1)] d(4) by (simp add: vspace_inv_def)
  show "handed_out rs' = insert (a, sz) (handed_out rs)"
    using fq(1) d(3) unfolding d(1,4) by (auto simp: split_handed_out handed_out_Cons)
  have "raddr r \<noteq> raddr q" if "r \<in> set ps \<union> set qs" for r using tiles_disjoint [OF t that] by simp
  then show "(a, sz) \<notin> handed_out rs" using fq(1) d(3) unfolding d(1) by (fastforce simp: handed_out_def)
  have "vspan (a, sz) \<subseteq> vspan (raddr q, rsize q)" using d(3) fq(2) by (auto simp: vspan_def word_le_nat_alt)
  then show "vspan (a, sz) \<subseteq> free_area rs" using fq(1) unfolding d(1) free_area_def by fastforce
qed

section \<open>Release\<close>

lemma merge_next_inv:
  assumes t: "tiles a (r # qs) b" and b: "b < 2 ^ 39" and f: "rstatus r = FREE"
    and adj: "successively not_both_free qs" and e: "merge_next (raddr r) r qs = (r1, qs1)"
  shows "tiles a (r1 # qs1) b" "rstatus r1 = FREE" "raddr r1 = raddr r" "set qs1 \<subseteq> set qs"
    "successively not_both_free (r1 # qs1)" "handed_out (r1 # qs1) = handed_out qs"
proof -
  have *: "tiles a (r1 # qs1) b \<and> rstatus r1 = FREE \<and> raddr r1 = raddr r \<and> set qs1 \<subseteq> set qs \<and>
    successively not_both_free (r1 # qs1) \<and> handed_out (r1 # qs1) = handed_out qs"
  proof (cases qs)
    case Nil
    then show ?thesis using e t f by (simp add: merge_next_def handed_out_Cons)
  next
    case (Cons q qs')
    have tq: "unat (raddr r) = a" "0 < unat (rsize r)" "unat (raddr q) = a + 4096 * unat (rsize r)"
      "0 < unat (rsize q)" "tiles (a + 4096 * unat (rsize r) + 4096 * unat (rsize q)) qs' b"
      using t Cons by auto
    then have ne: "raddr q \<noteq> raddr r" by auto
    show ?thesis
    proof (cases "rstatus q = FREE")
      case True
      have "unat (rsize r + rsize q) = unat (rsize r) + unat (rsize q)"
        using tiles_le [OF tq(5)] b by (intro unat_add_small) simp
      then show ?thesis
        using e True ne Cons tq f adj
        by (auto simp: merge_next_def handed_out_Cons successively_Cons not_both_free_def algebra_simps)
    next
      case False
      then have "r1 = r" "qs1 = qs" using e Cons by (auto simp: merge_next_def)
      then show ?thesis
        using t f adj False Cons by (auto simp: handed_out_Cons successively_Cons not_both_free_def)
    qed
  qed
  then show "tiles a (r1 # qs1) b" "rstatus r1 = FREE" "raddr r1 = raddr r" "set qs1 \<subseteq> set qs"
    "successively not_both_free (r1 # qs1)" "handed_out (r1 # qs1) = handed_out qs" by blast+
qed

lemma merge_prev_inv:
  assumes t: "tiles a (ps @ r1 # qs1) b" and b: "b < 2 ^ 39" and f: "rstatus r1 = FREE" "raddr r1 = page"
    and adj: "successively not_both_free ps" "successively not_both_free (r1 # qs1)"
  defines "rs' \<equiv> (if ps \<noteq> [] \<and> raddr (last ps) \<noteq> page \<and> rstatus (last ps) = FREE
         then butlast ps @ r1\<lparr>raddr := raddr (last ps), rsize := rsize r1 + rsize (last ps)\<rparr> # qs1
         else ps @ r1 # qs1)"
  shows "tiles a rs' b" "successively not_both_free rs'" "handed_out rs' = handed_out ps \<union> handed_out qs1"
    "\<forall>r \<in> set rs'. rstatus r = FREE \<or> r \<in> set ps \<union> set qs1"
proof -
  have *: "tiles a rs' b \<and> successively not_both_free rs' \<and> handed_out rs' = handed_out ps \<union> handed_out qs1 \<and>
    (\<forall>r \<in> set rs'. rstatus r = FREE \<or> r \<in> set ps \<union> set qs1)"
  proof (cases ps rule: rev_cases)
    case Nil
    then show ?thesis using t f adj by (simp add: rs'_def handed_out_Cons)
  next
    case (snoc ps' p)
    obtain c where c: "tiles a ps' c" "unat (raddr p) = c" "0 < unat (rsize p)"
      "unat (raddr r1) = c + 4096 * unat (rsize p)" "0 < unat (rsize r1)"
      "tiles (c + 4096 * unat (rsize p) + 4096 * unat (rsize r1)) qs1 b"
      using t snoc by (auto simp: tiles_append)
    have ne: "raddr p \<noteq> page"
    proof
      assume "raddr p = page"
      then have "unat (raddr p) = unat (raddr r1)" using f(2) by simp
      with c(2-4) show False by simp
    qed
    show ?thesis
    proof (cases "rstatus p = FREE")
      case True
      have rs': "rs' = ps' @ r1\<lparr>raddr := raddr p, rsize := rsize r1 + rsize p\<rparr> # qs1"
        using snoc True ne by (simp add: rs'_def)
      have "unat (rsize r1 + rsize p) = unat (rsize r1) + unat (rsize p)"
        using tiles_le [OF c(6)] b by (intro unat_add_small) simp
      then have "tiles a rs' b"
        unfolding rs' tiles_append using c by (intro exI [of _ c]) (simp add: algebra_simps)
      moreover have "successively not_both_free rs'"
        using adj True f(1) snoc unfolding rs'
        by (auto simp: successively_append3 successively_append_iff successively_Cons not_both_free_def)
      ultimately show ?thesis using True f(1) snoc unfolding rs' by (auto simp: handed_out_Cons)
    next
      case False
      then have "rs' = ps @ r1 # qs1" using snoc by (simp add: rs'_def)
      then show ?thesis
        using t adj False f(1) snoc
        by (auto simp: successively_append_iff not_both_free_def handed_out_Cons)
    qed
  qed
  then show "tiles a rs' b" "successively not_both_free rs'" "handed_out rs' = handed_out ps \<union> handed_out qs1"
    "\<forall>r \<in> set rs'. rstatus r = FREE \<or> r \<in> set ps \<union> set qs1" by blast+
qed

lemma spec_merge_inv:
  assumes inv: "vspace_inv (ps @ r # qs)"
  defines "rs' \<equiv> spec_merge (raddr r) ps (r\<lparr>rstatus := FREE\<rparr>) qs"
  shows "vspace_inv rs'" "handed_out rs' = handed_out (ps @ r # qs) - {(raddr r, rsize r)}"
proof -
  let ?r = "r\<lparr>rstatus := FREE\<rparr>" and ?S = "unat PETMEM_REGION_START"
  have t: "tiles ?S (ps @ r # qs) region_end" and st: "\<forall>r \<in> set (ps @ r # qs). rstatus r = FREE \<or> rstatus r = ALLOCATED"
    and adj: "successively not_both_free ps" "successively not_both_free qs"
    using inv by (auto simp: vspace_inv_def successively_append3)
  obtain c where c: "tiles ?S ps c" "tiles c (r # qs) region_end" using t by (auto simp: tiles_append)
  then have tr: "tiles c (?r # qs) region_end" by simp
  obtain r1 qs1 where e: "merge_next (raddr ?r) ?r qs = (r1, qs1)" by fastforce
  note n = merge_next_inv [OF tr region_end_small _ adj(2) e, simplified]
  have t1: "tiles ?S (ps @ r1 # qs1) region_end" unfolding tiles_append using c(1) n(1) by auto
  have rs': "rs' = (if ps \<noteq> [] \<and> raddr (last ps) \<noteq> raddr r \<and> rstatus (last ps) = FREE
         then butlast ps @ r1\<lparr>raddr := raddr (last ps), rsize := rsize r1 + rsize (last ps)\<rparr> # qs1
         else ps @ r1 # qs1)"
    using e by (simp add: rs'_def spec_merge_def)
  note p = merge_prev_inv [OF t1 region_end_small n(2,3) adj(1) n(5), folded rs']
  have "rstatus q = FREE \<or> rstatus q = ALLOCATED" if "q \<in> set rs'" for q
    using p(4) that st n(4) by (metis Un_iff in_set_conv_decomp list.set_intros(2) set_append subsetD)
  then show "vspace_inv rs'" unfolding vspace_inv_def using p(1,2) by blast
  have "handed_out rs' = handed_out ps \<union> handed_out qs"
    unfolding p(3) using n(2,6) by (simp add: handed_out_Cons)
  moreover have "(raddr r, rsize r) \<notin> handed_out ps \<union> handed_out qs"
    using tiles_disjoint [OF t] by (fastforce simp: handed_out_def)
  ultimately show "handed_out rs' = handed_out (ps @ r # qs) - {(raddr r, rsize r)}"
    by (auto simp: handed_out_Cons)
qed

section \<open>A third block allocator\<close>

text \<open>
  The operations as a client sees them, on lists of regions: \<open>page_request\<close> of \<open>n\<close> pages and the
  release of a region it holds, found by its address as \<open>free_address\<close> finds it.
\<close>

definition vspace_request :: "region list \<Rightarrow> nat \<Rightarrow> ((u64 \<times> u64) option \<times> region list) outcome" where
  "vspace_request rs n = Inr (case spec_allocate (of_nat n) rs of
     None \<Rightarrow> (None, rs) | Some (a, rs') \<Rightarrow> (Some (a, of_nat n), rs'))"

definition spec_release :: "u64 \<Rightarrow> region list \<Rightarrow> region list" where
  "spec_release page rs =
     (case List.extract (\<lambda>r. raddr r = page) rs of
        None \<Rightarrow> rs
      | Some (ps, r, qs) \<Rightarrow> spec_merge page ps (r\<lparr>rstatus := FREE\<rparr>) qs)"

definition vspace_return :: "region list \<Rightarrow> u64 \<times> u64 \<Rightarrow> region list outcome" where
  "vspace_return rs b = Inr (spec_release (fst b) rs)"

definition vspace_live :: "region list \<Rightarrow> (u64 \<times> u64) set \<Rightarrow> bool" where
  "vspace_live rs L \<longleftrightarrow> vspace_inv rs \<and> handed_out rs = L"

lemma spec_release_eq:
  assumes "vspace_inv (ps @ r # qs)"
  shows "spec_release (raddr r) (ps @ r # qs) = spec_merge (raddr r) ps (r\<lparr>rstatus := FREE\<rparr>) qs"
proof -
  have t: "tiles (unat PETMEM_REGION_START) (ps @ r # qs) region_end" using assms by (simp add: vspace_inv_def)
  have "\<forall>p \<in> set ps. raddr p \<noteq> raddr r" using tiles_disjoint [OF t] by blast
  then have "List.extract (\<lambda>q. raddr q = raddr r) (ps @ r # qs) = Some (ps, r, qs)"
    by (auto simp: extract_Some_iff)
  then show ?thesis by (simp add: spec_release_def)
qed

interpretation vsp: block_allocator vspace_live vspace_request vspace_return
    "\<lambda>rs n. 0 < n \<and> n < 2 ^ 32" vspan
proof
  fix rs :: "region list" and L n
  assume l: "vspace_live rs L" and n: "0 < n \<and> n < (2 :: nat) ^ 32"
  have u: "0 < unat (of_nat n :: u64)" using n unat_of_nat_u64 [of n] by simp
  show "\<exists>r s'. vspace_request rs n = Inr (r, s') \<and> (\<forall>k. (0 < k \<and> k < 2 ^ 32) = (0 < k \<and> k < (2 :: nat) ^ 32)) \<and>
      (case r of None \<Rightarrow> vspace_live s' L | Some b \<Rightarrow> b \<notin> L \<and> vspace_live s' (insert b L))"
  proof (cases "spec_allocate (of_nat n) rs")
    case None
    then show ?thesis using l by (simp add: vspace_request_def)
  next
    case (Some p)
    then obtain a rs' where p: "spec_allocate (of_nat n) rs = Some (a, rs')" by (cases p) auto
    then show ?thesis
      using spec_allocate_inv [OF _ u p] l by (simp add: vspace_request_def vspace_live_def)
  qed
next
  fix rs :: "region list" and L b
  assume l: "vspace_live rs L" and b: "b \<in> L"
  then obtain r where r: "r \<in> set rs" "b = (raddr r, rsize r)" "rstatus r = ALLOCATED"
    by (auto simp: vspace_live_def handed_out_def)
  then obtain ps qs where "rs = ps @ r # qs" by (meson split_list)
  then show "\<exists>s'. vspace_return rs b = Inr s' \<and> (\<forall>k. (0 < k \<and> k < 2 ^ 32) = (0 < k \<and> k < (2 :: nat) ^ 32)) \<and>
      vspace_live s' (L - {b})"
    using spec_merge_inv [of ps r qs] spec_release_eq [of ps r qs] l r
    by (simp add: vspace_return_def vspace_live_def)
next
  fix rs :: "region list" and L b c
  assume l: "vspace_live rs L" and bc: "b \<in> L" "c \<in> L" "b \<noteq> c"
  then obtain r q where r: "r \<in> set rs" "b = (raddr r, rsize r)" "q \<in> set rs" "c = (raddr q, rsize q)"
    by (auto simp: vspace_live_def handed_out_def)
  then obtain ps qs where d: "rs = ps @ r # qs" by (meson split_list)
  have "q \<in> set ps \<union> set qs" using r bc(3) d by auto
  then show "vspan b \<inter> vspan c = {}"
    using tiles_disjoint [of _ ps r qs _ q] l d r by (auto simp: vspace_live_def vspace_inv_def)
qed

section \<open>Properties\<close>

text \<open>
  C11. \<open>allocate\<close> on the list in memory, for a positive number of pages, ends. If no free region is
  large enough it returns \<open>-1\<close> and changes nothing; otherwise it returns the address of a range
  of that many pages that was free in all its bytes, marks exactly that range as allocated
  and keeps the tiling, writing only to the list's nodes.
\<close>

theorem allocate_correct:
  assumes r: "regions m head ns rs" and inv: "vspace_inv rs" and ap: "nodes_apart head (new # ns)" and sz: "0 < sz"
  shows "\<exists>a m' ns' rs'. allocate new head sz m = Some (a, m') \<and> regions m' head ns' rs' \<and> vspace_inv rs' \<and>
    set ns' \<subseteq> insert new (set ns) \<and> (\<forall>x. x \<notin> region_words head (new # ns) \<longrightarrow> m' x = m x) \<and>
    (if \<exists>r \<in> set rs. fits sz r
     then handed_out rs' = insert (a, sz) (handed_out rs) \<and> (a, sz) \<notin> handed_out rs \<and> vspan (a, sz) \<subseteq> free_area rs
     else a = -1 \<and> m' = m \<and> rs' = rs)"
proof (cases "spec_allocate sz rs")
  case None
  then have "\<not> (\<exists>r \<in> set rs. fits sz r)" by (simp add: spec_allocate_None)
  then show ?thesis
    using allocate_refines [OF r ap, of sz] None r inv by (intro exI [of _ "-1"] exI [of _ m] exI [of _ ns] exI [of _ rs]) auto
next
  case (Some p)
  then obtain a rs' where p: "spec_allocate sz rs = Some (a, rs')" by (cases p) auto
  then have "\<exists>r \<in> set rs. fits sz r" using spec_allocate_None [of sz rs] by auto
  moreover have "0 < unat sz" using sz by (simp add: word_less_nat_alt)
  ultimately show ?thesis
    using allocate_refines [OF r ap, of sz] spec_allocate_inv [OF inv _ p] p by auto
qed

text \<open>The list of a new process: one free region, the whole.\<close>

definition whole_region :: region where
  "whole_region = \<lparr>rstatus = FREE, rsize = 0x2000000, raddr = PETMEM_REGION_START\<rparr>"

lemma whole_region_inv: "vspace_inv [whole_region]" "handed_out [whole_region] = {}"
  by (simp_all add: vspace_inv_def whole_region_def region_end_def PETMEM_REGION_START_def PETMEM_REGION_END_def
      handed_out_def)

text \<open>
  The list \<open>petmem_init_process\<close> builds holds one free region, the whole 128 GB, and satisfies the
  invariant with nothing handed out.
\<close>

lemma init_regions_correct:
  assumes ap: "nodes_apart head [first_node]"
  shows "regions (init_regions first_node head m) head [first_node] [whole_region] \<and>
    vspace_inv [whole_region] \<and> handed_out [whole_region] = {} \<and>
    (\<forall>x. x \<notin> region_words head [first_node] \<longrightarrow> init_regions first_node head m x = m x)"
proof -
  let ?n = first_node
  let ?m4 = "set_page_addr ?n PETMEM_REGION_START
    (set_size ?n (drop_bit PAGE_POWER_4KB (PETMEM_REGION_END - PETMEM_REGION_START))
    (set_status ?n FREE (INIT_LIST_HEAD head m)))"
  let ?m5 = "INIT_LIST_HEAD (lnode ?n) ?m4"
  have hn: "head \<notin> node_words ?n" "head + 8 \<notin> node_words ?n" using nodes_apartD(2,3) [OF ap] by simp_all
  have sp: "sep (insert (lnode ?n) (set (head # [])))" by (rule sep_subset [OF nodes_apart_sep [OF ap]]) auto
  have d4: "?m5 head = head" "?m5 (head + 8) = head"
    using hn by (auto simp: INIT_LIST_HEAD_def set_status_def set_size_def set_page_addr_def node_words_def lnode_def)
  then have d5: "dlist ?m5 head []" by (simp add: dlist_def)
  have ln: "lnode ?n \<notin> set [head]" using hn(1) node_words_lnode(1) [of ?n] by auto
  have "dlist (list_add (lnode ?n) head ?m5) head (map lnode [?n])" using dlist_list_add [OF d5 ln sp] by simp
  moreover have "reg_at (list_add (lnode ?n) head ?m5) ?n = whole_region"
  proof -
    have "reg_at (list_add (lnode ?n) head ?m5) ?n = reg_at ?m5 ?n"
      by (rule reg_at_cong, rule list_add_frame [OF d5])
        (use data_not_link [OF ap, of ?n] in \<open>fastforce+\<close>)
    also have "\<dots> = reg_at ?m4 ?n"
      by (rule reg_at_cong) (auto simp: INIT_LIST_HEAD_def lnode_def)
    also have "\<dots> = whole_region"
      unfolding reg_at_sets
      by (simp add: reg_at_def whole_region_def PETMEM_REGION_START_def PETMEM_REGION_END_def)
    finally show ?thesis .
  qed
  moreover have "init_regions ?n head m x = m x" if x: "x \<notin> region_words head [?n]" for x
  proof -
    have "list_add (lnode ?n) head ?m5 x = ?m5 x"
      by (rule list_add_frame [OF d5]) (use x in \<open>auto simp: region_words_def node_words_def lnode_def\<close>)
    also have "\<dots> = m x"
      using x by (simp add: INIT_LIST_HEAD_def set_status_def set_size_def set_page_addr_def region_words_def node_words_def lnode_def
          add.commute [of 32 first_node])
    finally show ?thesis by (simp add: init_regions_def Let_def)
  qed
  ultimately show ?thesis
    using ap whole_region_inv by (simp add: regions_def init_regions_def Let_def)
qed

text \<open>A process for the witnesses: list head at \<open>0x5000\<close>, node addresses from \<open>0x6000\<close> on.\<close>

definition demo_regions :: mem where
  "demo_regions = init_regions 0x6000 0x5000 (\<lambda>_. 0)"

lemma demo_apart: "nodes_apart 0x5000 [0x6000]" "nodes_apart 0x5000 [0x6100, 0x6000]"
  by (simp_all add: nodes_apart_def node_words_def)

lemma demo_regions_ok: "regions demo_regions 0x5000 [0x6000] [whole_region]"
  using init_regions_correct [OF demo_apart(1)] by (simp add: demo_regions_def)

theorem allocate_correct_witness:
  "\<exists>a m' ns' rs'. allocate 0x6100 0x5000 3 demo_regions = Some (a, m') \<and> regions m' 0x5000 ns' rs' \<and>
     vspace_inv rs' \<and> handed_out rs' = {(a, 3)}"
proof -
  have "\<exists>r \<in> set [whole_region]. fits 3 r" by (simp add: fits_def whole_region_def)
  then show ?thesis
    using allocate_correct [OF demo_regions_ok whole_region_inv(1) demo_apart(2), of 3] whole_region_inv(2) by auto
qed

text \<open>
  Releasing the region at an address: the search finds its node, and marking it free and merging
  it with its neighbours leaves a list in its invariant from which exactly this region is gone
  from those handed out, provided that what lies in front of \<open>struct mem_map\<close> in memory does not
  look like a free region.
\<close>

lemma find_region_node:
  assumes r: "regions m head (xs @ n # ys) (ps @ r # qs)" and len: "length ps = length xs" and inv: "vspace_inv (ps @ r # qs)"
  shows "find_region m head (m head) (raddr r) 0 = Some n"
proof -
  have e: "ps = map (reg_at m) xs" "r = reg_at m n" "qs = map (reg_at m) ys"
    using regions_split [OF r] len by auto
  have t: "tiles (unat PETMEM_REGION_START) (ps @ r # qs) region_end" using inv by (simp add: vspace_inv_def)
  have "filter (\<lambda>k. raddr (reg_at m k) = raddr r) (xs @ n # ys) = [n]"
    using tiles_disjoint [OF t] e by (auto simp: filter_empty_conv)
  then show ?thesis
    using find_region_chain [of m head "xs @ n # ys" head "raddr r" 0] r by (simp add: regions_def dlist_def image_Un)
qed

lemma release_region:
  assumes r: "regions m head (xs @ n # ys) (ps @ r # qs)" and len: "length ps = length xs"
    and inv: "vspace_inv (ps @ r # qs)" and q: "head_quiet m head (xs @ n # ys) (raddr r)"
  defines "m' \<equiv> merge_regions n (raddr r) (set_status n FREE m)"
  shows "\<exists>ns' rs'. regions m' head ns' rs' \<and> vspace_inv rs' \<and> handed_out rs' = handed_out (ps @ r # qs) - {(raddr r, rsize r)} \<and>
    set ns' \<subseteq> set (xs @ n # ys) \<and> (\<forall>x. x \<notin> region_words head (xs @ n # ys) \<longrightarrow> m' x = m x)"
proof -
  have e: "ps = map (reg_at m) xs" "r = reg_at m n" "qs = map (reg_at m) ys"
    using regions_split [OF r] len by auto
  let ?m = "set_status n FREE m"
  have u: "regions ?m head (xs @ n # ys) (ps @ r\<lparr>rstatus := FREE\<rparr> # qs)"
    using regions_update [OF r, of ?m] e by (simp add: set_frames reg_at_sets)
  have fr: "?m a = m a" if "a \<notin> region_words head (xs @ n # ys)" for a
    using that by (auto simp: region_words_def node_words_def intro!: set_frames)
  then have "head_quiet ?m head (xs @ n # ys) (raddr r)"
    using head_quiet_cong [OF q, of ?m] q by (simp add: head_quiet_def)
  then obtain ns' where "regions m' head ns' (spec_merge (raddr r) ps (r\<lparr>rstatus := FREE\<rparr>) qs)"
    "set ns' \<subseteq> set (xs @ n # ys)" "\<forall>x. x \<notin> region_words head (xs @ n # ys) \<longrightarrow> m' x = ?m x"
    using merge_regions_refines [OF u len] unfolding m'_def by blast
  then show ?thesis using spec_merge_inv [OF inv] fr by metis
qed



lemma holds_span:
  assumes inv: "vspace_inv rs" and r: "r \<in> set rs"
  shows "holds address r \<longleftrightarrow> rstatus r = ALLOCATED \<and> unat address \<in> vspan (raddr r, rsize r)"
proof -
  have b: "unat (raddr r) + 4096 * unat (rsize r) < 2 ^ 39"
    using tiles_bounds [OF _ r] inv region_end_small by (fastforce simp: vspace_inv_def)
  then have "unat (4096 * rsize r) = 4096 * unat (rsize r)"
    by (subst unat_mult_lem [THEN iffD1]) simp_all
  then have "unat (raddr r + 4096 * rsize r) = unat (raddr r) + 4096 * unat (rsize r)"
    using b by (subst unat_add_small) simp_all
  then show ?thesis by (auto simp: holds_def vspan_def word_le_nat_alt word_less_nat_alt)
qed

text \<open>
  C29. \<open>check_address_range\<close> ends and accepts exactly the addresses inside regions handed out.
\<close>

theorem check_address_range_correct:
  assumes r: "regions m head ns rs" and inv: "vspace_inv rs"
  shows "check_address_range head address m =
    Some (if \<exists>b \<in> handed_out rs. unat address \<in> vspan b then ALLOCATED_ADDRESS_RANGE else NOT_VALID_RANGE)"
proof -
  have "holds address r \<longleftrightarrow> rstatus r = ALLOCATED \<and> unat address \<in> vspan (raddr r, rsize r)" if "r \<in> set rs" for r
    by (rule holds_span [OF inv that])
  then have "(\<exists>r \<in> set rs. holds address r) \<longleftrightarrow> (\<exists>b \<in> handed_out rs. unat address \<in> vspan b)"
    by (fastforce simp: handed_out_def)
  then show ?thesis using check_address_range_regions [OF r] by simp
qed

theorem check_address_range_correct_witness:
  "check_address_range 0x5000 0x1000000000 demo_regions = Some NOT_VALID_RANGE"
  using check_address_range_correct [OF demo_regions_ok whole_region_inv(1), of "0x1000000000"] whole_region_inv(2)
  by simp

text \<open>
  A request for 0 pages is answered with the address of the first free region, and the next
  request with the same address: two regions of the list then begin there.
\<close>

theorem allocate_zero_shares:
  "(case allocate 0x6100 0x5000 0 demo_regions of None \<Rightarrow> None
    | Some (a, m1) \<Rightarrow> map_option (\<lambda>(b, m2). (a, b)) (allocate 0x6200 0x5000 1 m1)) =
   Some (PETMEM_REGION_START, PETMEM_REGION_START)"
  by code_simp

end
