(* ===== verification/Walk.thy ===== *)
theory Walk
  imports Frames On_Demand Vspace_Correct
begin

text \<open>
  The page tables of a process as a tree. For the addresses of the petmem region the walk of the
  code follows a path of at most three indices below the one entry of the top table; \<open>table\<close> is the
  page at the end of a path. The invariant is that no page is at the end of two paths; under it,
  changing one entry changes the tree at that path and nowhere else.
\<close>

section \<open>Entry fields\<close>

lemma pte_pos:
  "field_pos pte64 ''present'' = Some (0, 1)" "field_pos pte64 ''writable'' = Some (1, 1)"
  "field_pos pte64 ''user_page'' = Some (2, 1)" "field_pos pte64 ''accessed'' = Some (5, 1)"
  "field_pos pte64 ''dirty'' = Some (6, 1)" "field_pos pte64 ''page_base_addr'' = Some (12, 40)"
  by (simp_all add: pte64_def)

lemma entry_get_set:
  assumes "field_pos pte64 f = Some (lo, n)"
  shows "entry_get g (entry_set f v e m) x = (if x = e \<and> g = f then take_bit n v else entry_get g m x)"
proof -
  have "width pte64 \<le> 64" by (simp add: width_def pte64_def)
  then show ?thesis using get_set_field [OF _ assms] by (simp add: entry_get_def entry_set_def)
qed

lemmas entry_field_simps = pte_pos [THEN entry_get_set]

lemma entry_set_other [simp]: "x \<noteq> e \<Longrightarrow> entry_set f v e m x = m x"
  by (simp add: entry_set_def)

text \<open>What the walk sees of an entry depends on its word only.\<close>

lemma entry_cong:
  assumes "m' e = m e"
  shows "entry_get f m' e = entry_get f m e" "present m' e = present m e" "entry_table m' e = entry_table m e"
  using assms by (simp_all add: entry_get_def present_def entry_table_def)

lemma next_entry_table: "next_entry m e i = entry_table m e + i * 8"
  by (simp add: next_entry_def entry_table_def va_def)

text \<open>Page addresses the allocator can give: in the direct mapping, aligned.\<close>

definition page_ok :: "u64 \<Rightarrow> bool" where
  "page_ok t \<longleftrightarrow> 4096 dvd unat t \<and> unat t + 4096 < 2 ^ 64 \<and> unat PAGE_OFFSET < unat t"

lemma base_addr_roundtrip:
  assumes "4096 dvd unat x" "unat x < 2 ^ 52"
  shows "push_bit 12 (take_bit 40 (drop_bit 12 (x :: u64))) = x"
proof -
  have "unat (drop_bit 12 x) = unat x div 4096" by (simp add: unat_drop_bit)
  moreover then have "unat x div 4096 < 2 ^ 40" using assms(2) by (simp add: less_mult_imp_div_less)
  ultimately have t: "take_bit 40 (drop_bit 12 x) = drop_bit 12 x"
    by (simp add: word_unat_eq_iff unsigned_take_bit_eq take_bit_nat_eq_self)
  have "unat (push_bit 12 (drop_bit 12 x)) = unat x"
    using assms unat_less_pow2 [of x] \<open>unat (drop_bit 12 x) = unat x div 4096\<close>
    by (subst unat_push_bit) simp_all
  then show ?thesis unfolding t by (simp add: word_unat_eq_iff)
qed

lemma entry_table_set_base:
  assumes "page_ok t"
  shows "entry_table (entry_set ''page_base_addr'' (PAGE_TO_BASE_ADDR (pa t)) e m) e = t"
proof -
  have u: "unat (pa t) = unat t - unat PAGE_OFFSET"
    using assms by (simp add: pa_def page_ok_def unat_sub_small)
  have "4096 dvd unat (pa t)" unfolding u using assms
    by (intro dvd_diff_nat) (simp_all add: page_ok_def PAGE_OFFSET_def)
  moreover have "unat (pa t) < 2 ^ 52" unfolding u using assms by (auto simp: page_ok_def PAGE_OFFSET_def)
  ultimately have "push_bit 12 (take_bit 40 (drop_bit 12 (pa t))) = pa t" by (rule base_addr_roundtrip)
  then show ?thesis
    by (simp add: entry_table_def entry_field_simps PAGE_TO_BASE_ADDR_def BASE_TO_PAGE_ADDR_def)
qed

section \<open>Entries within a page\<close>

lemma entry_in_page:
  assumes "page_ok t" "unat i < 512"
  shows "unat (t + i * 8) = unat t + 8 * unat i" "t + i * 8 \<in> page_at t"
proof -
  have "unat (i * 8) = 8 * unat i" using assms(2) by (simp add: unat_word_ariths)
  then show u: "unat (t + i * 8) = unat t + 8 * unat i"
    using assms by (subst unat_add_small) (simp_all add: page_ok_def)
  show "t + i * 8 \<in> page_at t" using u assms(2) by (simp add: byte_range_def)
qed

lemma page_ok_disjoint:
  assumes "page_ok t" "page_ok u" "t \<noteq> u"
  shows "page_at t \<inter> page_at u = {}"
proof -
  obtain a b where "unat t = 4096 * a" "unat u = 4096 * b" using assms by (auto simp: page_ok_def elim!: dvdE)
  moreover then have "a \<noteq> b" using assms(3) by (auto simp: word_unat_eq_iff)
  ultimately show ?thesis by (auto simp: byte_range_def)
qed

lemma entry_inject:
  assumes "page_ok t" "page_ok u" "unat i < 512" "unat j < 512"
  shows "t + i * 8 = u + j * 8 \<longleftrightarrow> t = u \<and> i = j"
proof (cases "t = u")
  case True
  have "unat (t + i * 8) = unat (t + j * 8) \<longleftrightarrow> unat i = unat j"
    using entry_in_page(1) [OF assms(1,3)] entry_in_page(1) [OF assms(1,4)] by simp
  then show ?thesis unfolding True word_unat_eq_iff by simp
next
  case False
  then show ?thesis
    using page_ok_disjoint [OF assms(1,2) False] entry_in_page(2) [OF assms(1,3)] entry_in_page(2) [OF assms(2,4)] by auto
qed

section \<open>Paths\<close>

definition in_region :: "u64 \<Rightarrow> bool" where
  "in_region a \<longleftrightarrow> PETMEM_REGION_START \<le> a \<and> a < PETMEM_REGION_END"

text \<open>The indices of an address below the top table, the last one first.\<close>

definition rpath :: "u64 \<Rightarrow> nat \<Rightarrow> u64 list" where
  "rpath a n = rev (take n [PDPE64_INDEX a, PDE64_INDEX a, PTE64_INDEX a])"

definition region_paths :: "u64 list set" where
  "region_paths = {rpath a n | a n. in_region a}"

lemma rpath_simps [simp]:
  "rpath a 0 = []" "rpath a (Suc 0) = [PDPE64_INDEX a]" "rpath a 2 = [PDE64_INDEX a, PDPE64_INDEX a]"
  "rpath a 3 = [PTE64_INDEX a, PDE64_INDEX a, PDPE64_INDEX a]"
  by (simp_all add: rpath_def numeral_3_eq_3)

lemma index_less: "unat (PDPE64_INDEX a) < 512" "unat (PDE64_INDEX a) < 512" "unat (PTE64_INDEX a) < 512"
  unfolding index_defs and_masks using take_bit_9_less by (simp_all add: word_less_nat_alt)

lemma region_path_cases:
  assumes "\<pi> \<in> region_paths"
  obtains a n where "in_region a" "n \<le> 3" "\<pi> = rpath a n"
proof -
  obtain a n where a: "in_region a" "\<pi> = rpath a n" using assms by (auto simp: region_paths_def)
  have "rpath a n = rpath a (min n 3)" by (auto simp: rpath_def min_def)
  then show thesis using that [of a "min n 3"] a by simp
qed

lemma region_path_Cons:
  assumes "i # \<pi> \<in> region_paths"
  shows "\<pi> \<in> region_paths" "unat i < 512" "length \<pi> < 3"
proof -
  obtain a n where a: "in_region a" "n \<le> 3" "i # \<pi> = rpath a n" using assms by (rule region_path_cases)
  then consider "n = 1" | "n = 2" | "n = 3" by (cases n) (force simp: rpath_def)+
  then have "\<pi> = rpath a (n - 1) \<and> unat i < 512 \<and> length \<pi> < 3"
    using a(3) index_less [of a] by cases auto
  then show "\<pi> \<in> region_paths" "unat i < 512" "length \<pi> < 3" using a(1) by (auto simp: region_paths_def)
qed

lemma rpath_region: "in_region a \<Longrightarrow> rpath a n \<in> region_paths"
  by (auto simp: region_paths_def)

lemma region_bounds: "in_region a \<Longrightarrow> unat a < 2 ^ 39"
  by (simp add: in_region_def PETMEM_REGION_END_def word_less_nat_alt)

text \<open>The pml4 index is 0 throughout the region: there the scaled index does no harm.\<close>

lemma region_root: "in_region a \<Longrightarrow> pml4_entry cr a = CR3_TO_PML4E64_VA cr"
proof -
  assume "in_region a"
  then have "unat (drop_bit 39 a) = 0" using region_bounds by (simp add: unat_drop_bit)
  then have "PML4E64_INDEX a = 0" by (simp add: PML4E64_INDEX_def unat_eq_zero)
  then show ?thesis by (simp add: pml4_entry_def)
qed

text \<open>The three indices of an address of the region determine its page.\<close>

lemma rpath_page:
  assumes "in_region a" "in_region b"
  shows "rpath a 3 = rpath b 3 \<longleftrightarrow> drop_bit 12 a = drop_bit 12 b"
proof
  assume "drop_bit 12 a = drop_bit 12 b"
  then have "drop_bit 21 a = drop_bit 21 b" "drop_bit 30 a = drop_bit 30 b"
    using drop_bit_drop_bit [of 9 12 a] drop_bit_drop_bit [of 9 12 b] drop_bit_drop_bit [of 18 12 a]
      drop_bit_drop_bit [of 18 12 b] by simp_all
  then show "rpath a 3 = rpath b 3" using \<open>drop_bit 12 a = drop_bit 12 b\<close> by (simp add: index_defs)
next
  assume e: "rpath a 3 = rpath b 3"
  have hi: "\<not> bit x i" if "in_region x" "39 \<le> i" for x i
  proof -
    have "unat x < 2 ^ i" using region_bounds [OF that(1)] that(2) power_increasing [of 39 i "2 :: nat"] by simp
    then have "\<not> bit (unat x) i" by (simp add: bit_iff_odd)
    then show ?thesis by (simp add: bit_unsigned_iff)
  qed
  show "drop_bit 12 a = drop_bit 12 b"
  proof (rule bit_word_eqI)
    fix i assume "i < LENGTH(64)"
    have s: "bit (take_bit 9 (drop_bit k a)) j = bit (take_bit 9 (drop_bit k b)) j" if "k \<in> {12, 21, 30}" for k j
      using that e by (auto simp: index_defs and_masks)
    consider "i < 9" | "9 \<le> i" "i < 18" | "18 \<le> i" "i < 27" | "27 \<le> i" by linarith
    then show "bit (drop_bit 12 a) i = bit (drop_bit 12 b) i"
    proof cases
      case 1
      then show ?thesis using s [of 12 i] by (simp add: bit_simps)
    next
      case 2
      then have "i - 9 < 9" by linarith
      then show ?thesis using 2 s [of 21 "i - 9"] by (simp add: bit_simps)
    next
      case 3
      then have "i - 18 < 9" by linarith
      then show ?thesis using 3 s [of 30 "i - 18"] by (simp add: bit_simps)
    next
      case 4
      then show ?thesis using hi [OF assms(1), of "12 + i"] hi [OF assms(2), of "12 + i"] by (simp add: bit_simps)
    qed
  qed
qed

section \<open>The tree\<close>

fun table :: "mem \<Rightarrow> u64 \<Rightarrow> u64 list \<Rightarrow> u64 option" where
  "table m root [] = (if present m root then Some (entry_table m root) else None)"
| "table m root (i # \<pi>) =
     (case table m root \<pi> of
        None \<Rightarrow> None
      | Some t \<Rightarrow> if present m (t + i * 8) then Some (entry_table m (t + i * 8)) else None)"

definition entry_of :: "mem \<Rightarrow> u64 \<Rightarrow> u64 list \<Rightarrow> u64 option" where
  "entry_of m root \<rho> = (case \<rho> of [] \<Rightarrow> Some root | i # \<pi> \<Rightarrow> map_option (\<lambda>t. t + i * 8) (table m root \<pi>))"

lemma entry_of_simps [simp]:
  "entry_of m root [] = Some root"
  "entry_of m root (i # \<pi>) = map_option (\<lambda>t. t + i * 8) (table m root \<pi>)"
  by (simp_all add: entry_of_def)

lemma table_entry:
  "table m root \<rho> = (case entry_of m root \<rho> of
     None \<Rightarrow> None | Some e \<Rightarrow> if present m e then Some (entry_table m e) else None)"
  by (cases \<rho>) (auto split: option.splits)

text \<open>The code's walk follows the tree.\<close>

lemma get_valid_page_entry_table:
  assumes "in_region a"
  shows "get_valid_page_entry m cr a =
    (case entry_of m (CR3_TO_PML4E64_VA cr) (rpath a 3) of
       None \<Rightarrow> 0 | Some e \<Rightarrow> if present m e then e else 0)"
  unfolding get_valid_page_entry_def region_root [OF assms] next_entry_table Let_def
  by (simp add: table_entry)

definition tables_ok :: "mem \<Rightarrow> u64 \<Rightarrow> bool" where
  "tables_ok m root \<longleftrightarrow>
     (\<forall>\<pi> \<in> region_paths. \<forall>t. table m root \<pi> = Some t \<longrightarrow> page_ok t \<and> root \<notin> page_at t) \<and>
     (\<forall>\<pi> \<in> region_paths. \<forall>\<rho> \<in> region_paths. \<forall>t. table m root \<pi> = Some t \<longrightarrow> table m root \<rho> = Some t \<longrightarrow> \<pi> = \<rho>)"

lemma tables_okD:
  assumes "tables_ok m root" "\<pi> \<in> region_paths" "table m root \<pi> = Some t"
  shows "page_ok t" "root \<notin> page_at t" "\<rho> \<in> region_paths \<Longrightarrow> table m root \<rho> = Some t \<Longrightarrow> \<rho> = \<pi>"
  using assms unfolding tables_ok_def by blast+

text \<open>The words the walks of the region read: the top entry and the tables.\<close>

definition table_pages :: "mem \<Rightarrow> u64 \<Rightarrow> u64 set" where
  "table_pages m root = {t. \<exists>\<pi> \<in> region_paths. length \<pi> < 3 \<and> table m root \<pi> = Some t}"

definition user_pages :: "mem \<Rightarrow> u64 \<Rightarrow> u64 set" where
  "user_pages m root = {t. \<exists>a. in_region a \<and> table m root (rpath a 3) = Some t}"

definition walk_words :: "mem \<Rightarrow> u64 \<Rightarrow> u64 set" where
  "walk_words m root = insert root (\<Union>t \<in> table_pages m root. page_at t)"

lemma entry_of_Cons:
  assumes ok: "tables_ok m root" and p: "i # \<pi> \<in> region_paths" and e: "entry_of m root (i # \<pi>) = Some e"
  obtains t where "table m root \<pi> = Some t" "page_ok t" "e = t + i * 8" "e \<in> page_at t" "t \<in> table_pages m root"
proof -
  note q = region_path_Cons [OF p]
  obtain t where t: "table m root \<pi> = Some t" "e = t + i * 8" using e by auto
  note k = tables_okD(1) [OF ok q(1) t(1)]
  show thesis
    using that [OF t(1) k t(2)] entry_in_page(2) [OF k q(2)] t q by (auto simp: table_pages_def)
qed

lemma entry_of_walk:
  assumes "tables_ok m root" "\<rho> \<in> region_paths" "entry_of m root \<rho> = Some e"
  shows "e \<in> walk_words m root"
proof (cases \<rho>)
  case Nil
  then show ?thesis using assms(3) by (simp add: walk_words_def)
next
  case (Cons i \<pi>)
  obtain t where "e \<in> page_at t" "t \<in> table_pages m root"
    by (rule entry_of_Cons [OF assms(1) assms(2,3) [unfolded Cons]])
  then show ?thesis by (auto simp: walk_words_def)
qed

lemma entry_of_root:
  assumes "tables_ok m root" "i # \<pi> \<in> region_paths"
  shows "entry_of m root (i # \<pi>) \<noteq> Some root"
proof
  assume "entry_of m root (i # \<pi>) = Some root"
  then obtain t where "table m root \<pi> = Some t" "root \<in> page_at t"
    by (rule entry_of_Cons [OF assms])
  then show False using tables_okD(2) [OF assms(1) region_path_Cons(1) [OF assms(2)]] by blast
qed

lemma entry_of_inject:
  assumes ok: "tables_ok m root" and p: "\<rho> \<in> region_paths" "\<sigma> \<in> region_paths"
    and e: "entry_of m root \<rho> = Some e" "entry_of m root \<sigma> = Some e"
  shows "\<rho> = \<sigma>"
proof (cases \<rho>; cases \<sigma>)
  fix i \<pi> assume c: "\<rho> = []" "\<sigma> = i # \<pi>"
  then have "entry_of m root (i # \<pi>) = Some root" using e by (simp only: entry_of_simps(1))
  then show ?thesis using entry_of_root [OF ok] p(2) c(2) by blast
next
  fix i \<pi> assume c: "\<rho> = i # \<pi>" "\<sigma> = []"
  then have "entry_of m root (i # \<pi>) = Some root" using e by (simp only: entry_of_simps(1))
  then show ?thesis using entry_of_root [OF ok] p(1) c(1) by blast
next
  fix i \<pi> j \<tau> assume c: "\<rho> = i # \<pi>" "\<sigma> = j # \<tau>"
  obtain t where t: "table m root \<pi> = Some t" "page_ok t" "e = t + i * 8"
    by (rule entry_of_Cons [OF ok p(1) [unfolded c] e(1) [unfolded c]])
  obtain u where u: "table m root \<tau> = Some u" "page_ok u" "e = u + j * 8"
    by (rule entry_of_Cons [OF ok p(2) [unfolded c] e(2) [unfolded c]])
  note q = region_path_Cons [OF p(1) [unfolded c(1)]] region_path_Cons [OF p(2) [unfolded c(2)]]
  have "t = u \<and> i = j" using entry_inject [OF t(2) u(2) q(2,5)] t(3) u(3) by simp
  then show ?thesis using tables_okD(3) [OF ok q(1) t(1) q(4)] u(1) c by simp
qed simp

text \<open>
  One entry changes, at the end of a path below which there is nothing: it gets a page whose
  entries are all absent, a page of user memory, or nothing.
\<close>

lemma table_change:
  assumes ok: "tables_ok m root" and p: "\<rho>\<^sub>0 \<in> region_paths" and e: "entry_of m root \<rho>\<^sub>0 = Some e"
    and leaf: "length \<rho>\<^sub>0 = 3 \<or> table m root \<rho>\<^sub>0 = None"
    and keep: "\<And>x. x \<in> walk_words m root \<Longrightarrow> x \<noteq> e \<Longrightarrow> m' x = m x"
    and empty: "\<And>i. length \<rho>\<^sub>0 < 3 \<Longrightarrow> present m' e \<Longrightarrow> unat i < 512 \<Longrightarrow> \<not> present m' (entry_table m' e + i * 8)"
    and r: "\<rho> \<in> region_paths"
  shows "table m' root \<rho> =
    (if \<rho> = \<rho>\<^sub>0 then if present m' e then Some (entry_table m' e) else None else table m root \<rho>)"
  using r
proof (induction \<rho>)
  case Nil
  show ?case
  proof (cases "\<rho>\<^sub>0 = []")
    case True
    then show ?thesis using e by simp
  next
    case False
    have "root \<noteq> e" using entry_of_inject [OF ok p Nil e] False by auto
    then have "m' root = m root" by (intro keep) (auto simp: walk_words_def)
    then show ?thesis using False entry_cong(2,3) [of m' root m] by simp
  qed
next
  case (Cons i \<pi>)
  note q = region_path_Cons [OF Cons.prems]
  note IH = Cons.IH [OF q(1)]
  show ?case
  proof (cases "\<pi> = \<rho>\<^sub>0")
    case True
    then have "table m root \<rho>\<^sub>0 = None" using leaf q(3) by auto
    then show ?thesis using IH True empty [OF _ _ q(2)] q(3) by simp
  next
    case False
    then have IH: "table m' root \<pi> = table m root \<pi>" using IH by simp
    show ?thesis
    proof (cases "table m root \<pi>")
      case None
      then show ?thesis using IH e by auto
    next
      case (Some t)
      then have x: "entry_of m root (i # \<pi>) = Some (t + i * 8)" by simp
      show ?thesis
      proof (cases "i # \<pi> = \<rho>\<^sub>0")
        case True
        then have "e = t + i * 8" using x e by simp
        then show ?thesis using Some IH by (simp flip: True)
      next
        case False
        then have "t + i * 8 \<noteq> e" using entry_of_inject [OF ok p Cons.prems e] x by auto
        then have "m' (t + i * 8) = m (t + i * 8)"
          using entry_of_walk [OF ok Cons.prems x] by (intro keep)
        then show ?thesis using Some IH False entry_cong(2,3) [of m' "t + i * 8" m] by simp
      qed
    qed
  qed
qed

lemma length_rpath [simp]: "length (rpath a 3) = 3"
  by simp

declare table.simps [simp del] rpath_simps [simp del] entry_of_simps [simp del]

end
