(* ===== verification/Page_Bytes.thy ===== *)
theory Page_Bytes
  imports Frames On_Demand
begin

text \<open>
  Pages as sequences of bytes and of words: what \<open>memset\<close> and \<open>memcpy\<close> of a page do to memory, and
  that a page written to the swap space and read back is the same page.
\<close>

section \<open>Words of a page\<close>

definition page_word :: "u64 \<Rightarrow> nat \<Rightarrow> u64" where
  "page_word a i = a + 8 * of_nat i"

lemma page_word_inject: "i < 512 \<Longrightarrow> j < 512 \<Longrightarrow> page_word a i = page_word a j \<longleftrightarrow> i = j"
proof
  assume "i < 512" "j < 512" "page_word a i = page_word a j"
  then have "(of_nat (8 * i) :: u64) = of_nat (8 * j)" by (simp add: page_word_def)
  moreover have "unat (of_nat (8 * i) :: u64) = 8 * i" "unat (of_nat (8 * j) :: u64) = 8 * j"
    by (rule unat_of_nat_u64; use \<open>i < 512\<close> \<open>j < 512\<close> in simp)+
  ultimately have "8 * i = 8 * j" by metis
  then show "i = j" by simp
qed simp

lemma page_word_in:
  assumes "unat a + 4096 \<le> 2 ^ 64" "i < 512"
  shows "page_word a i \<in> page_at a" "unat (page_word a i) = unat a + 8 * i"
proof -
  have u: "unat (of_nat (8 * i) :: u64) = 8 * i" using assms(2) by (intro unat_of_nat_u64) simp
  have w: "page_word a i = a + of_nat (8 * i)" by (simp add: page_word_def)
  show "unat (page_word a i) = unat a + 8 * i"
    unfolding w using assms u by (subst unat_add_small) simp_all
  then show "page_word a i \<in> page_at a" using assms(2) by (simp add: byte_range_def)
qed

lemma fold_upd_other: "(\<And>i. i \<in> set xs \<Longrightarrow> f i \<noteq> x) \<Longrightarrow> fold (\<lambda>i m. m(f i := g i)) xs m x = m x"
  by (induction xs arbitrary: m) auto

lemma fold_upd_same:
  "distinct xs \<Longrightarrow> inj_on f (set xs) \<Longrightarrow> i \<in> set xs \<Longrightarrow> fold (\<lambda>i m. m(f i := g i)) xs m (f i) = g i"
proof (induction xs arbitrary: m)
  case (Cons y ys)
  show ?case
  proof (cases "i \<in> set ys")
    case True
    then show ?thesis using Cons by simp
  next
    case False
    then have "i = y" using Cons.prems(3) by simp
    then show ?thesis using Cons.prems(2) False by (subst fold_simps, subst fold_upd_other) (auto simp: inj_on_def)
  qed
qed simp

lemma inj_page_word: "inj_on (page_word a) (set [0 ..< 512])"
  by (simp add: inj_on_def page_word_inject)

lemma zero_page_word: "i < 512 \<Longrightarrow> zero_page a m (page_word a i) = 0"
  unfolding zero_page_def page_word_def [symmetric]
  by (rule fold_upd_same [OF _ inj_page_word, where g = "\<lambda>_. 0"]) simp_all

lemma write_page_word:
  "i < 512 \<Longrightarrow> write_page a bs m (page_word a i) = bytes_word (take 8 (drop (8 * i) bs))"
  unfolding write_page_def page_word_def [symmetric]
  by (rule fold_upd_same [OF _ inj_page_word, where g = "\<lambda>i. bytes_word (take 8 (drop (8 * i) bs))"]) simp_all

lemma page_write_other:
  assumes "unat a + 4096 \<le> 2 ^ 64" "x \<notin> page_at a"
  shows "zero_page a m x = m x" "write_page a bs m x = m x"
proof -
  have "page_word a i \<noteq> x" if "i < 512" for i using page_word_in(1) [OF assms(1) that] assms(2) by auto
  then show "zero_page a m x = m x" "write_page a bs m x = m x"
    unfolding zero_page_def write_page_def page_word_def [symmetric] by (intro fold_upd_other; simp)+
qed

section \<open>Words as bytes\<close>

lemma bytes_word_Cons: "bytes_word (b # bs) = ucast b OR push_bit 8 (bytes_word bs)"
  by (simp add: bytes_word_def)

lemma bytes_word_slices:
  "k \<le> n \<Longrightarrow> n \<le> 8 \<Longrightarrow>
   bytes_word (map (\<lambda>i. ucast (drop_bit (8 * i) w)) [k ..< n]) = take_bit (8 * (n - k)) (drop_bit (8 * k) w)"
proof (induction "n - k" arbitrary: k)
  case 0
  then show ?case by (simp add: bytes_word_def)
next
  case (Suc d)
  then have k: "k < n" by simp
  have IH: "bytes_word (map (\<lambda>i. ucast (drop_bit (8 * i) w)) [Suc k ..< n]) =
      take_bit (8 * (n - Suc k)) (drop_bit (8 * Suc k) w)"
    using Suc.hyps(2) Suc.prems k by (intro Suc.hyps(1)) simp_all
  have b: "bit (ucast (ucast (drop_bit (8 * k) w) :: u8) OR push_bit 8 (take_bit (8 * (n - Suc k)) (drop_bit (8 * Suc k) w))) i
      = bit (take_bit (8 * (n - k)) (drop_bit (8 * k) w)) i" for i
  proof (cases "i < 8")
    case True
    then have "i < 8 * (n - k)" using k by simp
    then show ?thesis using True k by (auto simp: bit_simps)
  next
    case False
    then have "i - 8 < 8 * (n - Suc k) \<longleftrightarrow> i < 8 * (n - k)" "8 * Suc k + (i - 8) = 8 * k + i" using k by auto
    then show ?thesis using False bit_imp_le_length [of w "8 * k + i"] by (auto simp: bit_simps)
  qed
  have "map (\<lambda>i. ucast (drop_bit (8 * i) w)) [k ..< n] =
      ucast (drop_bit (8 * k) w) # map (\<lambda>i. ucast (drop_bit (8 * i) w) :: u8) [Suc k ..< n]"
    using k by (simp add: upt_conv_Cons)
  then show ?case unfolding bytes_word_Cons IH using b by (simp add: bit_word_eqI bytes_word_Cons IH)
qed

lemma bytes_word_bytes: "bytes_word (word_bytes w) = w"
  using bytes_word_slices [of 0 8 w] by (simp add: word_bytes_def take_bit_word_eq_self)

lemma length_word_bytes: "length (word_bytes w) = 8"
  by (simp add: word_bytes_def)

lemma concat_chunk:
  "(\<And>xs. xs \<in> set xss \<Longrightarrow> length xs = n) \<Longrightarrow> i < length xss \<Longrightarrow> take n (drop (n * i) (concat xss)) = xss ! i"
proof (induction xss arbitrary: i)
  case (Cons xs xss)
  then show ?case by (cases i) (simp_all add: nth_Cons')
qed simp

lemma length_concat_chunks: "(\<And>xs. xs \<in> set xss \<Longrightarrow> length xs = n) \<Longrightarrow> length (concat xss) = n * length xss"
  by (induction xss) simp_all

lemma length_page_bytes: "length (page_bytes m a) = 4096"
  unfolding page_bytes_def by (subst length_concat_chunks [where n = 8]) (auto simp: length_word_bytes)

lemma page_bytes_word: "i < 512 \<Longrightarrow> bytes_word (take 8 (drop (8 * i) (page_bytes m a))) = m (page_word a i)"
  unfolding page_bytes_def by (subst concat_chunk) (auto simp: length_word_bytes bytes_word_bytes page_word_def)

text \<open>A page copied out and back in is unchanged, wherever it is put.\<close>

lemma page_copy: "i < 512 \<Longrightarrow> write_page b (page_bytes m a) m' (page_word b i) = m (page_word a i)"
  by (simp add: write_page_word page_bytes_word)

end
