(* ===== verification/Vm.thy ===== *)
theory Vm
  imports Walk Page_Bytes
begin

text \<open>
  The memory of a process as its programs see it: \<open>word_at\<close> reads a word of a page of the petmem
  region wherever it is, in a page frame or in the swap space. \<open>vm_ok\<close> is the invariant of the
  state the fault handler works on; the lemmas say what its elementary steps (changing flags of
  entries, taking a frame, putting a frame at the end of a path) do to \<open>vm_ok\<close> and to \<open>word_at\<close>.
\<close>

section \<open>The invariant\<close>

definition root_of :: "'fs process \<Rightarrow> u64" where
  "root_of p = CR3_TO_PML4E64_VA (cr3 (mach p))"

text \<open>
  The words of the region list, and the word in front of the list head that the clock reads as the
  address of a region.
\<close>

definition list_words :: "'fs process \<Rightarrow> u64 list \<Rightarrow> u64 set" where
  "list_words p ns = insert (memory_allocations p - 8) (region_words (memory_allocations p) ns)"

definition vm_ok :: "'fs process \<Rightarrow> u64 set \<Rightarrow> u64 list \<Rightarrow> region list \<Rightarrow> bool" where
  "vm_ok p F ns rs \<longleftrightarrow>
     frames_ok (mach p) F \<and> tables_ok (pmem p) (root_of p) \<and>
     user_pages (pmem p) (root_of p) \<subseteq> va ` F \<and>
     (\<forall>t \<in> table_pages (pmem p) (root_of p). page_at t \<subseteq> guarded (mach p) F \<and> page_at t \<inter> list_words p ns = {}) \<and>
     root_of p \<notin> pool_area (mach p) \<and> root_of p \<notin> list_words p ns \<and>
     list_words p ns \<inter> pool_area (mach p) = {} \<and>
     regions (pmem p) (memory_allocations p) ns rs \<and> vspace_inv rs \<and>
     clock_hand p \<in> insert (memory_allocations p) (lnode ` set ns)"

lemma vm_okD:
  assumes "vm_ok p F ns rs"
  shows "frames_ok (mach p) F" "tables_ok (pmem p) (root_of p)" "user_pages (pmem p) (root_of p) \<subseteq> va ` F"
    "t \<in> table_pages (pmem p) (root_of p) \<Longrightarrow> page_at t \<subseteq> guarded (mach p) F"
    "t \<in> table_pages (pmem p) (root_of p) \<Longrightarrow> page_at t \<inter> list_words p ns = {}"
    "root_of p \<notin> pool_area (mach p)" "root_of p \<notin> list_words p ns"
    "list_words p ns \<inter> pool_area (mach p) = {}"
    "regions (pmem p) (memory_allocations p) ns rs" "vspace_inv rs"
    "clock_hand p \<in> insert (memory_allocations p) (lnode ` set ns)"
  using assms unfolding vm_ok_def by blast+

lemma process_simps [simp]:
  "pmem (upd_mem f p) = f (pmem p)" "cr3 (mach (upd_mem f p)) = cr3 (mach p)"
  "root_of (upd_mem f p) = root_of p" "memory_allocations (upd_mem f p) = memory_allocations p"
  "clock_hand (upd_mem f p) = clock_hand p" "swap (upd_mem f p) = swap p" "files (upd_mem f p) = files p"
  "list_words (upd_mem f p) = list_words p" "mach (upd_mem f p) = (mach p)\<lparr>kmem := f (pmem p)\<rparr>"
  by (simp_all add: upd_mem_def pmem_def root_of_def list_words_def fun_eq_iff)

lemma kmem_areas [simp]:
  "pool_area (s\<lparr>kmem := m\<rparr>) = pool_area s" "spare (s\<lparr>kmem := m\<rparr>) = spare s" "guarded (s\<lparr>kmem := m\<rparr>) = guarded s"
  by (simp_all add: pool_area_def spare_def pool_bytes_def guarded_def fun_eq_iff)

section \<open>The memory of the programs\<close>

definition word_at :: "'fs vfs \<Rightarrow> 'fs process \<Rightarrow> u64 \<Rightarrow> nat \<Rightarrow> u64 option" where
  "word_at v p a i =
     (case entry_of (pmem p) (root_of p) (rpath a 3) of
        None \<Rightarrow> None
      | Some e \<Rightarrow>
          if present (pmem p) e then Some (pmem p (page_word (entry_table (pmem p) e) i))
          else if entry_get ''dirty'' (pmem p) e \<noteq> 0 then
            case swap p of
              None \<Rightarrow> None
            | Some sw \<Rightarrow> map_option (\<lambda>page. bytes_word (take 8 (drop (8 * i) page)))
                (swap_abs v sw (files p) (unat (entry_get ''page_base_addr'' (pmem p) e)))
          else None)"

text \<open>A page of the region is in slot \<open>k\<close> of the swap space.\<close>

definition swapped :: "mem \<Rightarrow> u64 \<Rightarrow> u64 \<Rightarrow> nat \<Rightarrow> bool" where
  "swapped m root a k \<longleftrightarrow>
     (\<exists>e. entry_of m root (rpath a 3) = Some e \<and> \<not> present m e \<and> entry_get ''dirty'' m e \<noteq> 0 \<and>
        k = unat (entry_get ''page_base_addr'' m e))"

text \<open>Every page that is swapped out has a slot of its own; the addresses \<open>X\<close> are left out of account.\<close>

definition swap_inv :: "'fs vfs \<Rightarrow> 'fs process \<Rightarrow> u64 set \<Rightarrow> bool" where
  "swap_inv v p X \<longleftrightarrow>
     (\<exists>sw. swap p = Some sw \<and> swap_ok v sw \<and>
       (\<forall>a k. in_region a \<and> a \<notin> X \<and> swapped (pmem p) (root_of p) a k \<longrightarrow> swap_abs v sw (files p) k \<noteq> None) \<and>
       (\<forall>a b k. in_region a \<and> in_region b \<and> a \<notin> X \<and> b \<notin> X \<and> swapped (pmem p) (root_of p) a k \<and>
          swapped (pmem p) (root_of p) b k \<longrightarrow> rpath a 3 = rpath b 3))"

section \<open>Where things are\<close>

lemma frame_page_ok: "frames_ok s F \<Longrightarrow> f \<in> F \<Longrightarrow> page_ok (va f)"
  using frame_props by (simp add: page_ok_def)

lemma user_page:
  assumes ok: "vm_ok p F ns rs" and a: "in_region a" and t: "table (pmem p) (root_of p) (rpath a 3) = Some t"
  shows "page_ok t" "t \<in> user_pages (pmem p) (root_of p)" "pa t \<in> F" "page_at t \<inter> walk_words (pmem p) (root_of p) = {}"
proof -
  note T = vm_okD(2) [OF ok]
  show k: "page_ok t" using tables_okD(1) [OF T rpath_region [OF a] t] .
  show u: "t \<in> user_pages (pmem p) (root_of p)" using a t by (auto simp: user_pages_def)
  then show "pa t \<in> F" using vm_okD(3) [OF ok] by auto
  have "page_at t \<inter> page_at u = {}" if u: "u \<in> table_pages (pmem p) (root_of p)" for u
  proof -
    obtain \<pi> where \<pi>: "\<pi> \<in> region_paths" "length \<pi> < 3" "table (pmem p) (root_of p) \<pi> = Some u"
      using u unfolding table_pages_def by blast
    have "\<pi> \<noteq> rpath a 3" using \<pi>(2) length_rpath [of a] by auto
    then have "t \<noteq> u" using tables_okD(3) [OF T rpath_region [OF a] t \<pi>(1)] \<pi>(3) by blast
    then show ?thesis using page_ok_disjoint [OF k tables_okD(1) [OF T \<pi>(1,3)]] by blast
  qed
  moreover have "root_of p \<notin> page_at t" using tables_okD(2) [OF T rpath_region [OF a] t] .
  ultimately show "page_at t \<inter> walk_words (pmem p) (root_of p) = {}" by (auto simp: walk_words_def)
qed

lemma walk_words_guarded:
  assumes "vm_ok p F ns rs" "x \<in> walk_words (pmem p) (root_of p)"
  shows "x \<in> guarded (mach p) F" "x \<notin> list_words p ns"
  using assms(2) vm_okD(4,5,6,7) [OF assms(1)] by (auto simp: walk_words_def guarded_def)

lemma frame_not_list:
  assumes "vm_ok p F ns rs" "f \<in> F"
  shows "page_at (va f) \<inter> list_words p ns = {}" "root_of p \<notin> page_at (va f)"
  using frame_props(4) [OF vm_okD(1) [OF assms(1)] assms(2)] pool_bytes_area [of "mach p"]
    vm_okD(6,8) [OF assms(1)] by blast+

lemma regions_list_words:
  assumes "vm_ok p F ns rs" "\<And>x. x \<in> list_words p ns \<Longrightarrow> m x = pmem p x"
  shows "regions m (memory_allocations p) ns rs"
  using vm_okD(9) [OF assms(1)] by (rule regions_frame) (use assms(2) in \<open>auto simp: list_words_def region_words_def\<close>)

section \<open>Changing flags\<close>

text \<open>
  Entries in \<open>E\<close> change, but not in the fields the walk and the swap space use: the tree and the
  memory of the programs stay.
\<close>

definition flag_change :: "mem \<Rightarrow> mem \<Rightarrow> u64 set \<Rightarrow> bool" where
  "flag_change m m' E \<longleftrightarrow> (\<forall>x. x \<notin> E \<longrightarrow> m' x = m x) \<and>
     (\<forall>x. \<forall>f \<in> {''present'', ''dirty'', ''page_base_addr''}. entry_get f m' x = entry_get f m x)"

lemma flag_change_sees:
  assumes "flag_change m m' E"
  shows "present m' x = present m x" "entry_table m' x = entry_table m x"
    "entry_get ''dirty'' m' x = entry_get ''dirty'' m x" "entry_get ''page_base_addr'' m' x = entry_get ''page_base_addr'' m x"
    "x \<notin> E \<Longrightarrow> m' x = m x"
  using assms by (auto simp: flag_change_def present_def entry_table_def)

lemma flag_change_table:
  assumes "flag_change m m' E"
  shows "table m' root = table m root" "entry_of m' root = entry_of m root"
proof -
  have "table m' root \<pi> = table m root \<pi>" for \<pi>
    by (induction \<pi>) (simp_all add: table.simps flag_change_sees [OF assms] split: option.split)
  then show "table m' root = table m root" "entry_of m' root = entry_of m root"
    by (auto simp: entry_of_def fun_eq_iff split: list.splits)
qed

lemma flag_change_walk: "flag_change m m' E \<Longrightarrow> get_valid_page_entry m' cr a = get_valid_page_entry m cr a"
  by (simp add: get_valid_page_entry_def next_entry_table flag_change_sees Let_def)

lemma flag_change_vm:
  assumes ok: "vm_ok p F ns rs" and c: "flag_change (pmem p) m' E" and E: "E \<subseteq> walk_words (pmem p) (root_of p)"
  shows "vm_ok (upd_mem (\<lambda>_. m') p) F ns rs"
    "in_region a \<Longrightarrow> i < 512 \<Longrightarrow> word_at v (upd_mem (\<lambda>_. m') p) a i = word_at v p a i"
    "swapped m' (root_of p) = swapped (pmem p) (root_of p)"
    "swap_inv v (upd_mem (\<lambda>_. m') p) X = swap_inv v p X"
proof -
  note t = flag_change_table [OF c] and s = flag_change_sees [OF c]
  have pages: "table_pages m' = table_pages (pmem p)" "user_pages m' = user_pages (pmem p)"
    by (simp_all add: table_pages_def user_pages_def fun_eq_iff flag_change_table [OF c])
  have "frames_ok ((mach p)\<lparr>kmem := m'\<rparr>) F"
    by (rule frames_ok_write [OF vm_okD(1) [OF ok]])
      (use s(5) E walk_words_guarded(1) [OF ok] in \<open>auto simp: pmem_def\<close>)
  moreover have "regions m' (memory_allocations p) ns rs"
    by (rule regions_list_words [OF ok]) (use s(5) E walk_words_guarded(2) [OF ok] in blast)
  moreover have "tables_ok m' (root_of p)" using vm_okD(2) [OF ok] by (simp add: tables_ok_def t)
  ultimately show "vm_ok (upd_mem (\<lambda>_. m') p) F ns rs"
    using ok by (simp add: vm_ok_def pages)
  show sw: "swapped m' (root_of p) = swapped (pmem p) (root_of p)"
    by (simp add: swapped_def fun_eq_iff t s)
  show "swap_inv v (upd_mem (\<lambda>_. m') p) X = swap_inv v p X" by (simp add: swap_inv_def sw)
  assume a: "in_region a" and i: "i < 512"
  show "word_at v (upd_mem (\<lambda>_. m') p) a i = word_at v p a i"
  proof (cases "table (pmem p) (root_of p) (rpath a 3)")
    case None
    then show ?thesis unfolding table_entry word_at_def by (auto simp: t s split: option.splits if_splits)
  next
    case (Some u)
    note up = user_page [OF ok a Some]
    have "page_word u i \<in> page_at u" using up(1) i by (intro page_word_in) (simp_all add: page_ok_def)
    then have "m' (page_word u i) = pmem p (page_word u i)" using s(5) E up(4) by blast
    then show ?thesis
      using Some unfolding table_entry word_at_def by (auto simp: t s split: option.splits if_splits)
  qed
qed

section \<open>Changes outside the tables\<close>

lemma table_frame:
  assumes ok: "tables_ok m root" and keep: "\<And>x. x \<in> walk_words m root \<Longrightarrow> m' x = m x" and r: "\<rho> \<in> region_paths"
  shows "table m' root \<rho> = table m root \<rho>"
  using r
proof (induction \<rho>)
  case Nil
  have "m' root = m root" by (rule keep) (simp add: walk_words_def)
  then show ?case using entry_cong(2,3) [of m' root m] by (simp add: table.simps)
next
  case (Cons i \<pi>)
  note q = region_path_Cons [OF Cons.prems]
  show ?case
  proof (cases "table m root \<pi>")
    case None
    then show ?thesis using Cons.IH [OF q(1)] by (simp add: table.simps)
  next
    case (Some t)
    then have "entry_of m root (i # \<pi>) = Some (t + i * 8)" by (simp add: entry_of_simps)
    then have "m' (t + i * 8) = m (t + i * 8)" using entry_of_walk [OF ok Cons.prems] by (intro keep)
    then show ?thesis
      using Cons.IH [OF q(1)] Some entry_cong(2,3) [of m' "t + i * 8" m] by (simp add: table.simps)
  qed
qed

lemma entry_of_leaf:
  "entry_of m root (rpath a 3) = map_option (\<lambda>t. t + PTE64_INDEX a * 8) (table m root (rpath a 2))"
  by (simp add: rpath_simps entry_of_simps)

lemma tables_cong:
  assumes t: "\<And>\<rho>. \<rho> \<in> region_paths \<Longrightarrow> table m' root \<rho> = table m root \<rho>"
  shows "tables_ok m' root = tables_ok m root" "table_pages m' root = table_pages m root"
    "user_pages m' root = user_pages m root" "walk_words m' root = walk_words m root"
    "in_region a \<Longrightarrow> entry_of m' root (rpath a 3) = entry_of m root (rpath a 3)"
proof -
  show "tables_ok m' root = tables_ok m root" by (simp add: tables_ok_def t)
  show p: "table_pages m' root = table_pages m root" by (auto simp: table_pages_def t)
  show "user_pages m' root = user_pages m root" by (auto simp: user_pages_def t rpath_region)
  show "walk_words m' root = walk_words m root" by (simp add: walk_words_def p)
  show "entry_of m' root (rpath a 3) = entry_of m root (rpath a 3)" if "in_region a"
    unfolding entry_of_leaf using t rpath_region [OF that] by simp
qed

lemma guarded_mono: "G \<subseteq> F \<Longrightarrow> guarded s G \<subseteq> guarded s F"
  by (auto simp: guarded_def frame_bytes_def)

lemma frame_bytes_guarded: "f \<in> F \<Longrightarrow> page_at (va f) \<subseteq> guarded s F"
  by (auto simp: guarded_def frame_bytes_def)

text \<open>
  The page allocator takes a step: the frames out are \<open>F'\<close> afterwards, and of those \<open>G\<close>, which hold all
  of this process's pages, nothing was written.
\<close>

lemma vm_mach:
  assumes ok: "vm_ok p F ns rs" and sm: "same_machine (mach p) s'" and fo: "frames_ok s' F'" and G: "G \<subseteq> F'"
    and up: "user_pages (pmem p) (root_of p) \<subseteq> va ` G"
    and tp: "\<And>t. t \<in> table_pages (pmem p) (root_of p) \<Longrightarrow> page_at t \<subseteq> guarded (mach p) G"
    and keep: "\<And>x. x \<in> guarded (mach p) G \<Longrightarrow> kmem s' x = pmem p x"
  defines "p' \<equiv> p\<lparr>mach := s'\<rparr>"
  shows "vm_ok p' F' ns rs" and "\<And>\<rho>. \<rho> \<in> region_paths \<Longrightarrow> table (pmem p') (root_of p') \<rho> = table (pmem p) (root_of p) \<rho>"
    and "\<And>a i. in_region a \<Longrightarrow> i < 512 \<Longrightarrow> word_at v p' a i = word_at v p a i"
    and "swap_inv v p X \<Longrightarrow> swap_inv v p' X"
    and "\<And>x. x \<in> walk_words (pmem p) (root_of p) \<Longrightarrow> pmem p' x = pmem p x"
proof -
  have f: "pmem p' = kmem s'" "root_of p' = root_of p" "memory_allocations p' = memory_allocations p"
    "clock_hand p' = clock_hand p" "swap p' = swap p" "files p' = files p" "list_words p' = list_words p" "mach p' = s'"
    using sm by (simp_all add: p'_def pmem_def root_of_def same_machine_def list_words_def fun_eq_iff)
  note ar = same_machine_areas [OF sm]
  have ww: "x \<in> guarded (mach p) G" if "x \<in> walk_words (pmem p) (root_of p)" for x
    using that tp vm_okD(6) [OF ok] by (auto simp: walk_words_def guarded_def)
  show keepw: "pmem p' x = pmem p x" if "x \<in> walk_words (pmem p) (root_of p)" for x
    using keep [OF ww [OF that]] f(1) by simp
  have t: "table (pmem p') (root_of p) \<rho> = table (pmem p) (root_of p) \<rho>" if "\<rho> \<in> region_paths" for \<rho>
    using table_frame [OF vm_okD(2) [OF ok] keepw that] .
  then show "table (pmem p') (root_of p') \<rho> = table (pmem p) (root_of p) \<rho>" if "\<rho> \<in> region_paths" for \<rho>
    using that by (simp add: f(2))
  note tc = tables_cong [OF t]
  have "regions (pmem p') (memory_allocations p) ns rs"
  proof (rule regions_list_words [OF ok])
    fix x assume "x \<in> list_words p ns"
    then have "x \<in> guarded (mach p) G" using vm_okD(8) [OF ok] by (auto simp: guarded_def)
    then show "pmem p' x = pmem p x" using keep f(1) by simp
  qed
  moreover have "user_pages (pmem p) (root_of p) \<subseteq> va ` F'" using up G by blast
  moreover have "\<forall>t \<in> table_pages (pmem p) (root_of p). page_at t \<subseteq> guarded (mach p) F' \<and> page_at t \<inter> list_words p ns = {}"
    using tp guarded_mono [OF G] vm_okD(5) [OF ok] by blast
  ultimately show "vm_ok p' F' ns rs"
    using fo vm_okD [OF ok] by (simp add: vm_ok_def f ar tc(1-3) [unfolded f(1)])
  have ent: "entry_of (pmem p') (root_of p) (rpath a 3) = entry_of (pmem p) (root_of p) (rpath a 3)"
    and see: "entry_of (pmem p) (root_of p) (rpath a 3) = Some e \<Longrightarrow> pmem p' e = pmem p e" if "in_region a" for a e
    using tc(5) [OF _ that] keepw entry_of_walk [OF vm_okD(2) [OF ok] rpath_region [OF that]] by blast+
  have sw: "swapped (pmem p') (root_of p) a k = swapped (pmem p) (root_of p) a k" if "in_region a" for a k
  proof (cases "entry_of (pmem p) (root_of p) (rpath a 3)")
    case (Some e)
    then show ?thesis using ent [OF that] entry_cong [of "pmem p'" e "pmem p", OF see [OF that Some]] by (simp add: swapped_def)
  qed (simp add: swapped_def ent [OF that])
  then show "swap_inv v p' X" if "swap_inv v p X"
    using that unfolding swap_inv_def f by metis
  show "word_at v p' a i = word_at v p a i" if a: "in_region a" and i: "i < 512" for a i
  proof (cases "entry_of (pmem p) (root_of p) (rpath a 3)")
    case None
    then show ?thesis by (simp add: word_at_def f(2) ent [OF a])
  next
    case (Some e)
    note c = entry_cong [of "pmem p'" e "pmem p", OF see [OF a Some]]
    show ?thesis
    proof (cases "present (pmem p) e")
      case False
      then show ?thesis using Some by (cases "swap p") (simp_all add: word_at_def f(2,5,6) ent [OF a] c)
    next
      case True
      let ?t = "entry_table (pmem p) e"
      have tt: "table (pmem p) (root_of p) (rpath a 3) = Some ?t" using Some True by (simp add: table_entry)
      note upg = user_page [OF ok a tt]
      have "?t \<in> va ` G" using up upg(2) by blast
      then have "page_at ?t \<subseteq> guarded (mach p) G" using frame_bytes_guarded by fastforce
      moreover have "page_word ?t i \<in> page_at ?t" using upg(1) i by (intro page_word_in) (simp_all add: page_ok_def)
      ultimately have "pmem p' (page_word ?t i) = pmem p (page_word ?t i)" using keep f(1) by auto
      then show ?thesis using Some True by (simp add: word_at_def f(2,5,6) ent [OF a] c)
    qed
  qed
qed

text \<open>A frame is taken while there is spare memory.\<close>

lemma vm_alloc:
  assumes ok: "vm_ok p F ns rs" and sp: "spare (mach p) F \<noteq> {}"
  obtains f s' where "petmem_alloc_pages 1 (mach p) = Inr (f, s')" "f \<noteq> 0" "f \<notin> F"
    "same_machine (mach p) s'" "vm_ok (p\<lparr>mach := s'\<rparr>) (insert f F) ns rs"
    "\<And>\<rho>. \<rho> \<in> region_paths \<Longrightarrow> table (kmem s') (root_of p) \<rho> = table (pmem p) (root_of p) \<rho>"
    "\<And>v a i. in_region a \<Longrightarrow> i < 512 \<Longrightarrow> word_at v (p\<lparr>mach := s'\<rparr>) a i = word_at v p a i"
    "\<And>v X. swap_inv v p X \<Longrightarrow> swap_inv v (p\<lparr>mach := s'\<rparr>) X"
    "\<And>x. x \<in> walk_words (pmem p) (root_of p) \<Longrightarrow> kmem s' x = pmem p x"
    "va f \<notin> table_pages (pmem p) (root_of p)" "va f \<notin> user_pages (pmem p) (root_of p)"
    "card (spare s' (insert f F)) + 4096 = card (spare (mach p) F)"
  using vm_okD(1) [OF ok]
proof (cases rule: frame_alloc)
  case 1
  then show thesis using sp by blast
next
  case (2 f s')
  have keep: "kmem s' x = pmem p x" if "x \<in> guarded (mach p) F" for x using 2(7) that by (simp add: pmem_def)
  have G: "F \<subseteq> insert f F" by blast
  note m = vm_mach [OF ok 2(4,5) G vm_okD(3,4) [OF ok] keep]
  have f: "pmem (p\<lparr>mach := s'\<rparr>) = kmem s'" "root_of (p\<lparr>mach := s'\<rparr>) = root_of p"
    using 2(4) by (simp_all add: pmem_def root_of_def same_machine_def)
  have pk: "page_ok (va f)" using frame_page_ok [OF 2(5)] by simp
  have self: "va f \<in> page_at (va f)" by (simp add: byte_range_def)
  have dis: "page_at (va f) \<inter> guarded (mach p) F = {}"
    using 2(6) pool_bytes_area [of "mach p"] by (auto simp: spare_def guarded_def)
  have "va f \<notin> table_pages (pmem p) (root_of p)" using vm_okD(4) [OF ok] dis self by blast
  moreover have "va f \<notin> user_pages (pmem p) (root_of p)"
    using vm_okD(3) [OF ok] 2(3) by (auto simp: va_def)
  moreover have "card (spare s' (insert f F)) + 4096 = card (spare (mach p) F)"
    unfolding same_machine_areas [OF 2(4)] using 2(6) pk by (intro spare_insert) (simp_all add: page_ok_def)
  ultimately show thesis using that [OF 2(1-4) m(1)] m(2-5) unfolding f by blast
qed

end
