(* ===== verification/Clock.thy ===== *)
theory Clock
  imports Vm
begin

text \<open>
  Page replacement: the traversal of \<open>page_replacement_clock\<close> is the second-chance algorithm on the
  first pages of the regions, in list order behind the clock hand. It ends exactly when one of
  the regions it looks at has its first page in memory.
\<close>

section \<open>One pass\<close>

text \<open>The entry a list position leads to, 0 when its first page is not in memory.\<close>

definition candidate :: "mem \<Rightarrow> u64 \<Rightarrow> u64 \<Rightarrow> u64" where
  "candidate m cr pos = get_valid_page_entry m cr (reg_page_addr m (list_entry pos))"

text \<open>Passing a region: an accessed page gets its second chance.\<close>

definition visit :: "u64 \<Rightarrow> u64 \<Rightarrow> mem \<Rightarrow> mem" where
  "visit cr n m =
     (let page = candidate m cr n
      in if page \<noteq> 0 \<and> entry_get ''accessed'' m page \<noteq> 0 then entry_set ''accessed'' 0 page m else m)"

definition evictable :: "mem \<Rightarrow> u64 \<Rightarrow> u64 \<Rightarrow> bool" where
  "evictable m cr n \<longleftrightarrow> candidate m cr n \<noteq> 0 \<and> entry_get ''accessed'' m (candidate m cr n) = 0"

fun clock_pass :: "u64 \<Rightarrow> u64 list \<Rightarrow> mem \<Rightarrow> u64 option \<times> mem" where
  "clock_pass cr [] m = (None, m)"
| "clock_pass cr (n # ns) m = (if evictable m cr n then (Some n, m) else clock_pass cr ns (visit cr n m))"

lemma flag_change_accessed: "flag_change m (entry_set ''accessed'' v e m) {e}"
  by (simp add: flag_change_def entry_field_simps)

lemma flag_change_trans: "flag_change m m1 E \<Longrightarrow> flag_change m1 m2 E' \<Longrightarrow> flag_change m m2 (E \<union> E')"
  by (auto simp: flag_change_def)

lemma flag_change_mono: "flag_change m m' E \<Longrightarrow> E \<subseteq> E' \<Longrightarrow> flag_change m m' E'"
  unfolding flag_change_def by blast

lemma flag_change_refl: "flag_change m m E"
  by (simp add: flag_change_def)

text \<open>
  The words the traversal reads: the links, and the address field of what it takes for a region.
  The entries it changes are none of them.
\<close>

definition clock_words :: "u64 list \<Rightarrow> u64 set" where
  "clock_words ns = set ns \<union> (\<lambda>n. n - 8) ` set ns"

definition candidates :: "mem \<Rightarrow> u64 \<Rightarrow> u64 list \<Rightarrow> u64 set" where
  "candidates m cr ns = candidate m cr ` set ns - {0}"

lemma candidate_cong:
  assumes "flag_change m m' E" "n - 8 \<notin> E"
  shows "candidate m' cr n = candidate m cr n"
proof -
  have "reg_page_addr m' (list_entry n) = reg_page_addr m (list_entry n)"
    using flag_change_sees(5) [OF assms] by (simp add: reg_page_addr_def list_entry_def)
  then show ?thesis unfolding candidate_def by (simp add: flag_change_walk [OF assms(1)])
qed

lemma candidates_cong:
  assumes "flag_change m m' E" "E \<inter> clock_words ns = {}"
  shows "candidates m' cr ns = candidates m cr ns"
proof -
  have "candidate m' cr n = candidate m cr n" if "n \<in> set ns" for n
    by (rule candidate_cong [OF assms(1)]) (use assms(2) that in \<open>auto simp: clock_words_def\<close>)
  then show ?thesis by (auto simp: candidates_def image_iff)
qed

lemma visit_flags: "flag_change m (visit cr n m) (candidates m cr [n])"
  by (auto simp: visit_def Let_def candidates_def flag_change_accessed flag_change_refl)

definition clock_ok :: "mem \<Rightarrow> u64 \<Rightarrow> u64 list \<Rightarrow> bool" where
  "clock_ok m cr ns \<longleftrightarrow> candidates m cr ns \<inter> clock_words ns = {} \<and>
     inj_on (candidate m cr) {n \<in> set ns. candidate m cr n \<noteq> 0} \<and> distinct ns"

lemma clock_ok_step:
  assumes ok: "clock_ok m cr (k # ns)"
  shows "n \<in> set ns \<Longrightarrow> candidate (visit cr k m) cr n = candidate m cr n"
    "clock_ok (visit cr k m) cr ns" "candidates (visit cr k m) cr ns = candidates m cr ns"
    "n \<in> set ns \<Longrightarrow> entry_get ''accessed'' (visit cr k m) (candidate m cr n) = entry_get ''accessed'' m (candidate m cr n)"
    "candidate m cr k \<noteq> 0 \<Longrightarrow> candidate m cr k \<notin> candidates m cr ns"
proof -
  have cs: "candidate (visit cr k m) cr n = candidate m cr n" if "n \<in> set ns" for n
  proof (rule candidate_cong [OF visit_flags])
    have "n - 8 \<in> clock_words (k # ns)" using that by (simp add: clock_words_def)
    moreover have "candidates m cr [k] \<subseteq> candidates m cr (k # ns)" by (auto simp: candidates_def)
    ultimately show "n - 8 \<notin> candidates m cr [k]" using ok unfolding clock_ok_def by blast
  qed
  then show "n \<in> set ns \<Longrightarrow> candidate (visit cr k m) cr n = candidate m cr n" .
  show c: "candidates (visit cr k m) cr ns = candidates m cr ns"
    unfolding candidates_def by (simp only: image_cong [OF refl cs])
  have e: "{n \<in> set ns. candidate (visit cr k m) cr n \<noteq> 0} = {n \<in> set ns. candidate m cr n \<noteq> 0}" using cs by auto
  have "candidates m cr ns \<subseteq> candidates m cr (k # ns)" "clock_words ns \<subseteq> clock_words (k # ns)"
    by (auto simp: candidates_def clock_words_def)
  then have w: "candidates m cr ns \<inter> clock_words ns = {}" using ok unfolding clock_ok_def by blast
  have i: "inj_on (candidate m cr) {n \<in> set (k # ns). candidate m cr n \<noteq> 0}" and d: "k \<notin> set ns"
    using ok by (simp_all add: clock_ok_def)
  have "inj_on (candidate m cr) {n \<in> set ns. candidate m cr n \<noteq> 0}" by (rule inj_on_subset [OF i]) auto
  then have "inj_on (candidate (visit cr k m) cr) {n \<in> set ns. candidate m cr n \<noteq> 0}"
    by (rule inj_on_cong [THEN iffD1, rotated]) (simp add: cs)
  then show "clock_ok (visit cr k m) cr ns" using w ok unfolding clock_ok_def c e by simp
  have ne: "candidate m cr n \<noteq> candidate m cr k" if "n \<in> set ns" "candidate m cr k \<noteq> 0" for n
  proof
    assume e: "candidate m cr n = candidate m cr k"
    then have "n = k" by (rule inj_onD [OF i]) (use that e in simp_all)
    then show False using that(1) d by simp
  qed
  then show "candidate m cr k \<noteq> 0 \<Longrightarrow> candidate m cr k \<notin> candidates m cr ns"
    unfolding candidates_def by (metis DiffD1 imageE)
  show "entry_get ''accessed'' (visit cr k m) (candidate m cr n) = entry_get ''accessed'' m (candidate m cr n)"
    if "n \<in> set ns" using ne [OF that] by (simp add: visit_def Let_def entry_field_simps)
qed

lemma visit_accessed: "candidate m cr k \<noteq> 0 \<Longrightarrow> entry_get ''accessed'' (visit cr k m) (candidate m cr k) = 0"
  by (simp add: visit_def Let_def entry_field_simps)

lemma clock_pass_flags:
  "clock_ok m cr ns \<Longrightarrow> flag_change m (snd (clock_pass cr ns m)) (candidates m cr ns)"
proof (induction ns arbitrary: m)
  case Nil
  then show ?case by (simp add: flag_change_refl)
next
  case (Cons n ns)
  note st = clock_ok_step [OF Cons.prems]
  have "flag_change (visit cr n m) (snd (clock_pass cr ns (visit cr n m))) (candidates m cr ns)"
    using Cons.IH [OF st(2)] unfolding st(3) .
  from flag_change_trans [OF visit_flags this]
  have "flag_change m (snd (clock_pass cr ns (visit cr n m))) (candidates m cr (n # ns))"
    by (rule flag_change_mono) (auto simp: candidates_def)
  then show ?case by (simp add: flag_change_refl)
qed

text \<open>What a pass finds: the first candidate not accessed; without one it clears all accessed bits.\<close>

lemma clock_pass_find: "clock_ok m cr ns \<Longrightarrow> fst (clock_pass cr ns m) = List.find (evictable m cr) ns"
proof (induction ns arbitrary: m)
  case (Cons k ns)
  note st = clock_ok_step [OF Cons.prems]
  have "List.find (evictable (visit cr k m) cr) ns = List.find (evictable m cr) ns"
    by (rule find_cong) (simp_all add: evictable_def st(1,4))
  then show ?case using Cons.IH [OF st(2)] by simp
qed simp

lemma clock_pass_cleared:
  "clock_ok m cr ns \<Longrightarrow> fst (clock_pass cr ns m) = None \<Longrightarrow> x \<in> candidates m cr ns \<Longrightarrow>
   entry_get ''accessed'' (snd (clock_pass cr ns m)) x = 0"
proof (induction ns arbitrary: m)
  case (Cons k ns)
  note st = clock_ok_step [OF Cons.prems(1)]
  let ?m = "visit cr k m"
  have r: "clock_pass cr (k # ns) m = clock_pass cr ns ?m" using Cons.prems(2) by (auto split: if_splits)
  show ?case
  proof (cases "x \<in> candidates m cr ns")
    case True
    then show ?thesis using Cons.IH [OF st(2)] Cons.prems(2) st(3) unfolding r by simp
  next
    case False
    then have x: "x = candidate m cr k" "candidate m cr k \<noteq> 0" using Cons.prems(3) by (auto simp: candidates_def)
    have "entry_get ''accessed'' (snd (clock_pass cr ns ?m)) x = entry_get ''accessed'' ?m x"
      using flag_change_sees(5) [OF clock_pass_flags [OF st(2)]] False st(3) by (simp add: entry_get_def)
    then show ?thesis using visit_accessed x unfolding r by simp
  qed
qed (simp add: candidates_def)

lemma clock_pass_found:
  "clock_ok m cr ns \<Longrightarrow> fst (clock_pass cr ns m) = Some n \<Longrightarrow>
   entry_get ''accessed'' (snd (clock_pass cr ns m)) (candidate m cr n) = 0"
proof (induction ns arbitrary: m)
  case (Cons k ns)
  note st = clock_ok_step [OF Cons.prems(1)]
  show ?case
  proof (cases "evictable m cr k")
    case True
    then show ?thesis using Cons.prems(2) by (simp add: evictable_def)
  next
    case False
    then have f: "fst (clock_pass cr ns (visit cr k m)) = Some n" using Cons.prems(2) by simp
    then have "n \<in> set ns" unfolding clock_pass_find [OF st(2)] by (auto simp: find_Some_iff)
    then show ?thesis using Cons.IH [OF st(2) f] st(1) False by simp
  qed
qed simp

lemma clock_ok_flags:
  assumes ok: "clock_ok m cr ns" and fl: "flag_change m m' (candidates m cr ns)"
  shows "n \<in> set ns \<Longrightarrow> candidate m' cr n = candidate m cr n" "clock_ok m' cr ns" "candidates m' cr ns = candidates m cr ns"
    "n \<in> set ns \<Longrightarrow> m' n = m n" "n \<in> set ns \<Longrightarrow> reg_page_addr m' (list_entry n) = reg_page_addr m (list_entry n)"
proof -
  have w: "n \<notin> candidates m cr ns" "n - 8 \<notin> candidates m cr ns" if "n \<in> set ns" for n
    using ok that by (auto simp: clock_ok_def clock_words_def)
  have cs: "candidate m' cr n = candidate m cr n" if "n \<in> set ns" for n by (rule candidate_cong [OF fl w(2) [OF that]])
  then show "n \<in> set ns \<Longrightarrow> candidate m' cr n = candidate m cr n" .
  show c: "candidates m' cr ns = candidates m cr ns"
    unfolding candidates_def by (simp only: image_cong [OF refl cs])
  have e: "{n \<in> set ns. candidate m' cr n \<noteq> 0} = {n \<in> set ns. candidate m cr n \<noteq> 0}" using cs by auto
  have "inj_on (candidate m cr) {n \<in> set ns. candidate m cr n \<noteq> 0}" using ok by (simp add: clock_ok_def)
  then have "inj_on (candidate m' cr) {n \<in> set ns. candidate m cr n \<noteq> 0}"
    by (rule inj_on_cong [THEN iffD1, rotated]) (simp add: cs)
  then show "clock_ok m' cr ns" using ok unfolding clock_ok_def c e by simp
  show "n \<in> set ns \<Longrightarrow> m' n = m n" "n \<in> set ns \<Longrightarrow> reg_page_addr m' (list_entry n) = reg_page_addr m (list_entry n)"
    using flag_change_sees(5) [OF fl] w by (simp_all add: reg_page_addr_def list_entry_def)
qed

section \<open>The traversal\<close>

text \<open>Forward links only: the traversal does not use the others.\<close>

fun links :: "mem \<Rightarrow> u64 \<Rightarrow> u64 list \<Rightarrow> u64 \<Rightarrow> bool" where
  "links m a [] z \<longleftrightarrow> m a = z"
| "links m a (x # xs) z \<longleftrightarrow> m a = x \<and> links m x xs z"

lemma chain_links: "chain m a xs z \<Longrightarrow> links m a xs z"
  by (induction xs arbitrary: a) auto

lemma links_cong: "(\<And>l. l \<in> insert a (set xs) \<Longrightarrow> m' l = m l) \<Longrightarrow> links m' a xs z = links m a xs z"
  by (induction xs arbitrary: a) auto

lemma visit_keep: "x \<notin> candidates m cr [k] \<Longrightarrow> visit cr k m x = m x"
  using flag_change_sees(5) [OF visit_flags] .

text \<open>From a position of the list back to the hand: one pass.\<close>

lemma clock_traverse:
  assumes "links m a ns hand" "hand \<notin> set ns" "clock_ok m cr ns"
  shows "page_replacement_clock cr hand (m a) m =
    (case clock_pass cr ns m of
       (None, m') \<Rightarrow> page_replacement_clock cr hand hand m'
     | (Some n, m') \<Rightarrow> Some (candidate m cr n,
         va (BASE_TO_PAGE_ADDR (entry_get ''page_base_addr'' m (candidate m cr n)) +
             PHYSICAL_OFFSET (reg_page_addr m (list_entry n))), m n, m'))"
  using assms
proof (induction ns arbitrary: a m)
  case Nil
  then show ?case by simp
next
  case (Cons k ns)
  let ?m = "visit cr k m"
  note st = clock_ok_step [OF Cons.prems(3)]
  have ma: "m a = k" "k \<noteq> hand" using Cons.prems(1,2) by auto
  have keep: "?m x = m x" "?m (x - 8) = m (x - 8)" if "x \<in> set (k # ns)" for x
    by (rule visit_keep, use Cons.prems(3) that in \<open>auto simp: clock_ok_def candidates_def clock_words_def\<close>)+
  show ?case
  proof (cases "evictable m cr k")
    case True
    then show ?thesis
      unfolding ma(1) by (subst page_replacement_clock.simps) (simp add: ma(2) evictable_def candidate_def Let_def)
  next
    case False
    then have "page_replacement_clock cr hand k m = page_replacement_clock cr hand (m k) ?m"
      by (subst page_replacement_clock.simps) (auto simp: ma(2) evictable_def candidate_def visit_def Let_def)
    also have "m k = ?m k" using keep(1) by simp
    finally have step: "page_replacement_clock cr hand (m a) m = page_replacement_clock cr hand (?m k) ?m"
      unfolding ma(1) .
    have "links ?m k ns hand = links m k ns hand" by (rule links_cong) (use keep(1) in simp)
    then have IH: "page_replacement_clock cr hand (?m k) ?m =
      (case clock_pass cr ns ?m of
         (None, m') \<Rightarrow> page_replacement_clock cr hand hand m'
       | (Some n, m') \<Rightarrow> Some (candidate ?m cr n,
           va (BASE_TO_PAGE_ADDR (entry_get ''page_base_addr'' ?m (candidate ?m cr n)) +
               PHYSICAL_OFFSET (reg_page_addr ?m (list_entry n))), ?m n, m'))"
      using Cons.IH [OF _ _ st(2), of k] Cons.prems(1,2) by simp
    have "candidate ?m cr n = candidate m cr n \<and> ?m n = m n \<and>
        reg_page_addr ?m (list_entry n) = reg_page_addr m (list_entry n)"
      if "fst (clock_pass cr ns ?m) = Some n" for n
    proof -
      have "n \<in> set ns" using that unfolding clock_pass_find [OF st(2)] by (auto simp: find_Some_iff)
      then show ?thesis using st(1) keep [of n] by (simp add: reg_page_addr_def list_entry_def)
    qed
    then show ?thesis
      using False flag_change_sees(4) [OF visit_flags [of m cr k]] unfolding step IH
      by (auto split: prod.splits option.splits)
  qed
qed

text \<open>The second-chance choice: the first candidate not accessed, else the first candidate.\<close>

definition second_chance :: "mem \<Rightarrow> u64 \<Rightarrow> u64 list \<Rightarrow> u64 option" where
  "second_chance m cr ns =
     (case List.find (evictable m cr) ns of
        Some n \<Rightarrow> Some n
      | None \<Rightarrow> List.find (\<lambda>n. candidate m cr n \<noteq> 0) ns)"

lemma find_sat: "List.find P xs = Some x \<Longrightarrow> x \<in> set xs \<and> P x"
  by (auto simp: find_Some_iff)

lemma second_chance_Some: "second_chance m cr ns = Some n \<Longrightarrow> n \<in> set ns \<and> candidate m cr n \<noteq> 0"
  by (auto simp: second_chance_def evictable_def dest!: find_sat split: option.splits)

lemma second_chance_None: "second_chance m cr ns = None \<longleftrightarrow> (\<forall>n \<in> set ns. candidate m cr n = 0)"
proof -
  have "second_chance m cr ns = None \<longleftrightarrow>
      List.find (evictable m cr) ns = None \<and> List.find (\<lambda>n. candidate m cr n \<noteq> 0) ns = None"
    by (simp add: second_chance_def split: option.split)
  then show ?thesis by (auto simp: find_None_iff evictable_def)
qed

lemma clock_finds:
  assumes l: "links m hand ns hand" and h: "hand \<notin> set ns" "hand \<notin> candidates m cr ns" and ok: "clock_ok m cr ns"
    and n: "second_chance m cr ns = Some n"
  obtains m' where "page_replacement_clock cr hand (m hand) m = Some (candidate m cr n,
      va (BASE_TO_PAGE_ADDR (entry_get ''page_base_addr'' m (candidate m cr n)) +
          PHYSICAL_OFFSET (reg_page_addr m (list_entry n))), m n, m')"
    "flag_change m m' (candidates m cr ns)" "entry_get ''accessed'' m' (candidate m cr n) = 0"
proof (cases "List.find (evictable m cr) ns")
  case (Some k)
  then have "k = n" using n by (simp add: second_chance_def)
  then obtain m' where p: "clock_pass cr ns m = (Some n, m')"
    using clock_pass_find [OF ok] Some by (cases "clock_pass cr ns m") auto
  then show thesis
    using that [of m'] clock_traverse [OF l h(1) ok] clock_pass_flags [OF ok] clock_pass_found [OF ok, of n] by simp
next
  case None
  then have fn: "List.find (\<lambda>n. candidate m cr n \<noteq> 0) ns = Some n" using n by (simp add: second_chance_def)
  have "fst (clock_pass cr ns m) = None" using clock_pass_find [OF ok] None by simp
  then obtain m1 where p: "clock_pass cr ns m = (None, m1)" by (cases "clock_pass cr ns m") auto
  have fl: "flag_change m m1 (candidates m cr ns)" using clock_pass_flags [OF ok] p by simp
  note k = clock_ok_flags [OF ok fl]
  have cl: "entry_get ''accessed'' m1 (candidate m cr x) = 0" if "x \<in> set ns" "candidate m cr x \<noteq> 0" for x
    using clock_pass_cleared [OF ok] p that by (simp add: candidates_def)
  have n': "n \<in> set ns" using fn by (auto simp: find_Some_iff)
  have "List.find (evictable m1 cr) ns = List.find (\<lambda>n. candidate m cr n \<noteq> 0) ns"
    by (rule find_cong) (use k(1) cl in \<open>auto simp: evictable_def\<close>)
  then have "fst (clock_pass cr ns m1) = Some n" using clock_pass_find [OF k(2)] fn by simp
  then obtain m' where p': "clock_pass cr ns m1 = (Some n, m')" by (cases "clock_pass cr ns m1") auto
  have mh: "m1 hand = m hand" using flag_change_sees(5) [OF fl h(2)] .
  have l1: "links m1 hand ns hand" using l links_cong [of hand ns m1 m hand] k(4) mh by auto
  have "page_replacement_clock cr hand (m hand) m = page_replacement_clock cr hand hand m1"
    using clock_traverse [OF l h(1) ok] p by simp
  also have "\<dots> = page_replacement_clock cr hand (m1 hand) m1" by (subst page_replacement_clock.simps) simp
  also have "\<dots> = Some (candidate m cr n,
      va (BASE_TO_PAGE_ADDR (entry_get ''page_base_addr'' m (candidate m cr n)) +
          PHYSICAL_OFFSET (reg_page_addr m (list_entry n))), m n, m')"
    using clock_traverse [OF l1 h(1) k(2)] p' k(1,4,5) n' flag_change_sees(4) [OF fl] by simp
  finally have r: "page_replacement_clock cr hand (m hand) m = Some (candidate m cr n,
      va (BASE_TO_PAGE_ADDR (entry_get ''page_base_addr'' m (candidate m cr n)) +
          PHYSICAL_OFFSET (reg_page_addr m (list_entry n))), m n, m')" .
  have "flag_change m1 m' (candidates m cr ns)" using clock_pass_flags [OF k(2)] p' k(3) by simp
  with flag_change_trans [OF fl] have "flag_change m m' (candidates m cr ns)" by fastforce
  moreover have "entry_get ''accessed'' m' (candidate m cr n) = 0"
    using clock_pass_found [OF k(2), of n] p' k(1) n' by simp
  ultimately show thesis using that r by blast
qed

text \<open>With no candidate the traversal goes round for ever.\<close>

lemma clock_stuck:
  assumes S: "hand \<in> S" "\<And>x. x \<in> S \<Longrightarrow> m x \<in> S" "\<And>x. x \<in> S \<Longrightarrow> x \<noteq> hand \<Longrightarrow> candidate m cr x = 0" and pos: "pos \<in> S"
  shows "page_replacement_clock cr hand pos m = None"
proof -
  have "hand \<in> S \<longrightarrow> (\<forall>x \<in> S. m x \<in> S) \<longrightarrow> (\<forall>x \<in> S. x \<noteq> hand \<longrightarrow> candidate m cr x = 0) \<longrightarrow> pos \<in> S \<longrightarrow> False"
    if "page_replacement_clock cr hand pos m = Some r" for r
  proof (rule page_replacement_clock.raw_induct [OF _ that], goal_cases)
    case (1 clock cr hand pos m r)
    show ?case
    proof (intro impI)
      assume S: "hand \<in> S" "\<forall>x \<in> S. m x \<in> S" "\<forall>x \<in> S. x \<noteq> hand \<longrightarrow> candidate m cr x = 0" "pos \<in> S"
      have "clock cr hand (m pos) m = Some r"
        using 1(2) S(3,4) by (auto simp: candidate_def Let_def split: if_splits)
      from 1(1) [OF this] show False using S by blast
    qed
  qed
  then have "page_replacement_clock cr hand pos m \<noteq> Some r" for r using S pos by blast
  then show ?thesis by (cases "page_replacement_clock cr hand pos m") auto
qed

lemma links_closed: "links m a xs z \<Longrightarrow> x \<in> insert a (set xs) \<Longrightarrow> m x \<in> insert z (set xs)"
  by (induction xs arbitrary: a) fastforce+

end
