(* ===== verification/Vm_Place.thy ===== *)
theory Vm_Place
  imports Vm
begin

text \<open>
  Putting a frame at the end of a path of the page-table tree, as a new table or as a page of user
  memory.
\<close>

lemma entry_page_word: "t + i * 8 = page_word t (unat i)"
  by (simp add: page_word_def mult.commute)

lemma zero_entry:
  assumes "m e = 0"
  shows "\<not> present m e" "entry_get ''dirty'' m e = 0"
  using assms by (simp_all add: present_def entry_get_def get_field_def get_bits_def pte_pos)

text \<open>
  The situation: \<open>f\<close> is a frame this process does not use yet, \<open>e\<close> the absent entry at the end of the path
  \<open>\<rho>\<^sub>0\<close>; in the new memory \<open>e\<close> points to the frame, and nothing else changes but the frame itself, which
  is filled with zeros if it is to be a table.
\<close>

definition placed :: "'fs process \<Rightarrow> u64 \<Rightarrow> u64 list \<Rightarrow> u64 \<Rightarrow> mem \<Rightarrow> bool" where
  "placed p f \<rho>\<^sub>0 e m' \<longleftrightarrow>
     va f \<notin> table_pages (pmem p) (root_of p) \<and> va f \<notin> user_pages (pmem p) (root_of p) \<and>
     \<rho>\<^sub>0 \<in> region_paths \<and> entry_of (pmem p) (root_of p) \<rho>\<^sub>0 = Some e \<and> \<not> present (pmem p) e \<and>
     (\<forall>x. x \<notin> insert e (page_at (va f)) \<longrightarrow> m' x = pmem p x) \<and>
     present m' e \<and> entry_table m' e = va f \<and>
     (length \<rho>\<^sub>0 < 3 \<longrightarrow> (\<forall>i < 512. m' (page_word (va f) i) = 0))"

lemma placedD:
  assumes "placed p f \<rho>\<^sub>0 e m'"
  shows "va f \<notin> table_pages (pmem p) (root_of p)" "va f \<notin> user_pages (pmem p) (root_of p)"
    "\<rho>\<^sub>0 \<in> region_paths" "entry_of (pmem p) (root_of p) \<rho>\<^sub>0 = Some e" "\<not> present (pmem p) e"
    "x \<notin> insert e (page_at (va f)) \<Longrightarrow> m' x = pmem p x" "present m' e" "entry_table m' e = va f"
    "length \<rho>\<^sub>0 < 3 \<Longrightarrow> i < 512 \<Longrightarrow> m' (page_word (va f) i) = 0"
  using assms unfolding placed_def by blast+

lemma placed_walk:
  assumes ok: "vm_ok p F ns rs" and f: "f \<in> F" and pl: "placed p f \<rho>\<^sub>0 e m'"
    and x: "x \<in> walk_words (pmem p) (root_of p)" "x \<noteq> e"
  shows "m' x = pmem p x"
proof (rule placedD(6) [OF pl])
  have "x \<notin> page_at (va f)"
  proof (cases "x = root_of p")
    case True
    then show ?thesis using frame_not_list(2) [OF ok f] by simp
  next
    case False
    then obtain t \<pi> where t: "x \<in> page_at t" "\<pi> \<in> region_paths" "table (pmem p) (root_of p) \<pi> = Some t"
      "t \<in> table_pages (pmem p) (root_of p)"
      using x(1) by (auto simp: walk_words_def table_pages_def)
    have "t \<noteq> va f" using t(4) placedD(1) [OF pl] by blast
    then show ?thesis
      using page_ok_disjoint [OF tables_okD(1) [OF vm_okD(2) [OF ok] t(2,3)] frame_page_ok [OF vm_okD(1) [OF ok] f]] t(1)
      by blast
  qed
  then show "x \<notin> insert e (page_at (va f))" using x(2) by blast
qed

lemma placed_table:
  assumes ok: "vm_ok p F ns rs" and f: "f \<in> F" and pl: "placed p f \<rho>\<^sub>0 e m'" and r: "\<rho> \<in> region_paths"
  shows "table m' (root_of p) \<rho> = (if \<rho> = \<rho>\<^sub>0 then Some (va f) else table (pmem p) (root_of p) \<rho>)"
proof -
  have n: "table (pmem p) (root_of p) \<rho>\<^sub>0 = None"
    using placedD(4,5) [OF pl] by (simp add: table_entry)
  have "\<not> present m' (entry_table m' e + i * 8)" if "length \<rho>\<^sub>0 < 3" "unat i < 512" for i
    unfolding placedD(8) [OF pl] entry_page_word
    by (rule zero_entry(1)) (rule placedD(9) [OF pl that])
  from table_change [OF vm_okD(2) [OF ok] placedD(3,4) [OF pl] disjI2 [OF n] placed_walk [OF ok f pl] this r]
  show ?thesis using placedD(7,8) [OF pl] by simp
qed

lemma placed_pages:
  assumes ok: "vm_ok p F ns rs" and f: "f \<in> F" and pl: "placed p f \<rho>\<^sub>0 e m'"
  shows "tables_ok m' (root_of p)"
    "table_pages m' (root_of p) \<subseteq> insert (va f) (table_pages (pmem p) (root_of p))"
    "user_pages m' (root_of p) \<subseteq> insert (va f) (user_pages (pmem p) (root_of p))"
proof -
  note t = placed_table [OF ok f pl] and T = vm_okD(2) [OF ok]
  have fresh: "table (pmem p) (root_of p) \<pi> \<noteq> Some (va f)" if p: "\<pi> \<in> region_paths" for \<pi>
  proof
    assume s: "table (pmem p) (root_of p) \<pi> = Some (va f)"
    obtain a n where a: "in_region a" "n \<le> 3" "\<pi> = rpath a n" using p by (rule region_path_cases)
    show False
    proof (cases "n = 3")
      case True
      then show ?thesis using s a placedD(2) [OF pl] by (auto simp: user_pages_def)
    next
      case False
      then have "length \<pi> < 3" using a by (simp add: rpath_def)
      then show ?thesis using s p placedD(1) [OF pl] by (auto simp: table_pages_def)
    qed
  qed
  show "tables_ok m' (root_of p)"
    unfolding tables_ok_def
  proof (intro conjI ballI allI impI)
    fix \<pi> u assume p: "\<pi> \<in> region_paths" and u: "table m' (root_of p) \<pi> = Some u"
    show "page_ok u" "root_of p \<notin> page_at u"
      using u t [OF p] tables_okD(1,2) [OF T p] frame_page_ok [OF vm_okD(1) [OF ok] f] frame_not_list(2) [OF ok f]
      by (auto split: if_splits)
    fix \<rho> assume r: "\<rho> \<in> region_paths" and v: "table m' (root_of p) \<rho> = Some u"
    show "\<pi> = \<rho>"
      using u v t [OF p] t [OF r] fresh [OF p] fresh [OF r] tables_okD(3) [OF T r _ p] by (auto split: if_splits)
  qed
  show "table_pages m' (root_of p) \<subseteq> insert (va f) (table_pages (pmem p) (root_of p))"
    using t by (auto simp: table_pages_def split: if_splits)
  show "user_pages m' (root_of p) \<subseteq> insert (va f) (user_pages (pmem p) (root_of p))"
    using t by (auto simp: user_pages_def rpath_region split: if_splits)
qed

lemma place_vm:
  assumes ok: "vm_ok p F ns rs" and f: "f \<in> F" and pl: "placed p f \<rho>\<^sub>0 e m'"
  shows "vm_ok (upd_mem (\<lambda>_. m') p) F ns rs"
proof -
  note pg = placed_pages [OF ok f pl]
  have ew: "e \<in> walk_words (pmem p) (root_of p)"
    by (rule entry_of_walk [OF vm_okD(2) [OF ok] placedD(3,4) [OF pl]])
  have "frames_ok ((mach p)\<lparr>kmem := m'\<rparr>) F"
  proof (rule frames_ok_write [OF vm_okD(1) [OF ok]])
    fix x assume "x \<notin> guarded (mach p) F"
    then have "x \<notin> insert e (page_at (va f))"
      using walk_words_guarded(1) [OF ok ew] frame_bytes_guarded [OF f, of "mach p"] by blast
    then show "m' x = kmem (mach p) x" using placedD(6) [OF pl] by (simp add: pmem_def)
  qed
  moreover have "regions m' (memory_allocations p) ns rs"
  proof (rule regions_list_words [OF ok])
    fix x assume "x \<in> list_words p ns"
    then have "x \<notin> insert e (page_at (va f))"
      using walk_words_guarded(2) [OF ok ew] frame_not_list(1) [OF ok f] by blast
    then show "m' x = pmem p x" by (rule placedD(6) [OF pl])
  qed
  moreover have "user_pages m' (root_of p) \<subseteq> va ` F" using pg(3) vm_okD(3) [OF ok] f by blast
  moreover have "\<forall>t \<in> table_pages m' (root_of p). page_at t \<subseteq> guarded (mach p) F \<and> page_at t \<inter> list_words p ns = {}"
    using pg(2) vm_okD(4,5) [OF ok] frame_bytes_guarded [OF f, of "mach p"] frame_not_list(1) [OF ok f] by blast
  ultimately show ?thesis using pg(1) vm_okD(6-11) [OF ok] by (simp add: vm_ok_def)
qed

text \<open>The entry of another page of the region: absent and blank in a new table, otherwise as before.\<close>

lemma placed_leaf:
  assumes ok: "vm_ok p F ns rs" and f: "f \<in> F" and pl: "placed p f \<rho>\<^sub>0 e m'" and b: "in_region b"
  obtains "rpath b 3 = \<rho>\<^sub>0" "entry_of m' (root_of p) (rpath b 3) = Some e"
  | e' where "rpath b 3 \<noteq> \<rho>\<^sub>0" "entry_of (pmem p) (root_of p) (rpath b 3) = None"
      "entry_of m' (root_of p) (rpath b 3) = Some e'" "m' e' = 0"
  | "rpath b 3 \<noteq> \<rho>\<^sub>0" "entry_of m' (root_of p) (rpath b 3) = entry_of (pmem p) (root_of p) (rpath b 3)"
      "\<And>e'. entry_of (pmem p) (root_of p) (rpath b 3) = Some e' \<Longrightarrow> m' e' = pmem p e' \<and> e' \<noteq> e"
proof -
  note t = placed_table [OF ok f pl rpath_region [OF b]]
  have l2: "length (rpath b 2) = 2" by (simp add: rpath_simps)
  show thesis
  proof (cases "rpath b 3 = \<rho>\<^sub>0")
    case True
    then have "rpath b 2 \<noteq> \<rho>\<^sub>0" using l2 length_rpath [of b] by auto
    then have "entry_of m' (root_of p) (rpath b 3) = entry_of (pmem p) (root_of p) (rpath b 3)"
      using t [of 2] by (simp add: entry_of_leaf)
    then show thesis using that(1) True placedD(4) [OF pl] by simp
  next
    case ne: False
    show thesis
    proof (cases "rpath b 2 = \<rho>\<^sub>0")
      case True
      have "table (pmem p) (root_of p) \<rho>\<^sub>0 = None" using placedD(4,5) [OF pl] by (simp add: table_entry)
      moreover have "m' (va f + PTE64_INDEX b * 8) = 0"
        unfolding entry_page_word using placedD(9) [OF pl] l2 True index_less(3) [of b] by simp
      ultimately show thesis
        using that(2) [OF ne, of "va f + PTE64_INDEX b * 8"] t [of 2] True by (simp add: entry_of_leaf)
    next
      case False
      then have en: "entry_of m' (root_of p) (rpath b 3) = entry_of (pmem p) (root_of p) (rpath b 3)"
        using t [of 2] by (simp add: entry_of_leaf)
      have "m' e' = pmem p e' \<and> e' \<noteq> e" if e': "entry_of (pmem p) (root_of p) (rpath b 3) = Some e'" for e'
      proof -
        have "e' \<noteq> e"
          using entry_of_inject [OF vm_okD(2) [OF ok] placedD(3) [OF pl] rpath_region [OF b] placedD(4) [OF pl]] e' ne
          by blast
        moreover have "e' \<in> walk_words (pmem p) (root_of p)"
          by (rule entry_of_walk [OF vm_okD(2) [OF ok] rpath_region [OF b] e'])
        ultimately show ?thesis using placed_walk [OF ok f pl] by blast
      qed
      then show thesis using that(3) ne en by blast
    qed
  qed
qed

lemma place_word:
  assumes ok: "vm_ok p F ns rs" and f: "f \<in> F" and pl: "placed p f \<rho>\<^sub>0 e m'" and b: "in_region b" and i: "i < 512"
  shows "word_at v (upd_mem (\<lambda>_. m') p) b i =
    (if rpath b 3 = \<rho>\<^sub>0 then Some (m' (page_word (va f) i)) else word_at v p b i)"
  using ok f pl b
proof (cases rule: placed_leaf)
  case 1
  then show ?thesis using placedD(7,8) [OF pl] by (simp add: word_at_def)
next
  case (2 e')
  then show ?thesis using zero_entry [of m' e'] by (simp add: word_at_def)
next
  case 3
  show ?thesis
  proof (cases "entry_of (pmem p) (root_of p) (rpath b 3)")
    case None
    then show ?thesis using 3 by (simp add: word_at_def)
  next
    case (Some e')
    note c = entry_cong [of m' e' "pmem p", OF conjunct1 [OF 3(3) [OF Some]]]
    show ?thesis
    proof (cases "present (pmem p) e'")
      case False
      then show ?thesis using Some 3 by (cases "swap p") (simp_all add: word_at_def c)
    next
      case True
      let ?t = "entry_table (pmem p) e'"
      have tt: "table (pmem p) (root_of p) (rpath b 3) = Some ?t" using Some True by (simp add: table_entry)
      note up = user_page [OF ok b tt]
      have "?t \<noteq> va f" using up(2) placedD(2) [OF pl] by metis
      then have "page_at ?t \<inter> page_at (va f) = {}"
        using page_ok_disjoint [OF up(1) frame_page_ok [OF vm_okD(1) [OF ok] f]] by blast
      moreover have "e \<notin> page_at ?t"
        using up(4) entry_of_walk [OF vm_okD(2) [OF ok] placedD(3,4) [OF pl]] by blast
      moreover have "page_word ?t i \<in> page_at ?t" using up(1) i by (intro page_word_in) (simp_all add: page_ok_def)
      ultimately have "m' (page_word ?t i) = pmem p (page_word ?t i)" by (intro placedD(6) [OF pl]) blast
      then show ?thesis using Some 3 True by (simp add: word_at_def c)
    qed
  qed
qed

lemma place_swapped:
  assumes ok: "vm_ok p F ns rs" and f: "f \<in> F" and pl: "placed p f \<rho>\<^sub>0 e m'" and b: "in_region b"
  shows "swapped m' (root_of p) b k \<longleftrightarrow> rpath b 3 \<noteq> \<rho>\<^sub>0 \<and> swapped (pmem p) (root_of p) b k"
  using ok f pl b
proof (cases rule: placed_leaf)
  case 1
  then show ?thesis using placedD(7) [OF pl] by (simp add: swapped_def)
next
  case (2 e')
  then show ?thesis using zero_entry [of m' e'] by (simp add: swapped_def)
next
  case 3
  show ?thesis
  proof (cases "entry_of (pmem p) (root_of p) (rpath b 3)")
    case None
    then show ?thesis using 3 by (simp add: swapped_def)
  next
    case (Some e')
    note c = entry_cong [of m' e' "pmem p", OF conjunct1 [OF 3(3) [OF Some]]]
    show ?thesis using Some 3 by (simp add: swapped_def c)
  qed
qed

lemma place_swap_inv:
  assumes ok: "vm_ok p F ns rs" and f: "f \<in> F" and pl: "placed p f \<rho>\<^sub>0 e m'"
    and s: "swap_inv v p X" and X: "\<And>b. b \<in> X \<Longrightarrow> in_region b \<Longrightarrow> rpath b 3 = \<rho>\<^sub>0"
  shows "swap_inv v (upd_mem (\<lambda>_. m') p) {}"
proof -
  note sw = place_swapped [OF ok f pl]
  obtain w where w: "swap p = Some w" "swap_ok v w"
    "\<And>a k. in_region a \<Longrightarrow> a \<notin> X \<Longrightarrow> swapped (pmem p) (root_of p) a k \<Longrightarrow> swap_abs v w (files p) k \<noteq> None"
    "\<And>a b k. in_region a \<Longrightarrow> in_region b \<Longrightarrow> a \<notin> X \<Longrightarrow> b \<notin> X \<Longrightarrow> swapped (pmem p) (root_of p) a k \<Longrightarrow>
       swapped (pmem p) (root_of p) b k \<Longrightarrow> rpath a 3 = rpath b 3"
    using s unfolding swap_inv_def by blast
  have nX: "a \<notin> X" if "in_region a" "swapped m' (root_of p) a k" for a k using sw [OF that(1)] X that by blast
  show ?thesis
    unfolding swap_inv_def
  proof (intro exI [of _ w] conjI allI impI; (elim conjE)?)
    fix a k assume "in_region a" "swapped (pmem (upd_mem (\<lambda>_. m') p)) (root_of (upd_mem (\<lambda>_. m') p)) a k"
    then show "swap_abs v w (files (upd_mem (\<lambda>_. m') p)) k \<noteq> None"
      using w(3) [of a k] nX [of a k] sw [of a k] by simp
  next
    fix a b k assume "in_region a" "in_region b"
      "swapped (pmem (upd_mem (\<lambda>_. m') p)) (root_of (upd_mem (\<lambda>_. m') p)) a k"
      "swapped (pmem (upd_mem (\<lambda>_. m') p)) (root_of (upd_mem (\<lambda>_. m') p)) b k"
    then show "rpath a 3 = rpath b 3" using w(4) [of a b k] nX [of a k] nX [of b k] sw [of a k] sw [of b k] by simp
  qed (use w(1,2) in simp_all)
qed

end
