(* ===== verification/Evict.thy ===== *)
theory Evict
  imports Clock Vm_Place
begin

text \<open>
  Making room: \<open>clear_up_memory\<close> takes the page the clock chooses out of the tree, writes it to the swap
  space and gives its frame back. The programs' memory is the same afterwards.
\<close>

section \<open>The regions the clock looks at\<close>

lemma tiles_aligned: "tiles a rs b \<Longrightarrow> 4096 dvd a \<Longrightarrow> r \<in> set rs \<Longrightarrow> 4096 dvd unat (raddr r)"
  by (induction rs arbitrary: a) fastforce+

lemma tiles_distinct: "tiles a rs b \<Longrightarrow> distinct (map raddr rs)"
proof (induction rs arbitrary: a)
  case (Cons r rs)
  then have t: "tiles (a + 4096 * unat (rsize r)) rs b" "unat (raddr r) = a" "0 < unat (rsize r)" by auto
  have "raddr q \<noteq> raddr r" if "q \<in> set rs" for q using tiles_bounds [OF t(1) that] t(2,3) by auto
  then have "raddr r \<notin> raddr ` set rs" by (metis imageE)
  then show ?case using Cons.IH [OF t(1)] by simp
qed simp

lemma region_addr:
  assumes inv: "vspace_inv rs" and r: "r \<in> set rs"
  shows "in_region (raddr r)" "4096 dvd unat (raddr r)" "holds a r \<Longrightarrow> in_region a"
proof -
  have t: "tiles (unat PETMEM_REGION_START) rs region_end" using inv by (simp add: vspace_inv_def)
  note b = tiles_bounds [OF t r]
  have "0 < unat (rsize r)" using t r by (auto simp: in_set_conv_decomp tiles_append)
  then show "in_region (raddr r)"
    using b by (simp add: in_region_def word_le_nat_alt word_less_nat_alt region_end_def)
  show "4096 dvd unat (raddr r)"
    by (rule tiles_aligned [OF t _ r]) (simp add: PETMEM_REGION_START_def)
  assume h: "holds a r"
  have "unat (4096 * rsize r) = 4096 * unat (rsize r)"
    using b region_end_small by (simp add: unat_word_ariths)
  then have "unat (raddr r + 4096 * rsize r) = unat (raddr r) + 4096 * unat (rsize r)"
    using b region_end_small by (subst unat_add_small) simp_all
  then show "in_region a"
    using h b by (auto simp: holds_def in_region_def word_le_nat_alt word_less_nat_alt region_end_def)
qed

text \<open>The positions behind the hand, in list order.\<close>

definition clock_order :: "u64 \<Rightarrow> u64 \<Rightarrow> u64 list \<Rightarrow> u64 list" where
  "clock_order head hand ns =
     (if hand = head then map lnode ns
      else map lnode (tl (dropWhile (\<lambda>n. lnode n \<noteq> hand) ns)) @ head # map lnode (takeWhile (\<lambda>n. lnode n \<noteq> hand) ns))"

lemma clock_order_list:
  assumes d: "dlist m head (map lnode ns)" and h: "hand \<in> insert head (lnode ` set ns)"
  shows "links m hand (clock_order head hand ns) hand" "distinct (clock_order head hand ns)"
    "insert hand (set (clock_order head hand ns)) = insert head (lnode ` set ns)" "hand \<notin> set (clock_order head hand ns)"
proof -
  have "dlist m hand (clock_order head hand ns) \<and>
      insert hand (set (clock_order head hand ns)) = insert head (lnode ` set ns)"
  proof (cases "hand = head")
    case True
    then show ?thesis using d by (simp add: clock_order_def)
  next
    case False
    then obtain n where n: "n \<in> set ns" "hand = lnode n" using h by auto
    then obtain xs ys where ns: "ns = xs @ n # ys" "n \<notin> set xs" by (meson split_list_first)
    then have "\<And>k. k \<in> set xs \<Longrightarrow> lnode k \<noteq> hand" using n(2) by auto
    then have "takeWhile (\<lambda>k. lnode k \<noteq> hand) ns = xs" "dropWhile (\<lambda>k. lnode k \<noteq> hand) ns = n # ys"
      unfolding ns(1) by (subst takeWhile_append2 dropWhile_append2; simp add: n(2))+
    then have o: "clock_order head hand ns = map lnode ys @ head # map lnode xs"
      using False by (simp add: clock_order_def)
    have "dlist m (lnode n) (map lnode ys @ head # map lnode xs)"
      by (rule dlist_rotate) (use d ns(1) in simp)
    then show ?thesis unfolding o using n(2) ns(1) by auto
  qed
  then show "links m hand (clock_order head hand ns) hand" "distinct (clock_order head hand ns)"
    "insert hand (set (clock_order head hand ns)) = insert head (lnode ` set ns)" "hand \<notin> set (clock_order head hand ns)"
    by (auto simp: dlist_def intro: chain_links)
qed

text \<open>What is read as a region at the list head has no page in memory (or the hand is there).\<close>

definition clock_quiet :: "'fs process \<Rightarrow> bool" where
  "clock_quiet p \<longleftrightarrow> clock_hand p = memory_allocations p \<or>
     candidate (pmem p) (cr3 (mach p)) (memory_allocations p) = 0"

definition process_order :: "'fs process \<Rightarrow> u64 list \<Rightarrow> u64 list" where
  "process_order p ns = clock_order (memory_allocations p) (clock_hand p) ns"

lemma region_candidate:
  assumes ok: "vm_ok p F ns rs" and n: "n \<in> set ns" and c: "candidate (pmem p) (cr3 (mach p)) (lnode n) \<noteq> 0"
  defines "a \<equiv> reg_page_addr (pmem p) n"
  shows "in_region a" "4096 dvd unat a"
    "entry_of (pmem p) (root_of p) (rpath a 3) = Some (candidate (pmem p) (cr3 (mach p)) (lnode n))"
    "present (pmem p) (candidate (pmem p) (cr3 (mach p)) (lnode n))"
proof -
  have r: "regions (pmem p) (memory_allocations p) ns rs" by (rule vm_okD(9) [OF ok])
  have "reg_at (pmem p) n \<in> set rs" using r n by (auto simp: regions_def)
  from region_addr [OF vm_okD(10) [OF ok] this]
  show a: "in_region a" "4096 dvd unat a" by (simp_all add: a_def reg_at_fields)
  show "entry_of (pmem p) (root_of p) (rpath a 3) = Some (candidate (pmem p) (cr3 (mach p)) (lnode n))"
    "present (pmem p) (candidate (pmem p) (cr3 (mach p)) (lnode n))"
    using c get_valid_page_entry_table [OF a(1), of "pmem p" "cr3 (mach p)"]
    by (auto simp: candidate_def a_def root_of_def split: option.splits if_splits)
qed

lemma process_order_props:
  assumes ok: "vm_ok p F ns rs" and q: "clock_quiet p"
  shows "\<And>x. x \<in> set (process_order p ns) \<Longrightarrow> candidate (pmem p) (cr3 (mach p)) x \<noteq> 0 \<Longrightarrow> \<exists>n \<in> set ns. x = lnode n"
    "candidates (pmem p) (cr3 (mach p)) (process_order p ns) \<subseteq> walk_words (pmem p) (root_of p)"
    "clock_ok (pmem p) (cr3 (mach p)) (process_order p ns)"
proof -
  let ?c = "candidate (pmem p) (cr3 (mach p))" and ?o = "process_order p ns"
  have r: "regions (pmem p) (memory_allocations p) ns rs" by (rule vm_okD(9) [OF ok])
  note o = clock_order_list [OF _ vm_okD(11) [OF ok], of "pmem p", folded process_order_def]
  have d: "dlist (pmem p) (memory_allocations p) (map lnode ns)" using r by (simp add: regions_def)
  show node: "\<exists>n \<in> set ns. x = lnode n" if "x \<in> set ?o" "?c x \<noteq> 0" for x
  proof -
    have "x \<in> insert (memory_allocations p) (lnode ` set ns)" using o(3) [OF d] that(1) by blast
    moreover have "x \<noteq> memory_allocations p" using o(4) [OF d] that q unfolding clock_quiet_def by metis
    ultimately show ?thesis by blast
  qed
  show w: "candidates (pmem p) (cr3 (mach p)) ?o \<subseteq> walk_words (pmem p) (root_of p)"
  proof
    fix e assume "e \<in> candidates (pmem p) (cr3 (mach p)) ?o"
    then obtain n where n: "n \<in> set ns" "e = ?c (lnode n)" "e \<noteq> 0" using node by (auto simp: candidates_def)
    then show "e \<in> walk_words (pmem p) (root_of p)"
      using entry_of_walk [OF vm_okD(2) [OF ok] rpath_region] region_candidate(1,3) [OF ok n(1)] by auto
  qed
  have "clock_words ?o \<subseteq> list_words p ns"
  proof -
    have "lnode n \<in> node_words n" "lnode n - 8 \<in> node_words n" for n by (simp_all add: node_words_def lnode_def)
    moreover have "set ?o \<subseteq> insert (memory_allocations p) (lnode ` set ns)" using o(3) [OF d] by blast
    ultimately show ?thesis by (fastforce simp: clock_words_def list_words_def region_words_def)
  qed
  then have dj: "candidates (pmem p) (cr3 (mach p)) ?o \<inter> clock_words ?o = {}"
    using w walk_words_guarded(2) [OF ok] by blast
  have "inj_on ?c {x \<in> set ?o. ?c x \<noteq> 0}"
  proof (rule inj_onI, elim CollectE conjE)
    fix x y assume xy: "x \<in> set ?o" "?c x \<noteq> 0" "y \<in> set ?o" "?c y \<noteq> 0" "?c x = ?c y"
    obtain n k where nk: "n \<in> set ns" "x = lnode n" "k \<in> set ns" "y = lnode k" using node xy(1-4) by blast
    note rn = region_candidate [OF ok nk(1)] and rk = region_candidate [OF ok nk(3)]
    let ?a = "reg_page_addr (pmem p) n" and ?b = "reg_page_addr (pmem p) k"
    have "rpath ?a 3 = rpath ?b 3"
      using entry_of_inject [OF vm_okD(2) [OF ok] rpath_region rpath_region] rn(1,3) rk(1,3) xy nk by metis
    then have "drop_bit 12 ?a = drop_bit 12 ?b" using rpath_page rn(1) rk(1) xy nk by blast
    then have "unat ?a div 4096 = unat ?b div 4096" using unat_drop_bit [of 12 ?a] unat_drop_bit [of 12 ?b] by simp
    then have "raddr (reg_at (pmem p) n) = raddr (reg_at (pmem p) k)"
      using rn(2) rk(2) xy nk by (auto simp: reg_at_fields word_unat_eq_iff elim!: dvdE)
    moreover have "distinct (map raddr rs)"
      using vm_okD(10) [OF ok] by (auto simp: vspace_inv_def intro: tiles_distinct)
    then have "distinct (map (\<lambda>n. raddr (reg_at (pmem p) n)) ns)" using r by (auto simp: regions_def comp_def)
    ultimately have "n = k" using nk(1,3) by (simp add: distinct_map inj_on_def)
    then show "x = y" using nk by simp
  qed
  then show "clock_ok (pmem p) (cr3 (mach p)) ?o" using dj o(2) [OF d] by (simp add: clock_ok_def)
qed

text \<open>The clock on a process in its invariant: it returns exactly when the second-chance algorithm has a choice.\<close>

lemma process_clock:
  assumes ok: "vm_ok p F ns rs" and q: "clock_quiet p"
  defines "m \<equiv> pmem p" and "cr \<equiv> cr3 (mach p)" and "hand \<equiv> clock_hand p" and "ord \<equiv> process_order p ns"
  shows "second_chance m cr ord = None \<Longrightarrow> page_replacement_clock cr hand (m hand) m = None"
    and "second_chance m cr ord = Some pos \<Longrightarrow>
      \<exists>m' n. n \<in> set ns \<and> pos = lnode n \<and>
        page_replacement_clock cr hand (m hand) m = Some (candidate m cr pos, entry_table m (candidate m cr pos), m pos, m') \<and>
        flag_change m m' (candidates m cr ord) \<and> entry_get ''accessed'' m' (candidate m cr pos) = 0"
proof -
  note pp = process_order_props [OF ok q, folded m_def cr_def ord_def]
  have r: "regions m (memory_allocations p) ns rs" unfolding m_def by (rule vm_okD(9) [OF ok])
  have d: "dlist m (memory_allocations p) (map lnode ns)" using r by (simp add: regions_def)
  note o = clock_order_list [OF d vm_okD(11) [OF ok], folded process_order_def hand_def ord_def]
  have "hand \<in> list_words p ns"
    using vm_okD(11) [OF ok] node_words_lnode(1) by (fastforce simp: list_words_def region_words_def hand_def)
  then have h: "hand \<notin> candidates m cr ord" using pp(2) walk_words_guarded(2) [OF ok] unfolding m_def by blast
  { assume n: "second_chance m cr ord = None"
    show "page_replacement_clock cr hand (m hand) m = None"
    proof (rule clock_stuck [of _ "insert hand (set ord)"])
      show "m x \<in> insert hand (set ord)" if "x \<in> insert hand (set ord)" for x by (rule links_closed [OF o(1) that])
      then show "m hand \<in> insert hand (set ord)" by simp
      show "candidate m cr x = 0" if "x \<in> insert hand (set ord)" "x \<noteq> hand" for x
        using n that by (auto simp: second_chance_None)
    qed simp }
  assume s: "second_chance m cr ord = Some pos"
  then have pc: "pos \<in> set ord" "candidate m cr pos \<noteq> 0" using second_chance_Some by blast+
  then obtain n where n: "n \<in> set ns" "pos = lnode n" using pp(1) by blast
  obtain m' where m': "page_replacement_clock cr hand (m hand) m = Some (candidate m cr pos,
      va (BASE_TO_PAGE_ADDR (entry_get ''page_base_addr'' m (candidate m cr pos)) +
          PHYSICAL_OFFSET (reg_page_addr m (list_entry pos))), m pos, m')"
    "flag_change m m' (candidates m cr ord)" "entry_get ''accessed'' m' (candidate m cr pos) = 0"
    by (rule clock_finds [OF o(1,4) h pp(3) s])
  have "4096 dvd unat (reg_page_addr m n)"
    using region_candidate(2) [OF ok n(1)] pc(2) n(2) by (simp add: m_def cr_def)
  then have "unat (PHYSICAL_OFFSET (reg_page_addr m n)) = 0"
    by (simp add: PHYSICAL_OFFSET_def and_masks unsigned_take_bit_eq take_bit_eq_mod unat_mod_distrib dvd_eq_mod_eq_0)
  then have "va (BASE_TO_PAGE_ADDR (entry_get ''page_base_addr'' m (candidate m cr pos)) +
      PHYSICAL_OFFSET (reg_page_addr m (list_entry pos))) = entry_table m (candidate m cr pos)"
    using n(2) by (simp add: entry_table_def unat_eq_zero)
  then show "\<exists>m' n. n \<in> set ns \<and> pos = lnode n \<and>
      page_replacement_clock cr hand (m hand) m = Some (candidate m cr pos, entry_table m (candidate m cr pos), m pos, m') \<and>
      flag_change m m' (candidates m cr ord) \<and> entry_get ''accessed'' m' (candidate m cr pos) = 0"
    using m' n by auto
qed

section \<open>Changing an entry at the end of a path\<close>

lemma process_fields [simp]:
  "pmem (p\<lparr>files := fs\<rparr>) = pmem p" "pmem (p\<lparr>swap := sw\<rparr>) = pmem p" "pmem (p\<lparr>clock_hand := h\<rparr>) = pmem p"
  "root_of (p\<lparr>files := fs\<rparr>) = root_of p" "root_of (p\<lparr>swap := sw\<rparr>) = root_of p" "root_of (p\<lparr>clock_hand := h\<rparr>) = root_of p"
  "list_words (p\<lparr>files := fs\<rparr>) = list_words p" "list_words (p\<lparr>swap := sw\<rparr>) = list_words p"
  "list_words (p\<lparr>clock_hand := h\<rparr>) = list_words p" "pmem (p\<lparr>mach := s\<rparr>) = kmem s"
  by (simp_all add: pmem_def root_of_def list_words_def fun_eq_iff)

lemma vm_ok_fields:
  "vm_ok (p\<lparr>files := fs\<rparr>) F ns rs = vm_ok p F ns rs" "vm_ok (p\<lparr>swap := sw\<rparr>) F ns rs = vm_ok p F ns rs"
  "vm_ok p F ns rs \<Longrightarrow> h \<in> insert (memory_allocations p) (lnode ` set ns) \<Longrightarrow> vm_ok (p\<lparr>clock_hand := h\<rparr>) F ns rs"
  by (simp_all add: vm_ok_def)

text \<open>The entry of a page of the region is written and is not present afterwards.\<close>

definition leaf_edit :: "'fs process \<Rightarrow> u64 \<Rightarrow> u64 \<Rightarrow> mem \<Rightarrow> bool" where
  "leaf_edit p a e m' \<longleftrightarrow> in_region a \<and> entry_of (pmem p) (root_of p) (rpath a 3) = Some e \<and> \<not> present m' e \<and>
     (\<forall>x. x \<noteq> e \<longrightarrow> m' x = pmem p x)"

lemma leaf_editD:
  assumes "leaf_edit p a e m'"
  shows "in_region a" "entry_of (pmem p) (root_of p) (rpath a 3) = Some e" "\<not> present m' e" "x \<noteq> e \<Longrightarrow> m' x = pmem p x"
  using assms unfolding leaf_edit_def by blast+

lemma leaf_edit_table:
  assumes ok: "vm_ok p F ns rs" and le: "leaf_edit p a e m'" and r: "\<rho> \<in> region_paths"
  shows "table m' (root_of p) \<rho> = (if \<rho> = rpath a 3 then None else table (pmem p) (root_of p) \<rho>)"
  using table_change [OF vm_okD(2) [OF ok] rpath_region [OF leaf_editD(1) [OF le]] leaf_editD(2) [OF le] _ _ _ r, of m']
    leaf_editD(3,4) [OF le] by simp

lemma leaf_edit_entry:
  assumes ok: "vm_ok p F ns rs" and le: "leaf_edit p a e m'" and b: "in_region b"
  shows "entry_of m' (root_of p) (rpath b 3) = entry_of (pmem p) (root_of p) (rpath b 3)"
    "rpath b 3 \<noteq> rpath a 3 \<Longrightarrow> entry_of (pmem p) (root_of p) (rpath b 3) = Some e' \<Longrightarrow> m' e' = pmem p e'"
proof -
  have "rpath b 2 \<noteq> rpath a 3" by (simp add: rpath_simps)
  then show "entry_of m' (root_of p) (rpath b 3) = entry_of (pmem p) (root_of p) (rpath b 3)"
    using leaf_edit_table [OF ok le rpath_region [OF b, of 2]] by (simp add: entry_of_leaf)
  assume "rpath b 3 \<noteq> rpath a 3" "entry_of (pmem p) (root_of p) (rpath b 3) = Some e'"
  then have "e' \<noteq> e"
    using entry_of_inject [OF vm_okD(2) [OF ok] rpath_region rpath_region] b leaf_editD(1,2) [OF le] by metis
  then show "m' e' = pmem p e'" by (rule leaf_editD(4) [OF le])
qed

lemma leaf_edit_vm:
  assumes ok: "vm_ok p F ns rs" and le: "leaf_edit p a e m'"
  shows "vm_ok (upd_mem (\<lambda>_. m') p) F ns rs"
    "user_pages m' (root_of p) \<subseteq> user_pages (pmem p) (root_of p)"
    "table_pages m' (root_of p) = table_pages (pmem p) (root_of p)"
    "table (pmem p) (root_of p) (rpath a 3) = Some t \<Longrightarrow> t \<notin> user_pages m' (root_of p)"
proof -
  note t = leaf_edit_table [OF ok le] and T = vm_okD(2) [OF ok] and D = leaf_editD [OF le]
  show tp: "table_pages m' (root_of p) = table_pages (pmem p) (root_of p)"
  proof -
    have "table m' (root_of p) \<pi> = table (pmem p) (root_of p) \<pi>" if "\<pi> \<in> region_paths" "length \<pi> < 3" for \<pi>
      using t [OF that(1)] that(2) by auto
    then show ?thesis unfolding table_pages_def by (intro Collect_cong) (metis (no_types))
  qed
  show up: "user_pages m' (root_of p) \<subseteq> user_pages (pmem p) (root_of p)"
    by (auto simp: user_pages_def t rpath_region split: if_splits)
  show "t \<notin> user_pages m' (root_of p)" if "table (pmem p) (root_of p) (rpath a 3) = Some t" for t
    using tables_okD(3) [OF T rpath_region [OF D(1)] that rpath_region]
    by (auto simp: user_pages_def leaf_edit_table [OF ok le] rpath_region split: if_splits)
  have ew: "e \<in> walk_words (pmem p) (root_of p)" by (rule entry_of_walk [OF T rpath_region [OF D(1)] D(2)])
  have "frames_ok ((mach p)\<lparr>kmem := m'\<rparr>) F"
    by (rule frames_ok_write [OF vm_okD(1) [OF ok]])
      (use D(4) walk_words_guarded(1) [OF ok ew] in \<open>metis pmem_def\<close>)
  moreover have "regions m' (memory_allocations p) ns rs"
    by (rule regions_list_words [OF ok]) (use D(4) walk_words_guarded(2) [OF ok ew] in metis)
  moreover have "tables_ok m' (root_of p)" using T unfolding tables_ok_def by (auto simp: t split: if_splits)
  ultimately show "vm_ok (upd_mem (\<lambda>_. m') p) F ns rs" using ok up by (auto simp: vm_ok_def tp)
qed

lemma leaf_edit_sees:
  assumes ok: "vm_ok p F ns rs" and le: "leaf_edit p a e m'" and b: "in_region b" and ne: "rpath b 3 \<noteq> rpath a 3"
  shows "swapped m' (root_of p) b k = swapped (pmem p) (root_of p) b k"
    "i < 512 \<Longrightarrow> word_at v (upd_mem (\<lambda>_. m') p) b i = word_at v p b i"
proof -
  note en = leaf_edit_entry [OF ok le b]
  have "swapped m' (root_of p) b k = swapped (pmem p) (root_of p) b k \<and>
      (i < 512 \<longrightarrow> word_at v (upd_mem (\<lambda>_. m') p) b i = word_at v p b i)"
  proof (cases "entry_of (pmem p) (root_of p) (rpath b 3)")
    case None
    then show ?thesis by (simp add: swapped_def word_at_def en(1))
  next
    case (Some e')
    note c = entry_cong [of m' e' "pmem p", OF en(2) [OF ne Some]]
    have "m' (page_word (entry_table (pmem p) e') i) = pmem p (page_word (entry_table (pmem p) e') i)"
      if i: "i < 512" and pr: "present (pmem p) e'"
    proof (rule leaf_editD(4) [OF le])
      have tt: "table (pmem p) (root_of p) (rpath b 3) = Some (entry_table (pmem p) e')"
        using Some pr by (simp add: table_entry)
      note up = user_page [OF ok b tt]
      have "page_word (entry_table (pmem p) e') i \<in> page_at (entry_table (pmem p) e')"
        using up(1) i by (intro page_word_in) (simp_all add: page_ok_def)
      then show "page_word (entry_table (pmem p) e') i \<noteq> e"
        using up(4) entry_of_walk [OF vm_okD(2) [OF ok] rpath_region leaf_editD(2) [OF le]] leaf_editD(1) [OF le] by blast
    qed
    then show ?thesis using Some by (cases "swap p") (simp_all add: swapped_def word_at_def en(1) c)
  qed
  then show "swapped m' (root_of p) b k = swapped (pmem p) (root_of p) b k"
    "i < 512 \<Longrightarrow> word_at v (upd_mem (\<lambda>_. m') p) b i = word_at v p b i" by blast+
qed

section \<open>Eviction\<close>

text \<open>A frame that no page of the process is in goes back to the allocator.\<close>

lemma vm_free:
  assumes ok: "vm_ok p F ns rs" and f: "f \<in> F" and up: "user_pages (pmem p) (root_of p) \<subseteq> va ` (F - {f})"
    and tp: "\<And>t. t \<in> table_pages (pmem p) (root_of p) \<Longrightarrow> page_at t \<subseteq> guarded (mach p) (F - {f})"
  obtains s' where "petmem_free_pages f 1 (mach p) = Inr s'" "same_machine (mach p) s'"
    "vm_ok (p\<lparr>mach := s'\<rparr>) (F - {f}) ns rs"
    "\<And>\<rho>. \<rho> \<in> region_paths \<Longrightarrow> table (kmem s') (root_of p) \<rho> = table (pmem p) (root_of p) \<rho>"
    "\<And>v a i. in_region a \<Longrightarrow> i < 512 \<Longrightarrow> word_at v (p\<lparr>mach := s'\<rparr>) a i = word_at v p a i"
    "\<And>x. x \<in> walk_words (pmem p) (root_of p) \<Longrightarrow> kmem s' x = pmem p x"
proof -
  obtain s' where s': "petmem_free_pages f 1 (mach p) = Inr s'" "same_machine (mach p) s'" "frames_ok s' (F - {f})"
    "\<And>x. x \<in> guarded (mach p) (F - {f}) \<Longrightarrow> kmem s' x = kmem (mach p) x"
    by (rule frame_free [OF vm_okD(1) [OF ok] f]) blast
  note m = vm_mach [OF ok s'(2,3) order_refl up tp s'(4) [folded pmem_def]]
  have "root_of (p\<lparr>mach := s'\<rparr>) = root_of p" using s'(2) by (simp add: root_of_def same_machine_def)
  then show thesis using that [OF s'(1,2) m(1)] m(2,3,5) by simp
qed

text \<open>The page at \<open>a\<close> is taken out of the tree; its entry keeps pointing to the frame for the moment.\<close>

lemma unmap_page:
  assumes ok: "vm_ok p F ns rs" and a: "in_region a" and e: "entry_of (pmem p) (root_of p) (rpath a 3) = Some e"
    and pr: "present (pmem p) e"
  defines "m1 \<equiv> entry_set ''dirty'' 1 e (entry_set ''present'' 0 e (pmem p))" and "loc \<equiv> entry_table (pmem p) e"
  shows "leaf_edit p a e m1" "pa loc \<in> F" "user_pages m1 (root_of p) \<subseteq> va ` (F - {pa loc})"
    "t \<in> table_pages m1 (root_of p) \<Longrightarrow> page_at t \<subseteq> guarded (mach p) (F - {pa loc})"
    "i < 512 \<Longrightarrow> m1 (page_word loc i) = pmem p (page_word loc i)" "entry_get ''dirty'' m1 e = 1"
proof -
  have "\<not> present m1 e" by (simp add: m1_def present_def entry_field_simps)
  then show le: "leaf_edit p a e m1" using a e by (simp add: leaf_edit_def m1_def)
  show "entry_get ''dirty'' m1 e = 1" by (simp add: m1_def entry_field_simps)
  have tt: "table (pmem p) (root_of p) (rpath a 3) = Some loc" using e pr by (simp add: table_entry loc_def)
  note u = user_page [OF ok a tt] and lv = leaf_edit_vm [OF ok le]
  show "pa loc \<in> F" by (rule u(3))
  show "user_pages m1 (root_of p) \<subseteq> va ` (F - {pa loc})"
  proof
    fix t assume t: "t \<in> user_pages m1 (root_of p)"
    then obtain g where g: "g \<in> F" "t = va g" using lv(2) vm_okD(3) [OF ok] by blast
    then have "g \<noteq> pa loc" using t lv(4) [OF tt] by auto
    then show "t \<in> va ` (F - {pa loc})" using g by blast
  qed
  show "page_at t \<subseteq> guarded (mach p) (F - {pa loc})" if "t \<in> table_pages m1 (root_of p)" for t
  proof -
    have t: "t \<in> table_pages (pmem p) (root_of p)" using that lv(3) by simp
    then have "page_at t \<inter> page_at loc = {}" using u(4) by (auto simp: walk_words_def)
    then show ?thesis using vm_okD(4) [OF ok t] by (fastforce simp: guarded_def frame_bytes_def)
  qed
  assume i: "i < 512"
  have "page_word loc i \<in> page_at loc" using u(1) i by (intro page_word_in) (simp_all add: page_ok_def)
  then show "m1 (page_word loc i) = pmem p (page_word loc i)"
    using u(4) entry_of_walk [OF vm_okD(2) [OF ok] rpath_region [OF a] e] by (intro leaf_editD(4) [OF le]) blast
qed

lemma word_at_store:
  assumes "swap p = Some sw"
    and "\<And>k. swapped (pmem p) (root_of p) b k \<Longrightarrow> swap_abs v sw' fs' k = swap_abs v sw (files p) k"
  shows "word_at v (p\<lparr>files := fs', swap := Some sw'\<rparr>) b i = word_at v p b i"
  using assms by (auto simp: word_at_def swapped_def split: option.split)

text \<open>
  The frame goes back and the entry gets the number of the slot: the tree, seen from the page
  table of \<open>a\<close> upwards, and all other pages are as before.
\<close>

lemma evict_frame:
  assumes ok: "vm_ok p F ns rs" and a: "in_region a" and e: "entry_of (pmem p) (root_of p) (rpath a 3) = Some e"
    and pr: "present (pmem p) e" and h: "h \<in> insert (memory_allocations p) (lnode ` set ns)"
  defines "m1 \<equiv> entry_set ''dirty'' 1 e (entry_set ''present'' 0 e (pmem p))" and "loc \<equiv> entry_table (pmem p) e"
  defines "p1 \<equiv> (upd_mem (\<lambda>_. m1) p)\<lparr>clock_hand := h\<rparr>"
  obtains s where "petmem_free_pages (pa loc) 1 (mach p1) = Inr s" "same_machine (mach p) s"
    "\<And>index. vm_ok (upd_mem (entry_set ''page_base_addr'' index e) (p1\<lparr>mach := s\<rparr>)) (F - {pa loc}) ns rs"
    "\<And>index \<rho>. \<rho> \<in> region_paths \<Longrightarrow> table (entry_set ''page_base_addr'' index e (kmem s)) (root_of p) \<rho> =
       (if \<rho> = rpath a 3 then None else table (pmem p) (root_of p) \<rho>)"
    "\<And>index v b i. in_region b \<Longrightarrow> rpath b 3 \<noteq> rpath a 3 \<Longrightarrow> i < 512 \<Longrightarrow>
       word_at v (upd_mem (entry_set ''page_base_addr'' index e) (p1\<lparr>mach := s\<rparr>)) b i = word_at v p b i"
    "\<And>x. x \<in> walk_words (pmem p) (root_of p) \<Longrightarrow> x \<noteq> e \<Longrightarrow> kmem s x = pmem p x" "kmem s e = m1 e"
proof -
  note u = unmap_page [OF ok a e pr, folded m1_def loc_def]
  note le = u(1) and lv = leaf_edit_vm [OF ok u(1)]
  have f: "pmem p1 = m1" "root_of p1 = root_of p" "mach p1 = (mach p)\<lparr>kmem := m1\<rparr>" by (simp_all add: p1_def)
  have ok1: "vm_ok p1 F ns rs" unfolding p1_def by (rule vm_ok_fields(3) [OF lv(1)]) (use h in simp)
  have fr: "user_pages (pmem p1) (root_of p1) \<subseteq> va ` (F - {pa loc})"
    "\<And>t. t \<in> table_pages (pmem p1) (root_of p1) \<Longrightarrow> page_at t \<subseteq> guarded (mach p1) (F - {pa loc})"
    using u(3,4) by (simp_all add: f)
  obtain s where s: "petmem_free_pages (pa loc) 1 (mach p1) = Inr s" "same_machine (mach p1) s"
    "vm_ok (p1\<lparr>mach := s\<rparr>) (F - {pa loc}) ns rs"
    "\<And>\<rho>. \<rho> \<in> region_paths \<Longrightarrow> table (kmem s) (root_of p1) \<rho> = table (pmem p1) (root_of p1) \<rho>"
    "\<And>v b i. in_region b \<Longrightarrow> i < 512 \<Longrightarrow> word_at v (p1\<lparr>mach := s\<rparr>) b i = word_at v p1 b i"
    "\<And>x. x \<in> walk_words (pmem p1) (root_of p1) \<Longrightarrow> kmem s x = pmem p1 x"
    by (rule vm_free [OF ok1 u(2) fr], assumption, rule that)
  have sm: "same_machine (mach p) s" using s(2) by (simp add: f(3) same_machine_def)
  have r2: "root_of (p1\<lparr>mach := s\<rparr>) = root_of p" using sm by (simp add: root_of_def same_machine_def)
  have ww: "walk_words m1 (root_of p) = walk_words (pmem p) (root_of p)" by (simp add: walk_words_def lv(3))
  have ew: "e \<in> walk_words (pmem p) (root_of p)" by (rule entry_of_walk [OF vm_okD(2) [OF ok] rpath_region [OF a] e])
  have ke: "kmem s x = m1 x" if "x \<in> walk_words (pmem p) (root_of p)" for x using s(6) that f ww by simp
  have t2: "table (kmem s) (root_of p) \<rho> = (if \<rho> = rpath a 3 then None else table (pmem p) (root_of p) \<rho>)"
    if "\<rho> \<in> region_paths" for \<rho> using s(4) [OF that] leaf_edit_table [OF ok le that] f by simp
  have le2: "leaf_edit (p1\<lparr>mach := s\<rparr>) a e (entry_set ''page_base_addr'' index e (kmem s))" for index
  proof -
    have "entry_of (kmem s) (root_of p) (rpath a 3) = Some e"
      using t2 [OF rpath_region [OF a], of 2] e by (simp add: entry_of_leaf) (simp add: rpath_simps)
    moreover have "\<not> present (entry_set ''page_base_addr'' index e (kmem s)) e"
      using entry_cong(2) [of "kmem s" e m1] ke [OF ew] leaf_editD(3) [OF le] by (simp add: present_def entry_field_simps)
    ultimately show ?thesis using a by (simp add: leaf_edit_def r2)
  qed
  have up: "upd_mem (entry_set ''page_base_addr'' index e) (p1\<lparr>mach := s\<rparr>) =
      upd_mem (\<lambda>_. entry_set ''page_base_addr'' index e (kmem s)) (p1\<lparr>mach := s\<rparr>)" for index
    by (simp add: upd_mem_def)
  show thesis
  proof (rule that [OF s(1) sm])
    fix index :: u64
    show "vm_ok (upd_mem (entry_set ''page_base_addr'' index e) (p1\<lparr>mach := s\<rparr>)) (F - {pa loc}) ns rs"
      unfolding up by (rule leaf_edit_vm(1) [OF s(3) le2])
    show "table (entry_set ''page_base_addr'' index e (kmem s)) (root_of p) \<rho> =
       (if \<rho> = rpath a 3 then None else table (pmem p) (root_of p) \<rho>)" if r: "\<rho> \<in> region_paths" for \<rho>
      using leaf_edit_table [OF s(3) le2 r] t2 [OF r] by (simp add: r2)
    show "word_at v (upd_mem (entry_set ''page_base_addr'' index e) (p1\<lparr>mach := s\<rparr>)) b i = word_at v p b i"
      if b: "in_region b" "rpath b 3 \<noteq> rpath a 3" "i < 512" for v b i
    proof -
      have "word_at v p1 b i = word_at v (upd_mem (\<lambda>_. m1) p) b i" by (simp add: p1_def word_at_def split: option.split)
      then show ?thesis
        unfolding up leaf_edit_sees(2) [OF s(3) le2 b] s(5) [OF b(1,3)] using leaf_edit_sees(2) [OF ok le b] by simp
    qed
    show "kmem s x = pmem p x" if "x \<in> walk_words (pmem p) (root_of p)" "x \<noteq> e" for x
      using ke [OF that(1)] leaf_editD(4) [OF le that(2)] by simp
    show "kmem s e = m1 e" by (rule ke [OF ew])
  qed
qed

text \<open>Everything a caller of \<open>clear_up_memory\<close> needs: a frame is spare again, and programs notice nothing.\<close>

definition evicted :: "'fs vfs \<Rightarrow> 'fs process \<Rightarrow> u64 set \<Rightarrow> u64 set \<Rightarrow> 'fs process \<Rightarrow> bool" where
  "evicted v p F X p' \<longleftrightarrow>
     same_machine (mach p) (mach p') \<and> memory_allocations p' = memory_allocations p \<and> spare (mach p') F \<noteq> {} \<and>
     swap_inv v p' X \<and>
     (\<forall>b i. in_region b \<and> b \<notin> X \<and> i < 512 \<longrightarrow> word_at v p' b i = word_at v p b i) \<and>
     (\<forall>\<rho> \<in> region_paths. length \<rho> < 3 \<longrightarrow> table (pmem p') (root_of p) \<rho> = table (pmem p) (root_of p) \<rho>) \<and>
     (\<forall>e \<in> walk_words (pmem p) (root_of p). \<not> present (pmem p) e \<longrightarrow> pmem p' e = pmem p e)"

definition swap_room :: "'fs vfs \<Rightarrow> 'fs process \<Rightarrow> bool" where
  "swap_room v p \<longleftrightarrow> (\<exists>sw. swap p = Some sw \<and> (\<exists>k < unat (swap_size sw). swap_abs v sw (files p) k = None))"

lemma swap_room_find:
  assumes "swap p = Some sw" "swap_room v p"
  obtains k where "List.find (\<lambda>k. swap_abs v sw (files p) k = None) [0 ..< unat (swap_size sw)] = Some k"
    "k < unat (swap_size sw)" "swap_abs v sw (files p) k = None"
proof -
  have "List.find (\<lambda>k. swap_abs v sw (files p) k = None) [0 ..< unat (swap_size sw)] \<noteq> None"
    using assms by (auto simp: swap_room_def find_None_iff)
  then obtain k where k: "List.find (\<lambda>k. swap_abs v sw (files p) k = None) [0 ..< unat (swap_size sw)] = Some k" by blast
  then show thesis using that find_sat [OF k] by simp
qed

lemma swap_invD:
  assumes "swap_inv v p X" "swap p = Some sw"
  shows "swap_ok v sw"
    and "in_region b \<Longrightarrow> b \<notin> X \<Longrightarrow> swapped (pmem p) (root_of p) b k \<Longrightarrow> swap_abs v sw (files p) k \<noteq> None"
    and "in_region b \<Longrightarrow> in_region c \<Longrightarrow> b \<notin> X \<Longrightarrow> c \<notin> X \<Longrightarrow> swapped (pmem p) (root_of p) b k \<Longrightarrow>
      swapped (pmem p) (root_of p) c k \<Longrightarrow> rpath b 3 = rpath c 3"
  using assms unfolding swap_inv_def by (simp_all, metis+)

text \<open>The swap space takes page \<open>a\<close> into the free slot \<open>k\<close>, and the entry of \<open>a\<close>, and no other, names the slot.\<close>

lemma swap_inv_store:
  assumes si: "swap_inv v p X" and sw: "swap p = Some sw" and k: "swap_abs v sw (files p) k = None"
    and sw': "swap_ok v sw'" "swap_abs v sw' fs' = (swap_abs v sw (files p))(k \<mapsto> page)"
    and other: "\<And>b j. in_region b \<Longrightarrow> rpath b 3 \<noteq> rpath a 3 \<Longrightarrow>
      swapped (pmem q) (root_of q) b j = swapped (pmem p) (root_of p) b j"
    and there: "\<And>b j. in_region b \<Longrightarrow> rpath b 3 = rpath a 3 \<Longrightarrow> swapped (pmem q) (root_of q) b j \<longleftrightarrow> j = k"
  shows "swap_inv v (q\<lparr>files := fs', swap := Some sw'\<rparr>) X"
proof -
  note abs = swap_invD(2) [OF si sw] and inj = swap_invD(3) [OF si sw]
  have fresh: "j \<noteq> k" if "in_region b" "b \<notin> X" "swapped (pmem p) (root_of p) b j" for b j
    using abs [OF that] k by auto
  have "swap_abs v sw' fs' j \<noteq> None" if b: "in_region b" "b \<notin> X" "swapped (pmem q) (root_of q) b j" for b j
    using b(3) abs [OF b(1,2)] there [OF b(1)] other [OF b(1)] by (cases "rpath b 3 = rpath a 3") (auto simp: sw'(2))
  moreover have "rpath b 3 = rpath c 3"
    if bc: "in_region b" "in_region c" "b \<notin> X" "c \<notin> X" "swapped (pmem q) (root_of q) b j" "swapped (pmem q) (root_of q) c j" for b c j
    using inj [OF bc(1-4)] bc(5,6) there [OF bc(1), of j] there [OF bc(2), of j] other [OF bc(1), of j] other [OF bc(2), of j]
      fresh [OF bc(1,3), of j] fresh [OF bc(2,4), of j] by metis
  ultimately show ?thesis using sw'(1) unfolding swap_inv_def by (intro exI [of _ sw']) (simp, metis)
qed

lemma frame_spare:
  assumes "frames_ok s F" "f \<in> F"
  shows "va f \<in> spare s (F - {f})"
proof -
  have "page_at (va f) \<subseteq> pool_bytes s" using frame_props(4) [OF assms] by simp
  moreover have "page_at (va f) \<inter> page_at (va g) = {}" if "g \<in> F - {f}" for g
    using frames_disjoint [OF assms, of g] that by auto
  ultimately show ?thesis by (fastforce simp: spare_def frame_bytes_def byte_range_def)
qed

text \<open>An entry that has been given the number of a slot.\<close>

lemma slot_entry:
  assumes "\<not> present m e" "entry_get ''dirty'' m e = 1" "k < 2 ^ 19"
  defines "m4 \<equiv> entry_set ''page_base_addr'' (ucast (of_nat k :: u32)) e m"
  shows "\<not> present m4 e" "entry_get ''dirty'' m4 e = 1" "unat (entry_get ''page_base_addr'' m4 e) = k"
proof -
  show "\<not> present m4 e" "entry_get ''dirty'' m4 e = 1"
    using assms(1,2) unfolding m4_def by (simp_all add: present_def entry_field_simps)
  have "unat (of_nat k :: u32) = k" using assms(3) by (simp add: unat_of_nat take_bit_nat_eq_self)
  then show "unat (entry_get ''page_base_addr'' m4 e) = k"
    unfolding m4_def using assms(3)
    by (simp add: entry_field_simps unsigned_take_bit_eq take_bit_nat_eq_self unsigned_ucast_eq)
qed

text \<open>The part of \<open>clear_up_memory\<close> after the clock, for a page \<open>a\<close> that is in memory.\<close>

lemma evict_page:
  assumes ok: "vm_ok p F ns rs" and a: "in_region a" and e: "entry_of (pmem p) (root_of p) (rpath a 3) = Some e"
    and pr: "present (pmem p) e" and h: "h \<in> insert (memory_allocations p) (lnode ` set ns)"
    and si: "swap_inv v p X" and sw: "swap p = Some sw" and room: "swap_room v p"
  defines "m1 \<equiv> entry_set ''dirty'' 1 e (entry_set ''present'' 0 e (pmem p))" and "loc \<equiv> entry_table (pmem p) e"
  defines "p1 \<equiv> (upd_mem (\<lambda>_. m1) p)\<lparr>clock_hand := h\<rparr>"
  obtains ret index sw' fs' s where "swap_out_page v sw 0 (page_bytes m1 loc) (files p) = Inr (ret, index, sw', fs')"
    "petmem_free_pages (pa loc) 1 (mach p1) = Inr s" "pa loc \<in> F"
    "vm_ok (upd_mem (entry_set ''page_base_addr'' (ucast index) e) (p1\<lparr>mach := s, files := fs', swap := Some sw'\<rparr>))
       (F - {pa loc}) ns rs"
    "evicted v p (F - {pa loc}) X
       (upd_mem (entry_set ''page_base_addr'' (ucast index) e) (p1\<lparr>mach := s, files := fs', swap := Some sw'\<rparr>))"
proof -
  note u = unmap_page [OF ok a e pr, folded m1_def loc_def]
  note si' = swap_invD(1,2) [OF si sw]
  obtain k where k: "List.find (\<lambda>k. swap_abs v sw (files p) k = None) [0 ..< unat (swap_size sw)] = Some k"
    "k < unat (swap_size sw)" "swap_abs v sw (files p) k = None" by (rule swap_room_find [OF sw room])
  obtain sw' fs' where o: "swap_out_page v sw 0 (page_bytes m1 loc) (files p) = Inr (-1, of_nat k, sw', fs')"
    "swap_ok v sw'" "swap_abs v sw' fs' = (swap_abs v sw (files p))(k \<mapsto> page_bytes m1 loc)"
    using swap_out_page_refines [OF si'(1) length_page_bytes, of 0 m1 loc "files p"] k(1) by auto
  obtain s where s: "petmem_free_pages (pa loc) 1 (mach p1) = Inr s" "same_machine (mach p) s"
    "\<And>index. vm_ok (upd_mem (entry_set ''page_base_addr'' index e) (p1\<lparr>mach := s\<rparr>)) (F - {pa loc}) ns rs"
    "\<And>index \<rho>. \<rho> \<in> region_paths \<Longrightarrow> table (entry_set ''page_base_addr'' index e (kmem s)) (root_of p) \<rho> =
       (if \<rho> = rpath a 3 then None else table (pmem p) (root_of p) \<rho>)"
    "\<And>index v b i. in_region b \<Longrightarrow> rpath b 3 \<noteq> rpath a 3 \<Longrightarrow> i < 512 \<Longrightarrow>
       word_at v (upd_mem (entry_set ''page_base_addr'' index e) (p1\<lparr>mach := s\<rparr>)) b i = word_at v p b i"
    "\<And>x. x \<in> walk_words (pmem p) (root_of p) \<Longrightarrow> x \<noteq> e \<Longrightarrow> kmem s x = pmem p x" "kmem s e = m1 e"
    by (rule evict_frame [OF ok a e pr h, folded m1_def loc_def p1_def], rule that)
  let ?ix = "ucast (of_nat k :: u32) :: u64"
  define q where "q = upd_mem (entry_set ''page_base_addr'' ?ix e) (p1\<lparr>mach := s\<rparr>)"
  define m4 where "m4 = entry_set ''page_base_addr'' ?ix e (kmem s)"
  let ?p' = "upd_mem (entry_set ''page_base_addr'' ?ix e) (p1\<lparr>mach := s, files := fs', swap := Some sw'\<rparr>)"
  have q: "?p' = q\<lparr>files := fs', swap := Some sw'\<rparr>" by (simp add: upd_mem_def q_def)
  have rq: "root_of q = root_of p" "pmem q = m4" "swap q = Some sw" "files q = files p"
    using s(2) by (simp_all add: q_def m4_def p1_def sw) (simp add: root_of_def same_machine_def)
  note s = s(1,2) s(3-5) [where index = ?ix, folded m4_def q_def] s(6,7)
  have k32: "k < 2 ^ 19" using k(2) si'(1) by (simp add: swap_ok_def)
  have ent: "entry_of (m4) (root_of p) (rpath b 3) = entry_of (pmem p) (root_of p) (rpath b 3)" if "in_region b" for b
    unfolding entry_of_leaf s(4) [OF rpath_region [OF that]] by (simp add: rpath_simps)
  have "\<not> present (kmem s) e" "entry_get ''dirty'' (kmem s) e = 1"
    using entry_cong [of "kmem s" e m1] s(7) leaf_editD(3) [OF u(1)] u(6) by simp_all
  note self = slot_entry [OF this k32, folded m4_def]
  have other: "swapped (m4) (root_of p) b j = swapped (pmem p) (root_of p) b j"
    if b: "in_region b" and ne: "rpath b 3 \<noteq> rpath a 3" for b j
  proof (cases "entry_of (pmem p) (root_of p) (rpath b 3)")
    case (Some e')
    have "e' \<noteq> e" using entry_of_inject [OF vm_okD(2) [OF ok] rpath_region rpath_region] a b e Some ne by metis
    then have "m4 e' = pmem p e'"
      using m4_def s(6) entry_of_walk [OF vm_okD(2) [OF ok] rpath_region [OF b] Some] by simp
    then show ?thesis using Some entry_cong [of "m4" e' "pmem p"] by (simp add: swapped_def ent [OF b])
  qed (simp add: swapped_def ent [OF b])
  have there: "swapped (m4) (root_of p) b j \<longleftrightarrow> j = k" if "in_region b" "rpath b 3 = rpath a 3" for b j
    using self e ent [OF a] that(2) by (auto simp: swapped_def)
  have fresh: "j \<noteq> k" if "in_region b" "b \<notin> X" "swapped (pmem p) (root_of p) b j" for b j
    using si'(2) [OF that] k(3) by auto
  have word: "word_at v ?p' b i = word_at v p b i" if b: "in_region b" "b \<notin> X" and i: "i < 512" for b i
  proof (cases "rpath b 3 = rpath a 3")
    case False
    have "word_at v ?p' b i = word_at v q b i"
      unfolding q by (rule word_at_store [OF rq(3)])
        (use o(3) fresh [OF b] other [OF b(1) False] rq in auto)
    also have "\<dots> = word_at v p b i" by (rule s(5) [OF b(1) False i])
    finally show ?thesis .
  next
    case True
    have "word_at v ?p' b i = Some (bytes_word (take 8 (drop (8 * i) (page_bytes m1 loc))))"
      unfolding q word_at_def using True e ent [OF a] self o(3) by (simp add: rq)
    also have "\<dots> = word_at v p b i"
      using True e pr page_bytes_word [OF i, of m1 loc] u(5) [OF i] by (simp add: word_at_def loc_def)
    finally show ?thesis .
  qed
  have sinv: "swap_inv v ?p' X"
    unfolding q by (rule swap_inv_store [OF si sw k(3) o(2,3), of a]) (simp_all add: rq other there)
  show thesis
  proof (rule that [OF o(1) s(1) u(2)])
    show "vm_ok ?p' (F - {pa loc}) ns rs" unfolding q vm_ok_fields by (rule s(3))
    have "spare (mach p) (F - {pa loc}) \<noteq> {}" using frame_spare [OF vm_okD(1) [OF ok] u(2)] by blast
    moreover have "spare (mach ?p') = spare (mach p)" using same_machine_areas(3) [OF s(2)] by simp
    moreover have "pmem ?p' x = pmem p x" if "x \<in> walk_words (pmem p) (root_of p)" "\<not> present (pmem p) x" for x
      using s(6) [OF that(1)] that(2) pr unfolding q by (cases "x = e") (simp_all add: rq m4_def)
    moreover have "table (pmem ?p') (root_of p) \<rho> = table (pmem p) (root_of p) \<rho>"
      if "\<rho> \<in> region_paths" "length \<rho> < 3" for \<rho> using s(4) [OF that(1)] that(2) unfolding q by (auto simp: rq)
    moreover have "same_machine (mach p) (mach ?p')" "memory_allocations ?p' = memory_allocations p"
      using s(2) by (simp_all add: same_machine_def p1_def)
    ultimately show "evicted v p (F - {pa loc}) X ?p'"
      unfolding evicted_def using sinv word by auto
  qed
qed

lemma evict_vm:
  assumes ok: "vm_ok p F ns rs" and q: "clock_quiet p" and si: "swap_inv v p X" and room: "swap_room v p"
    and sc: "second_chance (pmem p) (cr3 (mach p)) (process_order p ns) = Some pos"
  obtains f p' where "clear_up_memory v p = returns p'" "f \<in> F" "vm_ok p' (F - {f}) ns rs" "evicted v p (F - {f}) X p'"
proof -
  let ?e = "candidate (pmem p) (cr3 (mach p)) pos"
  obtain m n where c: "n \<in> set ns" "pos = lnode n"
    "page_replacement_clock (cr3 (mach p)) (clock_hand p) (pmem p (clock_hand p)) (pmem p) =
       Some (?e, entry_table (pmem p) ?e, pmem p pos, m)"
    "flag_change (pmem p) m (candidates (pmem p) (cr3 (mach p)) (process_order p ns))"
    using process_clock(2) [OF ok q sc] by blast
  have ne: "?e \<noteq> 0" using second_chance_Some [OF sc] by simp
  note rc = region_candidate [OF ok c(1), folded c(2), OF ne]
  note pp = process_order_props [OF ok q]
  let ?p0 = "upd_mem (\<lambda>_. m) p" and ?a = "reg_page_addr (pmem p) n"
  note fl = flag_change_vm [OF ok c(4) pp(2)] and ft = flag_change_table [OF c(4)] and fs = flag_change_sees [OF c(4)]
  have e0: "entry_of (pmem ?p0) (root_of ?p0) (rpath ?a 3) = Some ?e" "present (pmem ?p0) ?e"
    using rc(3,4) by (simp_all add: ft fs(1))
  have "dlist (pmem p) (memory_allocations p) (map lnode ns)" using vm_okD(9) [OF ok] by (simp add: regions_def)
  then have "links (pmem p) (memory_allocations p) (map lnode ns) (memory_allocations p)"
    by (auto simp: dlist_def intro: chain_links)
  then have h: "pmem p pos \<in> insert (memory_allocations ?p0) (lnode ` set ns)"
    using links_closed [of _ _ "map lnode ns" _ pos] c(1,2) by fastforce
  have si0: "swap_inv v ?p0 X" using fl(4) si by simp
  obtain sw where sw: "swap p = Some sw" using room by (auto simp: swap_room_def)
  have sw0: "swap ?p0 = Some sw" "swap_room v ?p0" using sw room by (simp_all add: swap_room_def)
  let ?m1 = "entry_set ''dirty'' 1 ?e (entry_set ''present'' 0 ?e m)" and ?loc = "entry_table (pmem p) ?e"
  let ?p1 = "(upd_mem (\<lambda>_. ?m1) p)\<lparr>clock_hand := pmem p pos\<rparr>"
  have p1: "\<And>m'. upd_mem (\<lambda>_. m') ?p0 = upd_mem (\<lambda>_. m') p"
    "pmem ?p0 = m" "files ?p0 = files p" "entry_table m ?e = ?loc" by (simp_all add: upd_mem_def fs(2) pmem_def)
  obtain ret index sw' fs' s where r: "swap_out_page v sw 0 (page_bytes ?m1 ?loc) (files p) = Inr (ret, index, sw', fs')"
    "petmem_free_pages (pa ?loc) 1 (mach ?p1) = Inr s" "pa ?loc \<in> F"
    "vm_ok (upd_mem (entry_set ''page_base_addr'' (ucast index) ?e) (?p1\<lparr>mach := s, files := fs', swap := Some sw'\<rparr>))
       (F - {pa ?loc}) ns rs"
    "evicted v ?p0 (F - {pa ?loc}) X
       (upd_mem (entry_set ''page_base_addr'' (ucast index) ?e) (?p1\<lparr>mach := s, files := fs', swap := Some sw'\<rparr>))"
    by (rule evict_page [OF fl(1) rc(1) e0 h si0 sw0, unfolded p1], rule that)
  let ?p' = "upd_mem (entry_set ''page_base_addr'' (ucast index) ?e) (?p1\<lparr>mach := s, files := fs', swap := Some sw'\<rparr>)"
  have "m x = pmem p x" if "\<not> present (pmem p) x" for x
  proof (rule fs(5))
    show "x \<notin> candidates (pmem p) (cr3 (mach p)) (process_order p ns)"
      using that pp(1) region_candidate(4) [OF ok] by (fastforce simp: candidates_def)
  qed
  moreover have "walk_words m (root_of p) = walk_words (pmem p) (root_of p)"
    by (simp add: walk_words_def table_pages_def ft)
  ultimately have ev: "evicted v p (F - {pa ?loc}) X ?p'"
    using r(5) fl(2) unfolding evicted_def by (simp add: ft fs(1) same_machine_def)
  have "clear_up_memory v p = returns ?p'"
    unfolding clear_up_memory_def c(3) using sw r(1,2) by (simp add: Let_def)
  then show thesis using that r(3,4) ev by blast
qed

end
