(* ===== verification/Fault.thy ===== *)
theory Fault
  imports Evict
begin

text \<open>
  The page-fault handler: for an address inside a region handed out it maps a page there, blank
  or brought back from the swap space, and changes nothing else that programs see.
\<close>

section \<open>Getting a frame\<close>

text \<open>The clock has a page to offer and the swap space a slot for it.\<close>

definition can_evict :: "'fs vfs \<Rightarrow> 'fs process \<Rightarrow> u64 list \<Rightarrow> bool" where
  "can_evict v p ns \<longleftrightarrow> clock_quiet p \<and> swap_room v p \<and>
     second_chance (pmem p) (cr3 (mach p)) (process_order p ns) \<noteq> None"

text \<open>\<open>f\<close> is a fresh frame of the state \<open>p'\<close>, which is otherwise like \<open>p\<close> for the programs.\<close>

definition framed :: "'fs vfs \<Rightarrow> 'fs process \<Rightarrow> u64 set \<Rightarrow> u64 \<Rightarrow> 'fs process \<Rightarrow> bool" where
  "framed v p X f p' \<longleftrightarrow>
     root_of p' = root_of p \<and> memory_allocations p' = memory_allocations p \<and> cr3 (mach p') = cr3 (mach p) \<and>
     va f \<notin> table_pages (pmem p') (root_of p) \<and> va f \<notin> user_pages (pmem p') (root_of p) \<and> swap_inv v p' X \<and>
     (\<forall>b i. in_region b \<and> b \<notin> X \<and> i < 512 \<longrightarrow> word_at v p' b i = word_at v p b i) \<and>
     (\<forall>\<rho> \<in> region_paths. length \<rho> < 3 \<longrightarrow> table (pmem p') (root_of p) \<rho> = table (pmem p) (root_of p) \<rho>) \<and>
     (\<forall>e \<in> walk_words (pmem p) (root_of p). \<not> present (pmem p) e \<longrightarrow> pmem p' e = pmem p e)"

lemma framedD:
  assumes "framed v p X f p'"
  shows "root_of p' = root_of p" "memory_allocations p' = memory_allocations p" "cr3 (mach p') = cr3 (mach p)"
    "va f \<notin> table_pages (pmem p') (root_of p)" "va f \<notin> user_pages (pmem p') (root_of p)" "swap_inv v p' X"
    "in_region b \<Longrightarrow> b \<notin> X \<Longrightarrow> i < 512 \<Longrightarrow> word_at v p' b i = word_at v p b i"
    "\<rho> \<in> region_paths \<Longrightarrow> length \<rho> < 3 \<Longrightarrow> table (pmem p') (root_of p) \<rho> = table (pmem p) (root_of p) \<rho>"
    "e \<in> walk_words (pmem p) (root_of p) \<Longrightarrow> \<not> present (pmem p) e \<Longrightarrow> pmem p' e = pmem p e"
  using assms unfolding framed_def by blast+

lemma same_machine_cr3: "same_machine s s' \<Longrightarrow> cr3 s' = cr3 s"
  by (simp add: same_machine_def)

lemma spare_frame:
  assumes ok: "vm_ok p F ns rs" and si: "swap_inv v p X" and sp: "spare (mach p) F \<noteq> {}"
  obtains f s where "petmem_alloc_pages 1 (mach p) = Inr (f, s)" "f \<noteq> 0" "vm_ok (p\<lparr>mach := s\<rparr>) (insert f F) ns rs"
    "framed v p X f (p\<lparr>mach := s\<rparr>)" "card (spare s (insert f F)) + 4096 = card (spare (mach p) F)"
  using ok sp
proof (rule vm_alloc, goal_cases)
  case (1 f s)
  have c: "cr3 s = cr3 (mach p)" using 1(5) by (rule same_machine_cr3)
  then have r: "root_of (p\<lparr>mach := s\<rparr>) = root_of p" by (simp add: root_of_def)
  have "walk_words (kmem s) (root_of p) = walk_words (pmem p) (root_of p)" "table_pages (kmem s) (root_of p) = table_pages (pmem p) (root_of p)"
    "user_pages (kmem s) (root_of p) = user_pages (pmem p) (root_of p)" using tables_cong [OF 1(7)] by simp_all
  then have "framed v p X f (p\<lparr>mach := s\<rparr>)"
    using 1(7-12) si c r unfolding framed_def by simp
  then show thesis using that 1(2,3,6,13) by blast
qed

lemma alloc_frame_ok:
  assumes ok: "vm_ok p F ns rs" and si: "swap_inv v p X" and res: "spare (mach p) F \<noteq> {} \<or> can_evict v p ns"
  obtains f p' F' where "alloc_frame v p = returns (f, p')" "f \<in> F'" "vm_ok p' F' ns rs" "framed v p X f p'"
    "spare (mach p) F \<noteq> {} \<Longrightarrow> card (spare (mach p') F') + 4096 = card (spare (mach p) F)"
proof (cases "spare (mach p) F = {}")
  case False
  obtain f s where "petmem_alloc_pages 1 (mach p) = Inr (f, s)" "f \<noteq> 0" "vm_ok (p\<lparr>mach := s\<rparr>) (insert f F) ns rs"
    "framed v p X f (p\<lparr>mach := s\<rparr>)" "card (spare s (insert f F)) + 4096 = card (spare (mach p) F)"
    by (rule spare_frame [OF ok si False])
  then show thesis using that [of f "p\<lparr>mach := s\<rparr>" "insert f F"] by (simp add: alloc_frame_def Let_def)
next
  case True
  then have ce: "can_evict v p ns" using res by blast
  have a0: "petmem_alloc_pages 1 (mach p) = Inr (0, mach p)"
    using vm_okD(1) [OF ok]
  proof (cases rule: frame_alloc)
    case (2 f s)
    have "va f \<in> spare (mach p) F" using 2(6) by (auto simp: byte_range_def)
    then show ?thesis using True by blast
  qed
  obtain pos where pos: "second_chance (pmem p) (cr3 (mach p)) (process_order p ns) = Some pos"
    using ce by (auto simp: can_evict_def)
  obtain g p1 where ev: "clear_up_memory v p = returns p1" "g \<in> F" "vm_ok p1 (F - {g}) ns rs" "evicted v p (F - {g}) X p1"
    by (rule evict_vm [OF ok _ si _ pos]) (use ce in \<open>auto simp: can_evict_def\<close>)
  note e = ev(4) [unfolded evicted_def]
  obtain f s where t: "petmem_alloc_pages 1 (mach p1) = Inr (f, s)" "f \<noteq> 0"
    "vm_ok (p1\<lparr>mach := s\<rparr>) (insert f (F - {g})) ns rs" "framed v p1 X f (p1\<lparr>mach := s\<rparr>)"
    by (rule spare_frame [OF ev(3)]) (use e in blast)+
  have al: "alloc_frame v p = returns (f, p1\<lparr>mach := s\<rparr>)"
    using a0 ev(1) t(1) by (simp add: alloc_frame_def Let_def)
  have r: "cr3 (mach p1) = cr3 (mach p)" "root_of p1 = root_of p"
    using e same_machine_cr3 by (auto simp: root_of_def)
  have tp: "table_pages (pmem p1) (root_of p) = table_pages (pmem p) (root_of p)"
    using e unfolding table_pages_def by (intro Collect_cong) (metis (no_types))
  have np: "e' \<in> walk_words (pmem p) (root_of p) \<Longrightarrow> \<not> present (pmem p) e' \<Longrightarrow> pmem (p1\<lparr>mach := s\<rparr>) e' = pmem p e'" for e'
  proof -
    assume w: "e' \<in> walk_words (pmem p) (root_of p)" "\<not> present (pmem p) e'"
    then have m: "pmem p1 e' = pmem p e'" using e by blast
    have "e' \<in> walk_words (pmem p1) (root_of p1)" "\<not> present (pmem p1) e'"
      using w entry_cong(2) [of "pmem p1" e' "pmem p", OF m] by (simp_all add: walk_words_def tp r(2))
    then show ?thesis using framedD(9) [OF t(4)] m by simp
  qed
  have "framed v p X f (p1\<lparr>mach := s\<rparr>)"
    unfolding framed_def using framedD(1-6) [OF t(4)] framedD(7,8) [OF t(4)] np e r by auto
  then show thesis using that al t(3) True by blast
qed

section \<open>Putting it in place\<close>

lemma fresh_walk:
  assumes ok: "vm_ok p F ns rs" and f: "f \<in> F" "va f \<notin> table_pages (pmem p) (root_of p)"
  shows "walk_words (pmem p) (root_of p) \<inter> page_at (va f) = {}"
proof -
  have "page_at t \<inter> page_at (va f) = {}" if "t \<in> table_pages (pmem p) (root_of p)" for t
  proof (rule page_ok_disjoint [OF _ frame_page_ok [OF vm_okD(1) [OF ok] f(1)]])
    show "page_ok t" using that tables_okD(1) [OF vm_okD(2) [OF ok]] by (auto simp: table_pages_def)
    show "t \<noteq> va f" using that f(2) by blast
  qed
  then show ?thesis using frame_not_list(2) [OF ok f(1)] by (auto simp: walk_words_def)
qed

text \<open>The state after a page appeared at the end of the path \<open>\<rho>\<^sub>0\<close>; \<open>c\<close> are its words when it is user memory.\<close>

definition grown :: "'fs vfs \<Rightarrow> 'fs process \<Rightarrow> u64 list \<Rightarrow> (nat \<Rightarrow> u64) \<Rightarrow> 'fs process \<Rightarrow> bool" where
  "grown v p \<rho>\<^sub>0 c p' \<longleftrightarrow>
     root_of p' = root_of p \<and> memory_allocations p' = memory_allocations p \<and> cr3 (mach p') = cr3 (mach p) \<and>
     swap_inv v p' {} \<and> table (pmem p') (root_of p) \<rho>\<^sub>0 \<noteq> None \<and>
     (\<forall>b i. in_region b \<and> i < 512 \<longrightarrow> word_at v p' b i = (if rpath b 3 = \<rho>\<^sub>0 then Some (c i) else word_at v p b i)) \<and>
     (\<forall>\<rho> \<in> region_paths. length \<rho> < 3 \<and> \<rho> \<noteq> \<rho>\<^sub>0 \<longrightarrow> table (pmem p') (root_of p) \<rho> = table (pmem p) (root_of p) \<rho>) \<and>
     (\<forall>b. in_region b \<and> rpath b 3 \<noteq> \<rho>\<^sub>0 \<and> table (pmem p) (root_of p) (rpath b 3) = None \<longrightarrow>
        table (pmem p') (root_of p) (rpath b 3) = None)"

lemma framed_absent:
  assumes ok: "vm_ok p F ns rs" and fr: "framed v p X f p'" and b: "in_region b"
    and t: "table (pmem p) (root_of p) (rpath b 3) = None"
  shows "table (pmem p') (root_of p) (rpath b 3) = None"
proof (cases "entry_of (pmem p) (root_of p) (rpath b 3)")
  case (Some e)
  have "length (rpath b 2) < 3" by (simp add: rpath_simps)
  then have en: "entry_of (pmem p') (root_of p) (rpath b 3) = entry_of (pmem p) (root_of p) (rpath b 3)"
    using framedD(8) [OF fr rpath_region [OF b]] by (simp add: entry_of_leaf)
  have np: "\<not> present (pmem p) e" using t Some by (simp add: table_entry split: if_splits)
  then have "pmem p' e = pmem p e"
    using framedD(9) [OF fr] entry_of_walk [OF vm_okD(2) [OF ok] rpath_region [OF b] Some] by blast
  then show ?thesis using np Some entry_cong(2) [of "pmem p'" e "pmem p"] by (simp add: table_entry en)
next
  case None
  have "length (rpath b 2) < 3" by (simp add: rpath_simps)
  then show ?thesis using None framedD(8) [OF fr rpath_region [OF b]] by (simp add: table_entry entry_of_leaf)
qed

lemma place_grown:
  assumes ok0: "vm_ok p F\<^sub>0 ns rs" and ok: "vm_ok p1 F ns rs" and f: "f \<in> F" and fr: "framed v p X f p1"
    and r: "\<rho>\<^sub>0 \<in> region_paths" and en: "entry_of (pmem p) (root_of p) \<rho>\<^sub>0 = Some e" and np: "\<not> present (pmem p) e"
    and X: "\<And>b. b \<in> X \<Longrightarrow> rpath b 3 = \<rho>\<^sub>0"
    and oth: "\<And>x. x \<notin> insert e (page_at (va f)) \<Longrightarrow> m' x = pmem p1 x" and pr: "present m' e" "entry_table m' e = va f"
    and c: "\<And>i. i < 512 \<Longrightarrow> m' (page_word (va f) i) = c i" and z: "\<And>i. length \<rho>\<^sub>0 < 3 \<Longrightarrow> i < 512 \<Longrightarrow> c i = 0"
  shows "vm_ok (upd_mem (\<lambda>_. m') p1) F ns rs" "grown v p \<rho>\<^sub>0 c (upd_mem (\<lambda>_. m') p1)"
proof -
  note D = framedD [OF fr]
  have ew: "e \<in> walk_words (pmem p) (root_of p)" by (rule entry_of_walk [OF vm_okD(2) [OF ok0] r en])
  have e1: "entry_of (pmem p1) (root_of p) \<rho>\<^sub>0 = Some e"
  proof (cases \<rho>\<^sub>0)
    case (Cons i \<pi>)
    then show ?thesis using en D(8) region_path_Cons [of i \<pi>] r by (simp add: entry_of_simps)
  qed (use en in \<open>simp add: entry_of_simps\<close>)
  have "\<not> present (pmem p1) e" using entry_cong(2) [of "pmem p1" e "pmem p"] D(9) [OF ew np] np by simp
  then have pl: "placed p1 f \<rho>\<^sub>0 e m'"
    unfolding placed_def using D(1,4,5) r e1 oth pr c z by auto
  show "vm_ok (upd_mem (\<lambda>_. m') p1) F ns rs" by (rule place_vm [OF ok f pl])
  have "word_at v (upd_mem (\<lambda>_. m') p1) b i = (if rpath b 3 = \<rho>\<^sub>0 then Some (c i) else word_at v p b i)"
    if b: "in_region b" "i < 512" for b i
    using place_word [OF ok f pl b] D(7) [OF b(1) _ b(2)] X [of b] c [OF b(2)] by auto
  moreover have "swap_inv v (upd_mem (\<lambda>_. m') p1) {}" by (rule place_swap_inv [OF ok f pl D(6)]) (rule X)
  moreover have "table m' (root_of p) \<rho> = (if \<rho> = \<rho>\<^sub>0 then Some (va f) else table (pmem p1) (root_of p) \<rho>)"
    if "\<rho> \<in> region_paths" for \<rho> using placed_table [OF ok f pl that] D(1) by simp
  ultimately show "grown v p \<rho>\<^sub>0 c (upd_mem (\<lambda>_. m') p1)"
    unfolding grown_def using D(1-3,8) r framed_absent [OF ok0 fr] rpath_region by simp
qed

text \<open>Changes to an entry that leave it pointing where it points.\<close>

definition opens :: "u64 \<Rightarrow> (mem \<Rightarrow> mem) \<Rightarrow> bool" where
  "opens e G \<longleftrightarrow> (\<forall>m x. x \<noteq> e \<longrightarrow> G m x = m x) \<and> (\<forall>m. present m e \<longrightarrow> present (G m) e) \<and>
     (\<forall>m. entry_table (G m) e = entry_table m e)"

lemma opens_id: "opens e (\<lambda>m. m)"
  by (simp add: opens_def)

lemma opens_user_rw: "opens e (set_user_rw e)"
  by (simp add: opens_def set_user_rw_def present_def entry_table_def entry_field_simps)

lemma handle_table_ok:
  assumes ok: "vm_ok p F ns rs" and si: "swap_inv v p {}" and r: "\<rho>\<^sub>0 \<in> region_paths"
    and en: "entry_of (pmem p) (root_of p) \<rho>\<^sub>0 = Some e" and np: "\<not> present (pmem p) e"
    and res: "spare (mach p) F \<noteq> {} \<or> can_evict v p ns" and G: "opens e G"
  obtains p1 F' where "handle_table_memory v e p = returns (0, p1)" "vm_ok (upd_mem G p1) F' ns rs"
    "grown v p \<rho>\<^sub>0 (\<lambda>_. 0) (upd_mem G p1)"
    "spare (mach p) F \<noteq> {} \<Longrightarrow> card (spare (mach (upd_mem G p1)) F') + 4096 = card (spare (mach p) F)"
proof -
  obtain f p1 F' where a: "alloc_frame v p = returns (f, p1)" "f \<in> F'" "vm_ok p1 F' ns rs" "framed v p {} f p1"
    "spare (mach p) F \<noteq> {} \<Longrightarrow> card (spare (mach p1) F') + 4096 = card (spare (mach p) F)"
    by (rule alloc_frame_ok [OF ok si res], rule that)
  define m1 where "m1 = entry_set ''page_base_addr'' (PAGE_TO_BASE_ADDR (pa (va f))) e (entry_set ''present'' 1 e (zero_page (va f) (pmem p1)))"
  let ?q = "upd_mem (\<lambda>_. m1) p1"
  have h: "handle_table_memory v e p = returns (0, ?q)"
    using a(1) by (simp add: handle_table_memory_def m1_def upd_mem_def pmem_def Let_def)
  have q: "upd_mem G ?q = upd_mem (\<lambda>_. G m1) p1" by (simp add: upd_mem_def)
  have pk: "page_ok (va f)" by (rule frame_page_ok [OF vm_okD(1) [OF a(3)] a(2)])
  have ew: "e \<in> walk_words (pmem p) (root_of p)" by (rule entry_of_walk [OF vm_okD(2) [OF ok] r en])
  have tp: "table_pages (pmem p1) (root_of p) = table_pages (pmem p) (root_of p)"
    using framedD(8) [OF a(4)] unfolding table_pages_def by (intro Collect_cong) (metis (no_types))
  have ne: "e \<notin> page_at (va f)"
    using fresh_walk [OF a(3,2)] framedD(1,4) [OF a(4)] ew by (auto simp: walk_words_def tp)
  have m1: "present m1 e" "entry_table m1 e = va f" "x \<noteq> e \<Longrightarrow> m1 x = zero_page (va f) (pmem p1) x" for x
    using entry_table_set_base [OF pk] by (simp_all add: m1_def present_def entry_field_simps)
  have oth: "G m1 x = pmem p1 x" if "x \<notin> insert e (page_at (va f))" for x
    using G m1(3) [of x] page_write_other(1) [of "va f" x] pk that by (simp add: opens_def page_ok_def)
  have z: "G m1 (page_word (va f) i) = 0" if "i < 512" for i
  proof -
    have "page_word (va f) i \<in> page_at (va f)" using pk that by (intro page_word_in) (simp_all add: page_ok_def)
    then have "page_word (va f) i \<noteq> e" using ne by blast
    then show ?thesis using G m1(3) zero_page_word [OF that] by (simp add: opens_def)
  qed
  have pr: "present (G m1) e" "entry_table (G m1) e = va f" using G m1(1,2) by (simp_all add: opens_def)
  note g = place_grown [OF ok a(3,2,4) r en np _ oth pr z, simplified]
  show thesis using that [of ?q F'] h g a(5) unfolding q by simp
qed

section \<open>The tables on the way\<close>

text \<open>
  What the handler needs: a spare page for every missing level of the walk from \<open>n\<close> on, or, when only
  the page itself is missing, a page that can be evicted in its place.
\<close>

definition absent_levels :: "'fs process \<Rightarrow> u64 \<Rightarrow> nat \<Rightarrow> nat" where
  "absent_levels p a n = length (filter (\<lambda>k. table (pmem p) (root_of p) (rpath a k) = None) [n ..< 4])"

definition room_for :: "'fs process \<Rightarrow> u64 set \<Rightarrow> u64 \<Rightarrow> nat \<Rightarrow> bool" where
  "room_for p F a n \<longleftrightarrow> 4096 * absent_levels p a n \<le> card (spare (mach p) F)"

definition can_replace :: "'fs vfs \<Rightarrow> 'fs process \<Rightarrow> u64 list \<Rightarrow> u64 \<Rightarrow> bool" where
  "can_replace v p ns a \<longleftrightarrow> table (pmem p) (root_of p) (rpath a 2) \<noteq> None \<and> clock_quiet p \<and>
     second_chance (pmem p) (cr3 (mach p)) (process_order p ns) \<noteq> None \<and>
     (swap_room v p \<or> (\<exists>k. swapped (pmem p) (root_of p) a k))"

definition supplied :: "'fs vfs \<Rightarrow> 'fs process \<Rightarrow> u64 set \<Rightarrow> u64 list \<Rightarrow> u64 \<Rightarrow> nat \<Rightarrow> bool" where
  "supplied v p F ns a n \<longleftrightarrow> room_for p F a n \<or> can_replace v p ns a"

text \<open>The steps before the last one keep everything programs see.\<close>

definition same_view :: "'fs vfs \<Rightarrow> 'fs process \<Rightarrow> 'fs process \<Rightarrow> bool" where
  "same_view v p p' \<longleftrightarrow>
     root_of p' = root_of p \<and> memory_allocations p' = memory_allocations p \<and> cr3 (mach p') = cr3 (mach p) \<and>
     swap_inv v p' {} \<and> (\<forall>b i. in_region b \<and> i < 512 \<longrightarrow> word_at v p' b i = word_at v p b i) \<and>
     (\<forall>b. in_region b \<and> table (pmem p) (root_of p) (rpath b 3) = None \<longrightarrow>
        table (pmem p') (root_of p') (rpath b 3) = None)"

lemma same_view_refl: "swap_inv v p {} \<Longrightarrow> same_view v p p"
  by (simp add: same_view_def)

lemma same_view_trans: "same_view v p q \<Longrightarrow> same_view v q s \<Longrightarrow> same_view v p s"
  unfolding same_view_def by (metis (no_types))

lemma length_rpath_le: "n \<le> 3 \<Longrightarrow> length (rpath a n) = n"
  by (simp add: rpath_def)

lemma rpath_eq: "n \<le> 3 \<Longrightarrow> k \<le> 3 \<Longrightarrow> rpath a n = rpath a k \<longleftrightarrow> n = k"
  using length_rpath_le by metis

lemma rpath_Suc: "n < 3 \<Longrightarrow> rpath a (Suc n) = [PDPE64_INDEX a, PDE64_INDEX a, PTE64_INDEX a] ! n # rpath a n"
  unfolding rpath_def by (subst take_Suc_conv_app_nth) simp_all

lemma entry_of_next:
  assumes "n < 3" "entry_of m root (rpath a n) = Some e" "present m e"
  shows "entry_of m root (rpath a (Suc n)) = Some (next_entry m e ([PDPE64_INDEX a, PDE64_INDEX a, PTE64_INDEX a] ! n))"
  using assms by (simp add: rpath_Suc entry_of_simps table_entry next_entry_table)

lemma length_filter_mono: "(\<And>x. x \<in> set xs \<Longrightarrow> P x \<Longrightarrow> Q x) \<Longrightarrow> length (filter P xs) \<le> length (filter Q xs)"
  by (induction xs) auto

lemma grown_entry:
  assumes g: "grown v p (rpath a n) c p'" and a: "in_region a" and n: "n \<le> 3"
    and e: "entry_of (pmem p) (root_of p) (rpath a n) = Some e"
  shows "entry_of (pmem p') (root_of p') (rpath a n) = Some e" "present (pmem p') e"
proof -
  have "entry_of (pmem p') (root_of p) (rpath a n) = entry_of (pmem p) (root_of p) (rpath a n)"
  proof (cases n)
    case (Suc k)
    have "table (pmem p') (root_of p) (rpath a k) = table (pmem p) (root_of p) (rpath a k)"
      using g n Suc rpath_region [OF a, of k] rpath_eq [of k n a] length_rpath_le [of k a] by (simp add: grown_def)
    then show ?thesis using Suc n by (simp add: rpath_Suc entry_of_simps)
  qed (simp add: rpath_simps entry_of_simps)
  then show en: "entry_of (pmem p') (root_of p') (rpath a n) = Some e" using e g by (simp add: grown_def)
  have "table (pmem p') (root_of p') (rpath a n) \<noteq> None" using g by (simp add: grown_def)
  then show "present (pmem p') e" using en by (auto simp: table_entry split: if_splits)
qed

lemma level_step:
  assumes ok: "vm_ok p F ns rs" and si: "swap_inv v p {}" and a: "in_region a" and n: "n < 3"
    and en: "entry_of (pmem p) (root_of p) (rpath a n) = Some e" and sup: "supplied v p F ns a n" and G: "opens e G"
  obtains p' F' where
    "(if \<not> present (pmem p) e then rbind (handle_table_memory v e p) (\<lambda>(r, p1). returns (r, upd_mem G p1))
      else returns (0, p)) = returns (0, p')"
    "vm_ok p' F' ns rs" "same_view v p p'" "supplied v p' F' ns a (Suc n)"
    "entry_of (pmem p') (root_of p') (rpath a (Suc n)) =
       Some (next_entry (pmem p') e ([PDPE64_INDEX a, PDE64_INDEX a, PTE64_INDEX a] ! n))"
    "card (spare (mach p) F) \<le> card (spare (mach p') F') + 4096"
proof (cases "present (pmem p) e")
  case True
  then have "table (pmem p) (root_of p) (rpath a n) \<noteq> None" using en by (simp add: table_entry)
  then have "supplied v p F ns a (Suc n)"
    using sup n by (auto simp: supplied_def room_for_def absent_levels_def upt_conv_Cons [of n])
  then show thesis using that [of p F] True ok same_view_refl [OF si] entry_of_next [OF n en True] by simp
next
  case False
  then have t: "table (pmem p) (root_of p) (rpath a n) = None" using en by (simp add: table_entry)
  have d: "table (pmem p) (root_of p) (rpath a k) = None" if "n \<le> k" "k \<le> 3" for k
    using that
  proof (induction k rule: dec_induct)
    case (step k)
    then show ?case by (simp add: rpath_Suc table.simps)
  qed (use t in simp)
  have rf: "room_for p F a n" using sup d [of 2] n by (auto simp: supplied_def can_replace_def)
  moreover have "absent_levels p a n = Suc (absent_levels p a (Suc n))"
    using t n by (simp add: absent_levels_def upt_conv_Cons [of n])
  ultimately have sp: "4096 * Suc (absent_levels p a (Suc n)) \<le> card (spare (mach p) F)" by (simp add: room_for_def)
  then have ne: "spare (mach p) F \<noteq> {}" by auto
  obtain p1 F' where h: "handle_table_memory v e p = returns (0, p1)" "vm_ok (upd_mem G p1) F' ns rs"
    "grown v p (rpath a n) (\<lambda>_. 0) (upd_mem G p1)"
    "card (spare (mach (upd_mem G p1)) F') + 4096 = card (spare (mach p) F)"
    by (rule handle_table_ok [OF ok si rpath_region [OF a] en False disjI1 [OF ne] G]) (use ne in blast)
  let ?p = "upd_mem G p1"
  note g = h(3) [unfolded grown_def]
  have l: "length (rpath a n) < 3" using n by (simp add: length_rpath_le)
  then have ne3: "rpath b 3 \<noteq> rpath a n" for b by (metis length_rpath less_irrefl)
  have sv: "same_view v p ?p" using g ne3 by (simp add: same_view_def)
  note ge = grown_entry [OF h(3) a less_imp_le [OF n] en]
  have "table (pmem ?p) (root_of ?p) (rpath a k) = None \<Longrightarrow> table (pmem p) (root_of p) (rpath a k) = None"
    if k: "k \<in> set [Suc n ..< 4]" for k
    using d [of k] k by simp
  then have "absent_levels ?p a (Suc n) \<le> absent_levels p a (Suc n)"
    unfolding absent_levels_def by (rule length_filter_mono)
  then have "room_for ?p F' a (Suc n)" using sp h(4) by (simp add: room_for_def)
  then show thesis
    using that [OF _ h(2) sv _ entry_of_next [OF n ge]] False h(1,4) by (simp add: supplied_def)
qed

section \<open>The page\<close>

text \<open>What the last step does: the page \<open>a\<close> is mapped, with the words it had or blank.\<close>

definition mapped :: "'fs vfs \<Rightarrow> 'fs process \<Rightarrow> u64 \<Rightarrow> 'fs process \<Rightarrow> bool" where
  "mapped v p a p' \<longleftrightarrow>
     root_of p' = root_of p \<and> memory_allocations p' = memory_allocations p \<and> cr3 (mach p') = cr3 (mach p) \<and>
     swap_inv v p' {} \<and> table (pmem p') (root_of p') (rpath a 3) \<noteq> None \<and>
     (\<forall>b i. in_region b \<and> i < 512 \<longrightarrow> word_at v p' b i =
        (if rpath b 3 = rpath a 3 then Some (case word_at v p a i of None \<Rightarrow> 0 | Some w \<Rightarrow> w) else word_at v p b i)) \<and>
     (table (pmem p) (root_of p) (rpath a 3) = None \<longrightarrow>
        (\<exists>e. entry_of (pmem p') (root_of p') (rpath a 3) = Some e \<and>
          entry_get ''writable'' (pmem p') e = 1 \<and> entry_get ''user_page'' (pmem p') e = 1))"

lemma word_at_path: "rpath b 3 = rpath a 3 \<Longrightarrow> word_at v p b i = word_at v p a i"
  by (simp add: word_at_def)

lemma grown_mapped:
  assumes g: "grown v p (rpath a 3) c p'" and a: "in_region a" and e: "entry_of (pmem p) (root_of p) (rpath a 3) = Some e"
    and c: "\<And>i. i < 512 \<Longrightarrow> c i = (case word_at v p a i of None \<Rightarrow> 0 | Some w \<Rightarrow> w)"
    and u: "entry_get ''writable'' (pmem p') e = 1" "entry_get ''user_page'' (pmem p') e = 1"
  shows "mapped v p a p'"
  using g c u grown_entry [OF g a _ e] by (simp add: mapped_def grown_def)

lemma fill_fresh_page:
  assumes ok: "vm_ok p F ns rs" and si: "swap_inv v p {}" and a: "in_region a"
    and en: "entry_of (pmem p) (root_of p) (rpath a 3) = Some e" and np: "\<not> present (pmem p) e"
    and cl: "entry_get ''dirty'' (pmem p) e = 0" and res: "spare (mach p) F \<noteq> {} \<or> can_evict v p ns"
  obtains p' F' where "fill_page v buf e (0, p) = returns (0, p')" "vm_ok p' F' ns rs" "mapped v p a p'"
    "card (spare (mach p) F) \<le> card (spare (mach p') F') + 4096"
proof -
  obtain p1 F' where h: "handle_table_memory v e p = returns (0, p1)" "vm_ok (upd_mem (set_user_rw e) p1) F' ns rs"
    "grown v p (rpath a 3) (\<lambda>_. 0) (upd_mem (set_user_rw e) p1)"
    "spare (mach p) F \<noteq> {} \<Longrightarrow> card (spare (mach (upd_mem (set_user_rw e) p1)) F') + 4096 = card (spare (mach p) F)"
    by (rule handle_table_ok [OF ok si rpath_region [OF a] en np res opens_user_rw], rule that)
  have "word_at v p a i = None" for i using en np cl by (simp add: word_at_def)
  then have "mapped v p a (upd_mem (set_user_rw e) p1)"
    by (intro grown_mapped [OF h(3) a en]) (simp_all add: set_user_rw_def entry_field_simps)
  moreover have "card (spare (mach p) F) \<le> card (spare (mach (upd_mem (set_user_rw e) p1)) F') + 4096"
    by (cases "spare (mach p) F = {}") (use h(4) in simp_all)
  ultimately show thesis using that h(1,2) np cl by (simp add: fill_page_def fill_level_def)
qed

lemma swap_in_size:
  "swap_in_page v sw ix buf fs = Inr (r, page, sw', fs') \<Longrightarrow> swap_size sw' = swap_size sw"
  by (auto simp: swap_in_page_def put_value_def Let_def ebind_def split: prod.splits if_splits sum.splits)

text \<open>The slot of the page is free again before a frame is sought; the page is in the buffer.\<close>

lemma swap_out_of_account:
  assumes ok: "vm_ok p F ns rs" and si: "swap_inv v p {}" and a: "in_region a" and k: "swapped (pmem p) (root_of p) a k"
    and buf: "length buf = 4096"
  obtains sw page sw' where "swap p = Some sw" "swap_abs v sw (files p) k = Some page"
    "swap_in_page v sw (of_nat k) buf (files p) = Inr (0, page, sw', files p)"
    "swap_inv v (p\<lparr>swap := Some sw', files := files p\<rparr>) {b. rpath b 3 = rpath a 3}"
    "swap_room v (p\<lparr>swap := Some sw', files := files p\<rparr>)"
    "\<And>b i. in_region b \<Longrightarrow> rpath b 3 \<noteq> rpath a 3 \<Longrightarrow>
       word_at v (p\<lparr>swap := Some sw', files := files p\<rparr>) b i = word_at v p b i"
proof -
  obtain sw where s: "swap p = Some sw" "swap_ok v sw"
    "\<And>b k. in_region b \<Longrightarrow> swapped (pmem p) (root_of p) b k \<Longrightarrow> swap_abs v sw (files p) k \<noteq> None"
    "\<And>b c k. in_region b \<Longrightarrow> in_region c \<Longrightarrow> swapped (pmem p) (root_of p) b k \<Longrightarrow>
       swapped (pmem p) (root_of p) c k \<Longrightarrow> rpath b 3 = rpath c 3"
    using si unfolding swap_inv_def by blast
  obtain page where pg: "swap_abs v sw (files p) k = Some page" using s(3) [OF a k] by blast
  obtain sw' where i: "swap_in_page v sw (of_nat k) buf (files p) = Inr (0, page, sw', files p)" "swap_ok v sw'"
    "swap_abs v sw' (files p) = (swap_abs v sw (files p))(k := None)"
    using swap_in_page_refines [OF s(2) pg buf] by blast
  have nk: "j \<noteq> k" if "in_region b" "rpath b 3 \<noteq> rpath a 3" "swapped (pmem p) (root_of p) b j" for b j
    using s(4) [OF that(1) a _ k] that by blast
  show thesis
  proof (rule that [OF s(1) pg i(1)])
    show "swap_inv v (p\<lparr>swap := Some sw', files := files p\<rparr>) {b. rpath b 3 = rpath a 3}"
      unfolding swap_inv_def
    proof (intro exI [of _ sw'] conjI allI impI; (elim conjE)?)
      fix b j assume "in_region b" "b \<notin> {b. rpath b 3 = rpath a 3}"
        "swapped (pmem (p\<lparr>swap := Some sw', files := files p\<rparr>)) (root_of (p\<lparr>swap := Some sw', files := files p\<rparr>)) b j"
      then show "swap_abs v sw' (files (p\<lparr>swap := Some sw', files := files p\<rparr>)) j \<noteq> None"
        using nk [of b j] s(3) [of b j] by (simp add: i(3))
    next
      fix b c j assume "in_region b" "in_region c"
        "swapped (pmem (p\<lparr>swap := Some sw', files := files p\<rparr>)) (root_of (p\<lparr>swap := Some sw', files := files p\<rparr>)) b j"
        "swapped (pmem (p\<lparr>swap := Some sw', files := files p\<rparr>)) (root_of (p\<lparr>swap := Some sw', files := files p\<rparr>)) c j"
      then show "rpath b 3 = rpath c 3" using s(4) [of b c j] by simp
    qed (use i(2) in simp_all)
    have "k < unat (swap_size sw')"
      using pg swap_in_size [OF i(1)] by (auto simp: swap_abs_def is_slot_def split: if_splits)
    then show "swap_room v (p\<lparr>swap := Some sw', files := files p\<rparr>)" by (auto simp: swap_room_def i(3))
    show "word_at v (p\<lparr>swap := Some sw', files := files p\<rparr>) b i = word_at v p b i"
      if "in_region b" "rpath b 3 \<noteq> rpath a 3" for b i
    proof -
      have "p\<lparr>swap := Some sw', files := files p\<rparr> = p\<lparr>files := files p, swap := Some sw'\<rparr>" by simp
      also have "word_at v \<dots> b i = word_at v p b i"
        by (rule word_at_store [OF s(1)]) (use nk [OF that] i(3) in auto)
      finally show ?thesis .
    qed
  qed
qed

lemma fill_swapped_page:
  assumes ok: "vm_ok p F ns rs" and si: "swap_inv v p {}" and a: "in_region a"
    and en: "entry_of (pmem p) (root_of p) (rpath a 3) = Some e" and np: "\<not> present (pmem p) e"
    and di: "entry_get ''dirty'' (pmem p) e \<noteq> 0" and buf: "length buf = 4096"
    and res: "spare (mach p) F \<noteq> {} \<or> can_replace v p ns a"
  obtains p' F' where "fill_page v buf e (0, p) = returns (0, p')" "vm_ok p' F' ns rs" "mapped v p a p'"
    "card (spare (mach p) F) \<le> card (spare (mach p') F') + 4096"
proof -
  let ?X = "{b. rpath b 3 = rpath a 3}" and ?k = "unat (entry_get ''page_base_addr'' (pmem p) e)"
  have k: "swapped (pmem p) (root_of p) a ?k" using en np di by (simp add: swapped_def)
  obtain sw page sw' where s: "swap p = Some sw" "swap_abs v sw (files p) ?k = Some page"
    "swap_in_page v sw (of_nat ?k) buf (files p) = Inr (0, page, sw', files p)"
    "swap_inv v (p\<lparr>swap := Some sw', files := files p\<rparr>) ?X"
    "swap_room v (p\<lparr>swap := Some sw', files := files p\<rparr>)"
    "\<And>b i. in_region b \<Longrightarrow> rpath b 3 \<noteq> rpath a 3 \<Longrightarrow>
       word_at v (p\<lparr>swap := Some sw', files := files p\<rparr>) b i = word_at v p b i"
    by (rule swap_out_of_account [OF ok si a k buf], rule that)
  define q where "q = p\<lparr>swap := Some sw', files := files p\<rparr>"
  note s = s(1-3) s(4-6) [folded q_def]
  have q: "pmem q = pmem p" "root_of q = root_of p" "mach q = mach p" "memory_allocations q = memory_allocations p"
    "clock_hand q = clock_hand p" by (simp_all add: q_def)
  have okq: "vm_ok q F ns rs" unfolding q_def using ok by (simp add: vm_ok_fields)
  have "can_evict v q ns" if "can_replace v p ns a"
    using that s(5) by (simp add: can_replace_def can_evict_def clock_quiet_def process_order_def q)
  then have resq: "spare (mach q) F \<noteq> {} \<or> can_evict v q ns" using res by (auto simp: q(3))
  obtain f p1 F' where al: "alloc_frame v q = returns (f, p1)" "f \<in> F'" "vm_ok p1 F' ns rs" "framed v q ?X f p1"
    "spare (mach q) F \<noteq> {} \<Longrightarrow> card (spare (mach p1) F') + 4096 = card (spare (mach q) F)"
    by (rule alloc_frame_ok [OF okq s(4) resq], rule that)
  define m' where "m' = entry_set ''page_base_addr'' (PAGE_TO_BASE_ADDR (pa (va f))) e
    (entry_set ''dirty'' 0 e (set_user_rw e (write_page (va f) page (pmem p1))))"
  have pk: "page_ok (va f)" by (rule frame_page_ok [OF vm_okD(1) [OF al(3)] al(2)])
  have enq: "entry_of (pmem q) (root_of q) (rpath a 3) = Some e" "\<not> present (pmem q) e" using en np by (simp_all add: q)
  have ew: "e \<in> walk_words (pmem q) (root_of q)" by (rule entry_of_walk [OF vm_okD(2) [OF okq] rpath_region [OF a] enq(1)])
  have "table_pages (pmem p1) (root_of q) = table_pages (pmem q) (root_of q)"
    using framedD(8) [OF al(4)] unfolding table_pages_def by (intro Collect_cong) (metis (no_types))
  then have ne: "e \<notin> page_at (va f)"
    using fresh_walk [OF al(3,2)] framedD(1,4) [OF al(4)] ew by (auto simp: walk_words_def)
  have m': "present m' e" "entry_table m' e = va f" "x \<noteq> e \<Longrightarrow> m' x = write_page (va f) page (pmem p1) x" for x
    using entry_table_set_base [OF pk] by (simp_all add: m'_def set_user_rw_def present_def entry_field_simps)
  have oth: "m' x = pmem p1 x" if "x \<notin> insert e (page_at (va f))" for x
    using m'(3) [of x] page_write_other(2) [of "va f" x] pk that by (simp add: page_ok_def)
  have c: "m' (page_word (va f) i) = bytes_word (take 8 (drop (8 * i) page))" if "i < 512" for i
  proof -
    have "page_word (va f) i \<in> page_at (va f)" using pk that by (intro page_word_in) (simp_all add: page_ok_def)
    then have "page_word (va f) i \<noteq> e" using ne by blast
    then show ?thesis using m'(3) write_page_word [OF that] by simp
  qed
  have X: "rpath b 3 = rpath a 3" if "b \<in> ?X" for b using that by simp
  note g = place_grown [OF okq al(3,2,4) rpath_region [OF a] enq X oth m'(1,2) c, simplified]
  let ?p' = "upd_mem (\<lambda>_. m') p1"
  have w: "word_at v p a i = Some (bytes_word (take 8 (drop (8 * i) page)))" for i
    using en np di s(1,2) by (simp add: word_at_def)
  have "mapped v p a ?p'"
  proof (rule grown_mapped [OF _ a en])
    show "grown v p (rpath a 3) (\<lambda>i. bytes_word (take 8 (drop (8 * i) page))) ?p'"
      using g(2) s(6) unfolding grown_def q by simp
  qed (simp_all add: w m'_def set_user_rw_def entry_field_simps)
  moreover have "fill_page v buf e (0, p) = returns (0, ?p')"
    using np di s(1,3) al(1) unfolding q_def
    by (simp add: fill_page_def swap_in_frame_def m'_def upd_mem_def pmem_def Let_def)
  moreover have "card (spare (mach p) F) \<le> card (spare (mach ?p') F') + 4096"
    by (cases "spare (mach p) F = {}") (use al(5) q(3) in simp_all)
  ultimately show thesis using that g(1) by blast
qed

lemma fill_page_ok:
  assumes ok: "vm_ok p F ns rs" and si: "swap_inv v p {}" and a: "in_region a"
    and en: "entry_of (pmem p) (root_of p) (rpath a 3) = Some e" and buf: "length buf = 4096"
    and sup: "supplied v p F ns a 3"
  obtains p' F' where "fill_page v buf e (0, p) = returns (0, p')" "vm_ok p' F' ns rs" "mapped v p a p'"
    "card (spare (mach p) F) \<le> card (spare (mach p') F') + 4096"
proof (cases "present (pmem p) e")
  case True
  then have t: "table (pmem p) (root_of p) (rpath a 3) \<noteq> None" using en by (simp add: table_entry)
  obtain w where "\<And>i. word_at v p a i = Some (w i)" using en True by (simp add: word_at_def)
  then have "word_at v p b i =
      (if rpath b 3 = rpath a 3 then Some (case word_at v p a i of None \<Rightarrow> 0 | Some w \<Rightarrow> w) else word_at v p b i)" for b i
    using word_at_path [of b a v p i] by auto
  then have "mapped v p a p" unfolding mapped_def using si t by blast
  then show thesis using that ok True by (simp add: fill_page_def)
next
  case False
  then have "table (pmem p) (root_of p) (rpath a 3) = None" using en by (simp add: table_entry)
  then have "absent_levels p a 3 = 1" by (simp add: absent_levels_def upt_conv_Cons)
  then have "spare (mach p) F \<noteq> {}" if "room_for p F a 3" using that by (auto simp: room_for_def)
  then have res: "spare (mach p) F \<noteq> {} \<or> can_replace v p ns a" using sup by (auto simp: supplied_def)
  show thesis
  proof (cases "entry_get ''dirty'' (pmem p) e = 0")
    case True
    have "\<not> swapped (pmem p) (root_of p) a k" for k using en True by (simp add: swapped_def)
    then have "spare (mach p) F \<noteq> {} \<or> can_evict v p ns" using res by (auto simp: can_replace_def can_evict_def)
    from fill_fresh_page [OF ok si a en False True this] that show thesis by blast
  next
    case dirty: False
    from fill_swapped_page [OF ok si a en False dirty buf res] that show thesis by blast
  qed
qed

section \<open>The handler\<close>

lemma upd_mem_id: "rbind r (\<lambda>(a, p). returns (a, upd_mem (\<lambda>m. m) p)) = r"
  by (cases r) (simp_all add: rbind_def upd_mem_def split: sum.split)

lemma fill_level_if:
  "fill_level v e (0, p) =
     (if \<not> present (pmem p) e then rbind (handle_table_memory v e p) (\<lambda>(r, p1). returns (r, upd_mem (set_user_rw e) p1))
      else returns (0, p))"
  by (simp add: fill_level_def)

lemma same_view_mapped:
  "same_view v p q \<Longrightarrow> in_region a \<Longrightarrow> mapped v q a p' \<Longrightarrow> mapped v p a p'"
  unfolding same_view_def mapped_def by auto

lemma pagefault_spends:
  assumes ok: "vm_ok p F ns rs" and si: "swap_inv v p {}" and r: "\<exists>r \<in> set rs. holds a r"
    and ec: "error_code \<noteq> ERROR_PERMISSION" and buf: "length buf = 4096" and sup: "supplied v p F ns a 0"
  obtains p' F' where "petmem_handle_pagefault v buf a error_code p = returns (0, p')" "vm_ok p' F' ns rs" "mapped v p a p'"
    "card (spare (mach p) F) \<le> card (spare (mach p') F') + 4 * 4096"
proof -
  have a: "in_region a" using r region_addr(3) [OF vm_okD(10) [OF ok]] by blast
  have chk: "check_address_range (memory_allocations p) a (pmem p) = Some ALLOCATED_ADDRESS_RANGE"
    using check_address_range_regions [OF vm_okD(9) [OF ok]] r by simp
  let ?e3 = "pml4_entry (cr3 (mach p)) a"
  have e3: "entry_of (pmem p) (root_of p) (rpath a 0) = Some ?e3"
    by (simp add: rpath_simps entry_of_simps region_root [OF a] root_of_def)
  obtain p1 F1 where 1: "(if \<not> present (pmem p) ?e3 then handle_table_memory v ?e3 p else returns (0, p)) = returns (0, p1)"
    "vm_ok p1 F1 ns rs" "same_view v p p1" "supplied v p1 F1 ns a 1"
    "entry_of (pmem p1) (root_of p1) (rpath a 1) = Some (next_entry (pmem p1) ?e3 (PDPE64_INDEX a))"
    "card (spare (mach p) F) \<le> card (spare (mach p1) F1) + 4096"
    using level_step [OF ok si a _ e3 sup opens_id, unfolded upd_mem_id] by auto
  let ?e2 = "next_entry (pmem p1) ?e3 (PDPE64_INDEX a)"
  have si1: "swap_inv v p1 {}" using 1(3) by (simp add: same_view_def)
  obtain p2 F2 where 2: "fill_level v ?e2 (0, p1) = returns (0, p2)"
    "vm_ok p2 F2 ns rs" "same_view v p1 p2" "supplied v p2 F2 ns a 2"
    "entry_of (pmem p2) (root_of p2) (rpath a 2) = Some (next_entry (pmem p2) ?e2 (PDE64_INDEX a))"
    "card (spare (mach p1) F1) \<le> card (spare (mach p2) F2) + 4096"
    using level_step [OF 1(2) si1 a _ 1(5,4) opens_user_rw, folded fill_level_if] by (auto simp: numeral_2_eq_2)
  let ?e1 = "next_entry (pmem p2) ?e2 (PDE64_INDEX a)"
  have si2: "swap_inv v p2 {}" using 2(3) by (simp add: same_view_def)
  obtain p3 F3 where 3: "fill_level v ?e1 (0, p2) = returns (0, p3)"
    "vm_ok p3 F3 ns rs" "same_view v p2 p3" "supplied v p3 F3 ns a 3"
    "entry_of (pmem p3) (root_of p3) (rpath a 3) = Some (next_entry (pmem p3) ?e1 (PTE64_INDEX a))"
    "card (spare (mach p2) F2) \<le> card (spare (mach p3) F3) + 4096"
    using level_step [OF 2(2) si2 a _ 2(5,4) opens_user_rw, folded fill_level_if]
    by (auto simp: numeral_2_eq_2 numeral_3_eq_3)
  have si3: "swap_inv v p3 {}" using 3(3) by (simp add: same_view_def)
  obtain p' F' where 4: "fill_page v buf (next_entry (pmem p3) ?e1 (PTE64_INDEX a)) (0, p3) = returns (0, p')"
    "vm_ok p' F' ns rs" "mapped v p3 a p'" "card (spare (mach p3) F3) \<le> card (spare (mach p') F') + 4096"
    by (rule fill_page_ok [OF 3(2) si3 a 3(5) buf 3(4)])
  have "petmem_handle_pagefault v buf a error_code p = returns (0, p')"
    using chk ec 1(1) 2(1) 3(1) 4(1)
    by (simp add: petmem_handle_pagefault_def ALLOCATED_ADDRESS_RANGE_def NOT_VALID_RANGE_def Let_def)
  moreover have "mapped v p a p'"
    using same_view_mapped [OF same_view_trans [OF same_view_trans [OF 1(3) 2(3)] 3(3)] a 4(3)] .
  moreover have "card (spare (mach p) F) \<le> card (spare (mach p') F') + 4 * 4096" using 1(6) 2(6) 3(6) 4(4) by linarith
  ultimately show thesis using that 4(2) by blast
qed

lemma pagefault_ok:
  assumes "vm_ok p F ns rs" "swap_inv v p {}" "\<exists>r \<in> set rs. holds a r"
    and "error_code \<noteq> ERROR_PERMISSION" "length buf = 4096" "supplied v p F ns a 0"
  obtains p' F' where "petmem_handle_pagefault v buf a error_code p = returns (0, p')" "vm_ok p' F' ns rs" "mapped v p a p'"
  by (rule pagefault_spends [OF assms], rule that)

end
