(* ===== verification/Paging_Example.thy ===== *)
theory Paging_Example
  imports Fault
begin

text \<open>
  A concrete process, for the witnesses of the paging theorems: one region of three pages is
  handed out at the start of the address space, its first page is in a frame, and six
  more page frames are spare.
\<close>

section \<open>The machine\<close>

definition demo_big :: machine where
  "demo_big = projr (add_memory demo_av 0x100000 7 demo_empty)"

definition demo_frame :: "u64 \<times> machine" where
  "demo_frame = projr (petmem_alloc_pages 1 demo_big)"

lemma demo_pools:
  "map (\<lambda>p. (pool_order p, base_addr p, avail p)) (petmem_pool_list demo_big) =
     [(12, va 0x106000, 0xffff880002000400), (13, va 0x104000, 0xffff880002000200), (14, va 0x100000, 0xffff880002000000)]"
  "cr3 demo_big = 0"
  by code_simp+

lemma demo_big_ok: "pools_ok (petmem_pool_list demo_big) (kmem demo_big) (map whole (petmem_pool_list demo_big))"
  by (rule demo_add_ok [of 7]) (simp_all add: demo_big_def)

lemma demo_frames: "frames_ok demo_big {}"
proof -
  have "pages_live demo_big {}" using demo_big_ok by (auto simp: pages_live_def out_blocks_def whole_def)
  then show ?thesis using demo_pools(1) by (auto simp: frames_ok_def va_def PAGE_OFFSET_def map_eq_Cons_conv)
qed

lemma demo_frame_addr: "fst demo_frame = 0x106000"
  by code_simp

lemma demo_frame_ok: "same_machine demo_big (snd demo_frame)" "frames_ok (snd demo_frame) {0x106000}"
proof -
  have "same_machine demo_big (snd demo_frame) \<and> frames_ok (snd demo_frame) {0x106000}"
    using demo_frames
  proof (cases rule: frame_alloc)
    case 1
    then show ?thesis using demo_frame_addr by (simp add: demo_frame_def)
  next
    case (2 f s)
    then have "demo_frame = (f, s)" by (simp add: demo_frame_def)
    then show ?thesis using 2(4,5) demo_frame_addr by (metis fst_conv snd_conv)
  qed
  then show "same_machine demo_big (snd demo_frame)" "frames_ok (snd demo_frame) {0x106000}" by blast+
qed

lemma demo_area:
  "pool_area (snd demo_frame) =
     byte_range 0xffff880002000400 208 \<union> byte_range (va 0x106000) 4096 \<union>
     (byte_range 0xffff880002000200 224 \<union> byte_range (va 0x104000) 8192 \<union>
      (byte_range 0xffff880002000000 240 \<union> byte_range (va 0x100000) 16384))"
  "pool_bytes (snd demo_frame) = byte_range (va 0x106000) 4096 \<union> (byte_range (va 0x104000) 8192 \<union> byte_range (va 0x100000) 16384)"
  "cr3 (snd demo_frame) = 0"
proof -
  obtain p q r where "petmem_pool_list demo_big = [p, q, r]" "pool_order p = 12" "base_addr p = va 0x106000"
    "avail p = 0xffff880002000400" "pool_order q = 13" "base_addr q = va 0x104000" "avail q = 0xffff880002000200"
    "pool_order r = 14" "base_addr r = va 0x100000" "avail r = 0xffff880002000000"
    using demo_pools(1) by (auto simp: map_eq_Cons_conv)
  then show "pool_area (snd demo_frame) =
     byte_range 0xffff880002000400 208 \<union> byte_range (va 0x106000) 4096 \<union>
     (byte_range 0xffff880002000200 224 \<union> byte_range (va 0x104000) 8192 \<union>
      (byte_range 0xffff880002000000 240 \<union> byte_range (va 0x100000) 16384))"
    "pool_bytes (snd demo_frame) = byte_range (va 0x106000) 4096 \<union> (byte_range (va 0x104000) 8192 \<union> byte_range (va 0x100000) 16384)"
    using same_machine_areas(1,2) [OF demo_frame_ok(1)] by (simp_all add: pool_area_def pool_bytes_def footprint_ranges)
  show "cr3 (snd demo_frame) = 0" using demo_frame_ok(1) demo_pools(2) by (simp add: same_machine_def)
qed

section \<open>The process\<close>

text \<open>
  List head at \<open>0x5000\<close>, regions at \<open>0x6000\<close> and \<open>0x6100\<close>; tables in physical pages 0, 2, 3 and 4. The
  entry of the page in memory has been accessed and written to.
\<close>

definition demo_tables :: mem where
  "demo_tables = (\<lambda>_. 0)(0x5000 := 0x6018, 0x5008 := 0x6118, 0x6018 := 0x6118, 0x6020 := 0x5000,
     0x6118 := 0x5000, 0x6120 := 0x6018, 0x6008 := 3, 0x6010 := 0x1000000000,
     0x6100 := 11, 0x6108 := 33554429, 0x6110 := 0x1000003000,
     va 0 := 0x2007, va 0x2200 := 0x3007, va 0x3000 := 0x4007, va 0x4000 := 0x106067)"

definition demo_process :: "(nat \<Rightarrow> u8) process" where
  "demo_process = \<lparr>mach = (snd demo_frame)\<lparr>kmem := \<lambda>x. if x < va 0x10000 then demo_tables x else kmem (snd demo_frame) x\<rparr>,
     files = \<lambda>_. 0, memory_allocations = 0x5000, clock_hand = 0x5000, swap = Some demo_swap\<rparr>"

definition demo_rs :: "region list" where
  "demo_rs = [\<lparr>rstatus = ALLOCATED, rsize = 3, raddr = 0x1000000000\<rparr>,
     \<lparr>rstatus = FREE, rsize = 33554429, raddr = 0x1000003000\<rparr>]"

lemma demo_fields:
  "memory_allocations demo_process = 0x5000" "clock_hand demo_process = 0x5000" "swap demo_process = Some demo_swap"
  "root_of demo_process = va 0" "pool_area (mach demo_process) = pool_area (snd demo_frame)"
  "spare (mach demo_process) F = spare (snd demo_frame) F" "guarded (mach demo_process) F = guarded (snd demo_frame) F"
  "cr3 (mach demo_process) = 0"
  by (simp_all add: demo_process_def root_of_def demo_area CR3_TO_PML4E64_VA_def)

lemma demo_low: "x < va 0x10000 \<Longrightarrow> pmem demo_process x = demo_tables x"
  by (simp add: demo_process_def pmem_def)

lemma demo_regions_list: "regions (pmem demo_process) 0x5000 [0x6000, 0x6100] demo_rs"
proof -
  have m: "pmem demo_process x = demo_tables x" if "x < 0x10000" for x
    using demo_low [of x] that less_trans [of x "0x10000" "va 0x10000"] by (simp add: va_def PAGE_OFFSET_def)
  have "dlist (pmem demo_process) 0x5000 [0x6018, 0x6118]" by (simp add: dlist_def m demo_tables_def va_def PAGE_OFFSET_def)
  moreover have "nodes_apart 0x5000 [0x6000, 0x6100]" by (simp add: nodes_apart_def node_words_def)
  moreover have "map (reg_at (pmem demo_process)) [0x6000, 0x6100] = demo_rs"
    by (simp add: reg_at_def reg_status_def reg_size_def reg_page_addr_def m demo_tables_def demo_rs_def va_def PAGE_OFFSET_def
      ALLOCATED_def FREE_def)
  ultimately show ?thesis by (simp add: regions_def lnode_def)
qed

lemma demo_vspace: "vspace_inv demo_rs"
  by (simp add: vspace_inv_def demo_rs_def not_both_free_def region_end_def PETMEM_REGION_START_def PETMEM_REGION_END_def
    ALLOCATED_def FREE_def)

section \<open>Its page tables\<close>

lemma demo_tables_high:
  assumes "0x10000 \<le> unat x" "unat x \<notin> {0xffff880000000000, 0xffff880000002200, 0xffff880000003000, 0xffff880000004000}"
  shows "demo_tables x = 0"
  using assms by (auto simp: demo_tables_def va_def PAGE_OFFSET_def)

lemma demo_entry:
  assumes "t \<in> {0x2000, 0x3000, 0x4000}" "unat i < 512"
  shows "pmem demo_process (va t + i * 8) =
    (if t = 0x2000 \<and> i = 64 then 0x3007 else if t = 0x3000 \<and> i = 0 then 0x4007
     else if t = 0x4000 \<and> i = 0 then 0x106067 else 0)"
proof -
  have u: "unat (va t + i * 8) = unat (va t) + 8 * unat i"
    by (rule entry_in_page(1)) (use assms in \<open>auto simp: page_ok_def va_def PAGE_OFFSET_def\<close>)
  moreover have "unat (va t) = 0xffff880000000000 + unat t" using assms(1) by (auto simp: va_def PAGE_OFFSET_def)
  ultimately have x: "unat (va t + i * 8) = 0xffff880000000000 + unat t + 8 * unat i" by simp
  have "va t + i * 8 < va 0x10000"
    unfolding word_less_nat_alt x using assms by (auto simp: va_def PAGE_OFFSET_def)
  then have "pmem demo_process (va t + i * 8) = demo_tables (va t + i * 8)" by (rule demo_low)
  also have "\<dots> = (if t = 0x2000 \<and> i = 64 then 0x3007 else if t = 0x3000 \<and> i = 0 then 0x4007
     else if t = 0x4000 \<and> i = 0 then 0x106067 else 0)"
  proof (cases "(t, i) \<in> {(0x2000, 64), (0x3000, 0), (0x4000, 0)}")
    case True
    then show ?thesis by (auto simp: demo_tables_def va_def PAGE_OFFSET_def)
  next
    case False
    have "8 * unat i = 512 \<longleftrightarrow> i = 64" "8 * unat i = 0 \<longleftrightarrow> i = 0" by (auto simp: word_unat_eq_iff)
    then have "unat (va t + i * 8) \<notin> {0xffff880000000000, 0xffff880000002200, 0xffff880000003000, 0xffff880000004000}"
      unfolding x using assms False by auto
    then have "demo_tables (va t + i * 8) = 0" unfolding x [symmetric] by (intro demo_tables_high) (simp_all add: x)
    then show ?thesis using False by auto
  qed
  finally show ?thesis .
qed

lemma demo_field:
  "m e = 0 \<Longrightarrow> \<not> present m e"
  "m e = 0x2007 \<Longrightarrow> present m e" "m e = 0x2007 \<Longrightarrow> entry_table m e = va 0x2000"
  "m e = 0x3007 \<Longrightarrow> present m e" "m e = 0x3007 \<Longrightarrow> entry_table m e = va 0x3000"
  "m e = 0x4007 \<Longrightarrow> present m e" "m e = 0x4007 \<Longrightarrow> entry_table m e = va 0x4000"
  "m e = 0x106067 \<Longrightarrow> present m e" "m e = 0x106067 \<Longrightarrow> entry_table m e = va 0x106000"
proof -
  have "map (\<lambda>w. (get_field pte64 ''present'' w, BASE_TO_PAGE_ADDR (get_field pte64 ''page_base_addr'' w)))
      [0, 0x2007, 0x3007, 0x4007, 0x106067 :: u64] = [(0, 0), (1, 0x2000), (1, 0x3000), (1, 0x4000), (1, 0x106000)]"
    by code_simp
  then show "m e = 0 \<Longrightarrow> \<not> present m e"
    "m e = 0x2007 \<Longrightarrow> present m e" "m e = 0x2007 \<Longrightarrow> entry_table m e = va 0x2000"
    "m e = 0x3007 \<Longrightarrow> present m e" "m e = 0x3007 \<Longrightarrow> entry_table m e = va 0x3000"
    "m e = 0x4007 \<Longrightarrow> present m e" "m e = 0x4007 \<Longrightarrow> entry_table m e = va 0x4000"
    "m e = 0x106067 \<Longrightarrow> present m e" "m e = 0x106067 \<Longrightarrow> entry_table m e = va 0x106000"
    by (simp_all add: present_def entry_table_def entry_get_def)
qed

lemma demo_table:
  "\<rho> \<in> region_paths \<Longrightarrow> table (pmem demo_process) (va 0) \<rho> =
     (if \<rho> = [] then Some (va 0x2000) else if \<rho> = [64] then Some (va 0x3000)
      else if \<rho> = [0, 64] then Some (va 0x4000) else if \<rho> = [0, 0, 64] then Some (va 0x106000) else None)"
proof (induction \<rho>)
  case Nil
  have "pmem demo_process (va 0) = 0x2007" using demo_low [of "va 0"] by (simp add: demo_tables_def va_def PAGE_OFFSET_def)
  then show ?case using demo_field(2,3) [of "pmem demo_process" "va 0"] by (simp add: table.simps)
next
  case (Cons i \<pi>)
  note q = region_path_Cons [OF Cons.prems]
  have e: "table (pmem demo_process) (va 0) (i # \<pi>) =
      (if t = 0x2000 \<and> i = 64 then Some (va 0x3000) else if t = 0x3000 \<and> i = 0 then Some (va 0x4000)
       else if t = 0x4000 \<and> i = 0 then Some (va 0x106000) else None)"
    if "table (pmem demo_process) (va 0) \<pi> = Some (va t)" "t \<in> {0x2000, 0x3000, 0x4000}" for t
    using demo_entry [OF that(2) q(2)] demo_field [of "pmem demo_process" "va t + i * 8"]
    by (simp only: table.simps that option.case split: if_splits) simp_all
  consider "\<pi> = []" | "\<pi> = [64]" | "\<pi> = [0, 64]" | "\<pi> \<notin> {[], [64], [0, 64]}" by blast
  then show ?case
  proof cases
    case 4
    then have "\<pi> \<noteq> [0, 0, 64]" using q(3) by auto
    then have "table (pmem demo_process) (va 0) \<pi> = None" using Cons.IH [OF q(1)] 4 by simp
    then show ?thesis using 4 by (simp add: table.simps)
  qed (use Cons.IH [OF q(1)] e [of "0x2000"] e [of "0x3000"] e [of "0x4000"] in simp_all)
qed

lemma demo_page_ok: "page_ok (va 0x2000)" "page_ok (va 0x3000)" "page_ok (va 0x4000)" "page_ok (va 0x106000)"
  by (simp_all add: page_ok_def va_def PAGE_OFFSET_def)

lemma demo_table_cases:
  assumes "\<rho> \<in> region_paths" "table (pmem demo_process) (va 0) \<rho> = Some t"
  obtains "\<rho> = []" "t = va 0x2000" | "\<rho> = [64]" "t = va 0x3000" | "\<rho> = [0, 64]" "t = va 0x4000"
    | "\<rho> = [0, 0, 64]" "t = va 0x106000"
  using assms demo_table [OF assms(1)] by (auto split: if_splits)

lemma demo_tables_ok: "tables_ok (pmem demo_process) (va 0)"
  unfolding tables_ok_def
proof (intro conjI ballI allI impI)
  fix \<pi> t assume p: "\<pi> \<in> region_paths" and t: "table (pmem demo_process) (va 0) \<pi> = Some t"
  from p t show "page_ok t" using demo_page_ok by (cases rule: demo_table_cases) simp_all
  from p t show "va 0 \<notin> page_at t"
    by (cases rule: demo_table_cases) (simp_all add: byte_range_def va_def PAGE_OFFSET_def)
  fix \<rho> assume r: "\<rho> \<in> region_paths" and u: "table (pmem demo_process) (va 0) \<rho> = Some t"
  from p t show "\<pi> = \<rho>"
  proof (cases rule: demo_table_cases)
    case 1
    from r u show ?thesis by (cases rule: demo_table_cases) (use 1 in \<open>auto simp: va_def\<close>)
  next
    case 2
    from r u show ?thesis by (cases rule: demo_table_cases) (use 2 in \<open>auto simp: va_def\<close>)
  next
    case 3
    from r u show ?thesis by (cases rule: demo_table_cases) (use 3 in \<open>auto simp: va_def\<close>)
  next
    case 4
    from r u show ?thesis by (cases rule: demo_table_cases) (use 4 in \<open>auto simp: va_def\<close>)
  qed
qed

lemma demo_pages:
  "table_pages (pmem demo_process) (va 0) \<subseteq> {va 0x2000, va 0x3000, va 0x4000}"
  "user_pages (pmem demo_process) (va 0) \<subseteq> {va 0x106000}"
proof -
  show "table_pages (pmem demo_process) (va 0) \<subseteq> {va 0x2000, va 0x3000, va 0x4000}"
    by (auto simp: table_pages_def elim: demo_table_cases)
  show "user_pages (pmem demo_process) (va 0) \<subseteq> {va 0x106000}"
  proof
    fix t assume "t \<in> user_pages (pmem demo_process) (va 0)"
    then obtain a where a: "rpath a 3 \<in> region_paths" "table (pmem demo_process) (va 0) (rpath a 3) = Some t"
      unfolding user_pages_def using rpath_region by blast
    from a show "t \<in> {va 0x106000}" by (cases rule: demo_table_cases) (simp_all add: rpath_simps)
  qed
qed

section \<open>It is in its invariant\<close>

lemma demo_below: "unat x < 0xffff880000010000 \<Longrightarrow> x \<notin> pool_area (snd demo_frame)"
  by (auto simp: demo_area byte_range_def va_def PAGE_OFFSET_def)

lemma demo_list_low: "x \<in> list_words demo_process [0x6000, 0x6100] \<Longrightarrow> unat x < 0x10000"
  by (auto simp: list_words_def region_words_def node_words_def demo_fields)

lemma demo_vm: "vm_ok demo_process {0x106000} [0x6000, 0x6100] demo_rs"
proof -
  have g: "x \<in> guarded (snd demo_frame) F" if "unat x < 0xffff880000010000" for x F
    using demo_below [OF that] by (simp add: guarded_def)
  have tp: "unat x < 0xffff880000010000 \<and> 0x10000 \<le> unat x"
    if "t \<in> table_pages (pmem demo_process) (va 0)" "x \<in> page_at t" for t x
    using subsetD [OF demo_pages(1) that(1)] that(2) by (auto simp: byte_range_def va_def PAGE_OFFSET_def)
  have "frames_ok (mach demo_process) {0x106000}"
    unfolding demo_process_def
    by (simp, rule frames_ok_write [OF demo_frame_ok(2)])
      (use g in \<open>auto simp: word_less_nat_alt va_def PAGE_OFFSET_def\<close>)
  moreover have "page_at t \<subseteq> guarded (snd demo_frame) {0x106000} \<and> page_at t \<inter> list_words demo_process [0x6000, 0x6100] = {}"
    if "t \<in> table_pages (pmem demo_process) (va 0)" for t
    using tp [OF that] g demo_list_low by (meson disjoint_iff linorder_not_le subsetI)
  moreover have "va 0 \<notin> pool_area (snd demo_frame)" by (rule demo_below) (simp add: va_def PAGE_OFFSET_def)
  moreover have "va 0 \<notin> list_words demo_process [0x6000, 0x6100]"
    using demo_list_low [of "va 0"] by (auto simp: va_def PAGE_OFFSET_def)
  moreover have "list_words demo_process [0x6000, 0x6100] \<inter> pool_area (snd demo_frame) = {}"
    using demo_list_low demo_below by fastforce
  ultimately show ?thesis
    unfolding vm_ok_def demo_fields using demo_tables_ok demo_pages(2) demo_regions_list demo_vspace by simp
qed

lemma demo_swap_inv: "swap_inv (array_vfs sz) demo_process {}"
proof -
  have "\<not> swapped (pmem demo_process) (va 0) a k" if a: "in_region a" for a k
  proof
    assume "swapped (pmem demo_process) (va 0) a k"
    then obtain e where e: "entry_of (pmem demo_process) (va 0) (rpath a 3) = Some e"
      "\<not> present (pmem demo_process) e" "entry_get ''dirty'' (pmem demo_process) e \<noteq> 0" by (auto simp: swapped_def)
    then obtain t where t: "table (pmem demo_process) (va 0) (rpath a 2) = Some t" "e = t + PTE64_INDEX a * 8"
      by (auto simp: entry_of_leaf)
    from rpath_region [OF a] t(1) have "t = va 0x4000"
      by (cases rule: demo_table_cases) (simp_all add: rpath_simps)
    then have "pmem demo_process e = 0 \<or> pmem demo_process e = 0x106067"
      using demo_entry [OF _ index_less(3) [of a], of "0x4000"] t(2) by auto
    then show False using e(2,3) zero_entry(2) demo_field(8) by blast
  qed
  then show ?thesis using demo_swap_ok [of sz] by (auto simp: swap_inv_def demo_fields)
qed

lemma demo_spare: "4 * 4096 \<le> card (spare (mach demo_process) {0x106000})"
proof -
  have "byte_range (va 0x100000) 16384 \<subseteq> spare (snd demo_frame) {0x106000}"
    by (auto simp: spare_def demo_area frame_bytes_def byte_range_def va_def PAGE_OFFSET_def)
  then have "card (byte_range (va 0x100000) 16384) \<le> card (spare (snd demo_frame) {0x106000})" by (intro card_mono) simp_all
  moreover have "card (byte_range (va 0x100000) 16384) = 16384" by (rule card_byte_range) (simp add: va_def PAGE_OFFSET_def)
  ultimately show ?thesis by (simp add: demo_fields)
qed

lemma demo_supplied: "supplied v demo_process {0x106000} ns 0x1000001000 0"
proof -
  have a: "in_region 0x1000001000" by (simp add: in_region_def PETMEM_REGION_START_def PETMEM_REGION_END_def)
  have r: "map (rpath 0x1000001000) [0 ..< 4] = [[], [64], [0, 64], [1, 0, 64]]" by code_simp
  have "[0 ..< 4] = [0, 1, 2, 3 :: nat]" by code_simp
  then have "absent_levels demo_process 0x1000001000 0 = 1"
    using r demo_table [OF rpath_region [OF a, of 0]] demo_table [OF rpath_region [OF a, of 1]]
      demo_table [OF rpath_region [OF a, of 2]] demo_table [OF rpath_region [OF a, of 3]]
    by (simp add: absent_levels_def demo_fields)
  then show ?thesis using demo_spare by (simp add: supplied_def room_for_def)
qed

lemma demo_evict: "can_evict (array_vfs sz) demo_process [0x6000, 0x6100]"
proof -
  have a: "in_region 0x1000000000" by (simp add: in_region_def PETMEM_REGION_START_def PETMEM_REGION_END_def)
  have r: "rpath 0x1000000000 2 = [0, 64]" "PTE64_INDEX 0x1000000000 = 0" by code_simp+
  have "table (pmem demo_process) (va 0) (rpath 0x1000000000 2) = Some (va 0x4000)"
    using demo_table [OF rpath_region [OF a, of 2]] r by simp
  then have e: "entry_of (pmem demo_process) (va 0) (rpath 0x1000000000 3) = Some (va 0x4000)"
    by (simp add: entry_of_leaf r)
  have "present (pmem demo_process) (va 0x4000)"
    using demo_entry [of "0x4000" 0] demo_field(8) [of "pmem demo_process" "va 0x4000"] by simp
  then have "get_valid_page_entry (pmem demo_process) 0 0x1000000000 = va 0x4000"
    using get_valid_page_entry_table [OF a, of "pmem demo_process" 0] e by (simp add: CR3_TO_PML4E64_VA_def)
  moreover have "reg_page_addr (pmem demo_process) 0x6000 = 0x1000000000"
    using demo_regions_list by (simp add: regions_def demo_rs_def reg_at_def)
  moreover have "list_entry 0x6018 = 0x6000" using list_entry_lnode [of "0x6000"] by (simp add: lnode_def)
  ultimately have "candidate (pmem demo_process) 0 0x6018 \<noteq> 0" by (simp add: candidate_def va_def PAGE_OFFSET_def)
  then have "second_chance (pmem demo_process) 0 (process_order demo_process [0x6000, 0x6100]) \<noteq> None"
    by (simp add: second_chance_None process_order_def clock_order_def demo_fields lnode_def)
  moreover have "swap_room (array_vfs sz) demo_process"
  proof -
    have "\<not> used demo_swap 2 \<and> 2 < unat (swap_size demo_swap)" by code_simp
    then show ?thesis by (auto simp: swap_room_def demo_fields swap_abs_def intro!: exI [of _ 2])
  qed
  ultimately show ?thesis by (simp add: can_evict_def clock_quiet_def demo_fields)
qed

end
