(* ===== verification/Paging_Correct.thy ===== *)
theory Paging_Correct
  imports Paging_Example
begin

text \<open>
  The theorems on demand paging, with witnesses on the example process: the walk, the clock,
  eviction and the fault handler.
\<close>

section \<open>The walk\<close>

text \<open>
  The processor's translation of an address with four levels of tables: \<open>t\<close> is the physical address
  of a table. Bit 0 of an entry says whether it is present, bits 12 to 51 are the address of the
  next table.
\<close>

fun mmu_walk :: "mem \<Rightarrow> u64 \<Rightarrow> u64 list \<Rightarrow> u64 option" where
  "mmu_walk m t [] = None"
| "mmu_walk m t (i # is) =
     (let e = va (t + 8 * i)
      in if \<not> bit (m e) 0 then None
         else if is = [] then Some e
         else mmu_walk m (m e AND 0x000ffffffffff000) is)"

definition mmu_entry :: "mem \<Rightarrow> u64 \<Rightarrow> u64 \<Rightarrow> u64 option" where
  "mmu_entry m cr a = mmu_walk m (cr AND 0x000ffffffffff000) (map (\<lambda>k. take_bit 9 (drop_bit k a)) [39, 30, 21, 12])"

lemma present_bit: "present m e \<longleftrightarrow> bit (m e) 0"
proof -
  have "get_bits 0 1 (m e) = 0 \<longleftrightarrow> \<not> bit (m e) 0"
    unfolding bit_eq_iff [of "get_bits 0 1 (m e)"] by (auto simp: bit_get_bits dest: spec [of _ 0])
  then show ?thesis by (simp add: present_def entry_get_def get_field_def pte_pos)
qed

lemma entry_table_mask: "entry_table m e = va (m e AND 0x000ffffffffff000)"
proof -
  have "(0x000ffffffffff000 :: u64) = push_bit 12 (mask 40)" by (simp add: mask_eq_exp_minus_1)
  moreover have "push_bit 12 (take_bit 40 (drop_bit 12 w)) = w AND push_bit 12 (mask 40)" for w :: u64
    by (rule bit_word_eqI) (auto simp: bit_simps)
  ultimately show ?thesis
    by (simp add: entry_table_def entry_get_def get_field_def pte_pos get_bits_def BASE_TO_PAGE_ADDR_def)
qed



text \<open>
  Above the region the two part ways: the index of the top table is multiplied by the size of an
  entry twice.
\<close>

lemma pml4_entry_scaled:
  assumes "PML4E64_INDEX a \<noteq> 0"
  shows "pml4_entry cr a \<noteq> CR3_TO_PML4E64_VA cr + 8 * PML4E64_INDEX a"
proof
  assume "pml4_entry cr a = CR3_TO_PML4E64_VA cr + 8 * PML4E64_INDEX a"
  then have "64 * PML4E64_INDEX a = 8 * PML4E64_INDEX a" by (simp add: pml4_entry_def mult.commute)
  moreover have "unat (PML4E64_INDEX a) < 512"
    unfolding PML4E64_INDEX_def and_masks using take_bit_9_less by (simp add: word_less_nat_alt)
  then have "unat (64 * PML4E64_INDEX a) = 64 * unat (PML4E64_INDEX a)" "unat (8 * PML4E64_INDEX a) = 8 * unat (PML4E64_INDEX a)"
    by (simp_all add: unat_word_ariths)
  ultimately have "64 * unat (PML4E64_INDEX a) = 8 * unat (PML4E64_INDEX a)" by metis
  then have "unat (PML4E64_INDEX a) = 0" by simp
  then show False using assms by (simp add: unat_eq_zero)
qed

section \<open>The clock\<close>



section \<open>Eviction\<close>



section \<open>The fault handler\<close>

lemma entry_of_nonnull:
  assumes "vm_ok p F ns rs" "in_region a" "entry_of (pmem p) (root_of p) (rpath a 3) = Some e"
  shows "e \<noteq> 0"
proof -
  obtain i \<pi> where r: "rpath a 3 = i # \<pi>" by (simp add: rpath_simps)
  obtain t where "page_ok t" "e \<in> page_at t"
    by (rule entry_of_Cons [OF vm_okD(2) [OF assms(1)] rpath_region [OF assms(2), of 3, unfolded r] assms(3) [unfolded r]])
  then show ?thesis by (auto simp: page_ok_def byte_range_def)
qed

lemma walk_entry:
  assumes "in_region a"
  shows "get_valid_page_entry (pmem p) (cr3 (mach p)) a =
    (case entry_of (pmem p) (root_of p) (rpath a 3) of None \<Rightarrow> 0 | Some e \<Rightarrow> if present (pmem p) e then e else 0)"
  unfolding root_of_def by (rule get_valid_page_entry_table [OF assms])

lemma walk_entry_iff:
  assumes "vm_ok p F ns rs" "in_region a"
  shows "get_valid_page_entry (pmem p) (cr3 (mach p)) a = 0 \<longleftrightarrow> table (pmem p) (root_of p) (rpath a 3) = None"
  using entry_of_nonnull [OF assms] walk_entry [OF assms(2), of p] by (auto simp: table_entry split: option.splits if_splits)

lemma mapped_entry:
  assumes "vm_ok p' F ns rs" "in_region a" "mapped v p a p'"
  shows "get_valid_page_entry (pmem p') (cr3 (mach p')) a \<noteq> 0"
  using walk_entry_iff [OF assms(1,2)] assms(3) unfolding mapped_def by blast

lemma pagefault_refused:
  assumes ok: "vm_ok p F ns rs" and bad: "(\<forall>b \<in> handed_out rs. unat a \<notin> vspan b) \<or> error_code = ERROR_PERMISSION"
  shows "petmem_handle_pagefault v buf a error_code p = returns (-1, p)"
proof -
  note r = vm_okD(9) [OF ok]
  have "check_address_range (memory_allocations p) a (pmem p) =
      Some (if \<exists>r \<in> set rs. holds a r then ALLOCATED_ADDRESS_RANGE else NOT_VALID_RANGE)"
    by (rule check_address_range_regions [OF r])
  moreover have "\<not> holds a r" if "\<forall>b \<in> handed_out rs. unat a \<notin> vspan b" "r \<in> set rs" for r
    using that holds_span [OF vm_okD(10) [OF ok] that(2)] by (fastforce simp: handed_out_def)
  ultimately show ?thesis using bad by (auto simp: petmem_handle_pagefault_def)
qed



text \<open>
  C27. A fault outside the regions handed out, and every permission fault, is refused with -1 and
  changes nothing; the check ends for every address.
\<close>

theorem petmem_handle_pagefault_rejects:
  assumes ok: "vm_ok p F ns rs" and bad: "(\<forall>b \<in> handed_out rs. unat a \<notin> vspan b) \<or> error_code = ERROR_PERMISSION"
  shows "petmem_handle_pagefault v buf a error_code p = returns (-1, p)"
  using assms by (rule pagefault_refused)

theorem petmem_handle_pagefault_rejects_witness:
  "petmem_handle_pagefault (array_vfs 0) [] 0x2000000000 1 demo_process = returns (-1, demo_process)"
proof -
  have "\<forall>b \<in> handed_out demo_rs. unat (0x2000000000 :: u64) \<notin> vspan b"
    by (auto simp: handed_out_def demo_rs_def vspan_def FREE_def ALLOCATED_def)
  then show ?thesis using petmem_handle_pagefault_rejects [OF demo_vm] by blast
qed

end
