(* ===== verification/Release.thy ===== *)
theory Release
  imports Paging_Correct
begin

text \<open>
  Releasing a page: \<open>attempt_free_physical_address\<close> takes the page out of the page table, and the
  tables above it that have no page left, but does not give anything back to the pools.
\<close>

lemma clear_entry_fields:
  "\<not> present (clear_entry e m) e" "entry_get ''dirty'' (clear_entry e m) e = entry_get ''dirty'' m e"
  "entry_get ''page_base_addr'' (clear_entry e m) e = 0"
  by (simp_all add: clear_entry_def present_def entry_field_simps)

lemma clear_entry_other [simp]: "x \<noteq> e \<Longrightarrow> clear_entry e m x = m x"
  by (simp add: clear_entry_def)

lemma frames_managed: "frames_ok s F \<Longrightarrow> \<forall>p \<in> set (petmem_pool_list s). managed p"
proof -
  assume "frames_ok s F"
  then obtain G where "pools_ok (petmem_pool_list s) (kmem s) G" by (rule frames_ghost)
  then show ?thesis using pools_ok_nth by (force simp: in_set_conv_nth)
qed

text \<open>Machines that differ in memory and flushes only.\<close>

definition same_pools :: "'fs process \<Rightarrow> 'fs process \<Rightarrow> bool" where
  "same_pools p p' \<longleftrightarrow> p' = p\<lparr>mach := (mach p)\<lparr>kmem := pmem p', flushed := flushed (mach p')\<rparr>\<rparr>"

lemma same_poolsD:
  assumes "same_pools p p'"
  shows "cr3 (mach p') = cr3 (mach p)" "petmem_pool_list (mach p') = petmem_pool_list (mach p)"
  using arg_cong [OF assms [unfolded same_pools_def], of "\<lambda>p. cr3 (mach p)"]
    arg_cong [OF assms [unfolded same_pools_def], of "\<lambda>p. petmem_pool_list (mach p)"] by simp_all

lemma same_pools_trans: "same_pools p q \<Longrightarrow> same_pools q r \<Longrightarrow> same_pools p r"
  unfolding same_pools_def by (metis (no_types, lifting) process.surjective process.update_convs(1) process.simps(1) machine.surjective machine.update_convs(1,4) machine.select_convs)

text \<open>Every entry on the way is cleared or left alone; the first one is cleared.\<close>

lemma free_levels_ok:
  assumes "\<forall>p \<in> set (petmem_pool_list (mach p)). managed p" "\<forall>(c, t) \<in> set ls. unat PAGE_OFFSET \<le> unat t"
    and "distinct (map fst ls)"
  shows "\<exists>p'. free_levels ls p = Inr p' \<and> same_pools p p' \<and>
    (\<forall>x. pmem p' x = (if ls \<noteq> [] \<and> x = fst (hd ls) then clear_entry x (pmem p) x else pmem p x) \<or>
       x \<in> fst ` set ls \<and> pmem p' x = clear_entry x (pmem p) x)"
  using assms
proof (induction ls arbitrary: p)
  case Nil
  then show ?case by (simp add: same_pools_def pmem_def)
next
  case (Cons l ls)
  obtain c t where l: "l = (c, t)" by (cases l)
  define p1 where "p1 = invlpg c (upd_mem (clear_entry c) p)"
  have p1: "same_pools p p1" "pmem p1 = clear_entry c (pmem p)" "petmem_pool_list (mach p1) = petmem_pool_list (mach p)"
    by (simp_all add: p1_def same_pools_def invlpg_def upd_mem_def pmem_def)
  show ?case
  proof (cases "is_entire_page_free (pmem p1) t = PAGE_NOT_IN_USE")
    case True
    define p2 where "p2 = invlpg t p1"
    have p2: "same_pools p1 p2" "pmem p2 = pmem p1" "petmem_pool_list (mach p2) = petmem_pool_list (mach p1)"
      by (simp_all add: p2_def same_pools_def invlpg_def pmem_def)
    have "petmem_free_pages t 1 (mach p1) = Inr (mach p1)"
      using Cons.prems(1,2) l p1(3) by (intro petmem_free_virtual_noop) auto
    then have step: "free_levels (l # ls) p = free_levels ls p2"
      using True by (simp add: l Let_def p1_def [symmetric] p2_def)
    obtain p' where p': "free_levels ls p2 = Inr p'" "same_pools p2 p'"
      "\<forall>x. pmem p' x = (if ls \<noteq> [] \<and> x = fst (hd ls) then clear_entry x (pmem p2) x else pmem p2 x) \<or>
         x \<in> fst ` set ls \<and> pmem p' x = clear_entry x (pmem p2) x"
      using Cons.IH [of p2] Cons.prems p1(3) p2(3) by auto
    have c: "c \<notin> fst ` set ls" using Cons.prems(3) l by simp
    have "clear_entry x (clear_entry c (pmem p)) x = clear_entry x (pmem p) x" if "x \<noteq> c" for x
      using that by (simp add: clear_entry_def entry_set_def)
    then have mem: "pmem p' x = (if x = c then clear_entry x (pmem p) x else pmem p x) \<or>
        x \<in> fst ` set ls \<and> pmem p' x = clear_entry x (pmem p) x" for x
      using p'(3) [rule_format, of x] c hd_in_set [of ls] unfolding p2(2) p1(2) by (cases "x = c") (force split: if_splits)+
    show ?thesis
    proof (intro exI [of _ p'] conjI allI)
      show "free_levels (l # ls) p = Inr p'" using step p'(1) by (simp only:)
      show "same_pools p p'" by (rule same_pools_trans [OF same_pools_trans [OF p1(1) p2(1)] p'(2)])
      fix x
      show "pmem p' x = (if l # ls \<noteq> [] \<and> x = fst (hd (l # ls)) then clear_entry x (pmem p) x else pmem p x) \<or>
          x \<in> fst ` set (l # ls) \<and> pmem p' x = clear_entry x (pmem p) x"
        using mem [of x] l by (cases "x = c") auto
    qed
  next
    case False
    then have "free_levels (l # ls) p = Inr p1" by (simp add: l Let_def p1_def)
    then show ?thesis using p1(1,2) l by auto
  qed
qed

text \<open>The entries the walk to a mapped page goes through.\<close>

lemma mapped_walk:
  assumes ok: "vm_ok p F ns rs" and a: "in_region a" and e: "e = get_valid_page_entry (pmem p) (cr3 (mach p)) a" "e \<noteq> 0"
  defines "e3 \<equiv> root_of p"
  defines "e2 \<equiv> next_entry (pmem p) e3 (PDPE64_INDEX a)"
  defines "e1 \<equiv> next_entry (pmem p) e2 (PDE64_INDEX a)"
  shows "e = next_entry (pmem p) e1 (PTE64_INDEX a)" "\<forall>x \<in> {e, e1, e2, e3}. present (pmem p) x"
    "distinct [e, e1, e2, e3]" "{e, e1, e2, e3} \<subseteq> walk_words (pmem p) (root_of p)"
    "\<forall>x \<in> {e, e1, e2, e3}. page_ok (entry_table (pmem p) x)"
proof -
  let ?m = "pmem p"
  have r3: "pml4_entry (cr3 (mach p)) a = e3" using region_root [OF a] by (simp add: e3_def root_of_def)
  show e0: "e = next_entry ?m e1 (PTE64_INDEX a)" and pr: "\<forall>x \<in> {e, e1, e2, e3}. present ?m x"
    using e unfolding get_valid_page_entry_def r3 Let_def e2_def [symmetric] e1_def [symmetric] by (auto split: if_splits)
  have ent: "entry_of ?m e3 [] = Some e3" "entry_of ?m e3 [PDPE64_INDEX a] = Some e2"
    "entry_of ?m e3 [PDE64_INDEX a, PDPE64_INDEX a] = Some e1"
    "entry_of ?m e3 [PTE64_INDEX a, PDE64_INDEX a, PDPE64_INDEX a] = Some e"
    using pr by (simp_all add: entry_of_simps table.simps next_entry_table e2_def [unfolded next_entry_table]
        e1_def [unfolded next_entry_table] e0 [unfolded next_entry_table])
  have reg: "[] \<in> region_paths" "[PDPE64_INDEX a] \<in> region_paths" "[PDE64_INDEX a, PDPE64_INDEX a] \<in> region_paths"
    "[PTE64_INDEX a, PDE64_INDEX a, PDPE64_INDEX a] \<in> region_paths"
    using rpath_region [OF a, of 0] rpath_region [OF a, of 1] rpath_region [OF a, of 2] rpath_region [OF a, of 3]
    by (simp_all add: rpath_simps)
  note T = vm_okD(2) [OF ok, folded e3_def]
  show "{e, e1, e2, e3} \<subseteq> walk_words ?m (root_of p)"
    using entry_of_walk [OF T] reg ent unfolding e3_def [symmetric] by blast
  show "distinct [e, e1, e2, e3]"
    using entry_of_inject [OF T] reg ent by (metis distinct_length_2_or_more distinct_singleton list.distinct(1) list.inject)
  show "\<forall>x \<in> {e, e1, e2, e3}. page_ok (entry_table ?m x)"
    using tables_okD(1) [OF T] reg ent pr by (auto simp: table_entry)
qed

text \<open>The levels that are released, with their tables.\<close>

definition walk_levels :: "mem \<Rightarrow> u64 \<Rightarrow> u64 \<Rightarrow> (u64 \<times> u64) list" where
  "walk_levels m root a =
     (let e2 = next_entry m root (PDPE64_INDEX a); e1 = next_entry m e2 (PDE64_INDEX a); e0 = next_entry m e1 (PTE64_INDEX a)
      in [(e0, entry_table m e1), (e1, entry_table m e2), (e2, entry_table m root), (root, root)])"

lemma attempt_free_levels:
  assumes ok: "vm_ok p F ns rs" and a: "in_region a" and root: "unat PAGE_OFFSET \<le> unat (root_of p)"
    and e: "e = get_valid_page_entry (pmem p) (cr3 (mach p)) a" "e \<noteq> 0"
  defines "ls \<equiv> walk_levels (pmem p) (root_of p) a"
  shows "attempt_free_physical_address a p = free_levels ls p" "\<forall>(c, t) \<in> set ls. unat PAGE_OFFSET \<le> unat t"
    "distinct (map fst ls)" "fst ` set ls \<subseteq> walk_words (pmem p) (root_of p)" "fst (hd ls) = e"
proof -
  define e3 where "e3 = root_of p"
  define e2 where "e2 = next_entry (pmem p) e3 (PDPE64_INDEX a)"
  define e1 where "e1 = next_entry (pmem p) e2 (PDE64_INDEX a)"
  note w = mapped_walk [OF ok a e, folded e3_def, folded e2_def, folded e1_def]
  have ls: "ls = [(e, entry_table (pmem p) e1), (e1, entry_table (pmem p) e2), (e2, entry_table (pmem p) e3), (e3, e3)]"
    by (simp add: ls_def walk_levels_def Let_def e3_def [symmetric] e2_def [symmetric] e1_def [symmetric] w(1) [symmetric])
  show "\<forall>(c, t) \<in> set ls. unat PAGE_OFFSET \<le> unat t" using w(5) root by (auto simp: ls page_ok_def e3_def)
  show "distinct (map fst ls)" "fst ` set ls \<subseteq> walk_words (pmem p) (root_of p)" "fst (hd ls) = e"
    using w(3,4) by (auto simp: ls e3_def)
  have r3: "pml4_entry (cr3 (mach p)) a = e3" "CR3_TO_PML4E64_VA (cr3 (mach p)) = e3"
    using region_root [OF a] by (simp_all add: e3_def root_of_def)
  have "unat (PHYSICAL_OFFSET a) < 4096"
    using take_bit_nat_less_exp [of 12 "unat a"] by (simp add: PHYSICAL_OFFSET_def and_masks unsigned_take_bit_eq)
  then have "unat (entry_table (pmem p) e + PHYSICAL_OFFSET a) = unat (entry_table (pmem p) e) + unat (PHYSICAL_OFFSET a)"
    using w(5) by (intro unat_add_small) (auto simp: page_ok_def)
  moreover have "va (BASE_TO_PAGE_ADDR (entry_get ''page_base_addr'' (pmem p) e) + PHYSICAL_OFFSET a) =
      entry_table (pmem p) e + PHYSICAL_OFFSET a" by (simp add: entry_table_def va_def)
  ultimately have "unat PAGE_OFFSET \<le> unat (va (BASE_TO_PAGE_ADDR (entry_get ''page_base_addr'' (pmem p) e) + PHYSICAL_OFFSET a))"
    using w(5) by (auto simp: page_ok_def)
  then have "petmem_free_pages (va (BASE_TO_PAGE_ADDR (entry_get ''page_base_addr'' (pmem p) e) + PHYSICAL_OFFSET a)) 1 (mach p) = Inr (mach p)"
    by (rule petmem_free_virtual_noop [OF frames_managed [OF vm_okD(1) [OF ok]]])
  then show "attempt_free_physical_address a p = free_levels ls p"
    using w(2) unfolding attempt_free_physical_address_def r3 ls
    by (simp add: Let_def e2_def [symmetric] e1_def [symmetric] w(1) [symmetric] del: free_levels.simps)
qed

text \<open>An entry that is present after the release is as it was.\<close>

lemma cleared_present:
  assumes "\<forall>x. m' x = (if C \<and> x = e then clear_entry x m x else m x) \<or> x \<in> E \<and> m' x = clear_entry x m x" "present m' x"
  shows "m' x = m x"
  using assms entry_cong(2) [of m' x "clear_entry x m"] clear_entry_fields(1) by metis

text \<open>
  C36. Releasing a page that is mapped: the page is no longer mapped, and nothing changes but the page-table
  entries on the way to it, which are cleared or left alone. The pools are as they were: the frame
  of the page, and the tables that were taken out, stay allocated for ever. When the program had written to
  the page its entry now looks like that of a page swapped out to slot 0.
\<close>

theorem attempt_free_leaks:
  assumes ok: "vm_ok p F ns rs" and a: "in_region a" and root: "unat PAGE_OFFSET \<le> unat (root_of p)"
    and e: "e = get_valid_page_entry (pmem p) (cr3 (mach p)) a" "e \<noteq> 0"
  shows "\<exists>p'. attempt_free_physical_address a p = Inr p' \<and> get_valid_page_entry (pmem p') (cr3 (mach p')) a = 0 \<and>
    petmem_pool_list (mach p') = petmem_pool_list (mach p) \<and> frames_ok (mach p') F \<and>
    (\<forall>x. x \<notin> walk_words (pmem p) (root_of p) \<longrightarrow> pmem p' x = pmem p x) \<and>
    \<not> present (pmem p') e \<and> entry_get ''page_base_addr'' (pmem p') e = 0 \<and>
    entry_get ''dirty'' (pmem p') e = entry_get ''dirty'' (pmem p) e"
proof -
  note man = frames_managed [OF vm_okD(1) [OF ok]] and l = attempt_free_levels [OF ok a root e]
  let ?ls = "walk_levels (pmem p) (root_of p) a"
  obtain p' where run: "attempt_free_physical_address a p = Inr p'" and p': "same_pools p p'"
    "\<forall>x. pmem p' x = (if ?ls \<noteq> [] \<and> x = e then clear_entry x (pmem p) x else pmem p x) \<or>
       x \<in> fst ` set ?ls \<and> pmem p' x = clear_entry x (pmem p) x"
    using free_levels_ok [OF man l(2,3)] unfolding l(1) l(5) by auto
  have cl: "pmem p' e = clear_entry e (pmem p) e" using p'(2) [rule_format, of e] by (auto simp: walk_levels_def Let_def)
  note f = entry_cong [of "pmem p'" e "clear_entry e (pmem p)", OF cl] and keep = cleared_present [OF p'(2)]
  note cr = same_poolsD [OF p'(1)]
  have n: "next_entry (pmem p') x i = next_entry (pmem p) x i" if "present (pmem p') x" for x i
    using entry_cong(3) [of "pmem p'" x "pmem p", OF keep [OF that]] by (simp add: next_entry_table)
  have r3: "pml4_entry (cr3 (mach p)) a = root_of p" using region_root [OF a] by (simp add: root_of_def)
  have "get_valid_page_entry (pmem p') (cr3 (mach p')) a = 0"
    using f(2) clear_entry_fields(1) [of e "pmem p"] mapped_walk(1) [OF ok a e]
    unfolding get_valid_page_entry_def cr(1) r3 Let_def by (auto simp: n)
  moreover have same: "pmem p' x = pmem p x" if "x \<notin> walk_words (pmem p) (root_of p)" for x
    using p'(2) [rule_format, of x] that l(4,5) by (auto simp: walk_levels_def Let_def split: if_splits)
  have "frames_ok ((mach p)\<lparr>kmem := pmem p'\<rparr>) F"
    by (rule frames_ok_write [OF vm_okD(1) [OF ok]]) (use same walk_words_guarded(1) [OF ok] in \<open>auto simp: pmem_def\<close>)
  then have "frames_ok (mach p') F" "\<not> present (pmem p') e"
    using cr(2) f(2) clear_entry_fields(1) by (simp_all add: frames_ok_def pages_live_def pmem_def)
  ultimately show ?thesis
    using run cr(2) f clear_entry_fields [of e "pmem p"] same by auto
qed

theorem attempt_free_leaks_witness:
  "\<exists>p'. attempt_free_physical_address 0x1000000000 demo_process = Inr p' \<and>
     get_valid_page_entry (pmem p') (cr3 (mach p')) 0x1000000000 = 0 \<and>
     petmem_pool_list (mach p') = petmem_pool_list (mach demo_process) \<and> frames_ok (mach p') {0x106000}"
proof -
  have a: "in_region 0x1000000000" by (simp add: in_region_def PETMEM_REGION_START_def PETMEM_REGION_END_def)
  have r: "unat PAGE_OFFSET \<le> unat (root_of demo_process)" by (simp add: demo_fields va_def)
  have n: "get_valid_page_entry (pmem demo_process) (cr3 (mach demo_process)) 0x1000000000 \<noteq> 0"
  proof -
    have "rpath 0x1000000000 3 = [0, 0, 64]" by code_simp
    then have "table (pmem demo_process) (va 0) (rpath 0x1000000000 3) \<noteq> None"
      using demo_table [OF rpath_region [OF a, of 3]] by simp
    then show ?thesis unfolding walk_entry_iff [OF demo_vm a] by (simp add: demo_fields)
  qed
  show ?thesis using attempt_free_leaks [OF demo_vm a r refl n] by blast
qed

end
