(* ===== verification/Vm_Lists.thy ===== *)
theory Vm_Lists
  imports Paging_Correct
begin

text \<open>
  Changes to the region list (allocation of address space, a new process) as the rest of the process
  sees them: the page tables and the memory of the programs stay as they are.
\<close>

lemma vm_lists:
  assumes ok: "vm_ok p F ns rs" and keep: "\<And>x. x \<notin> W \<Longrightarrow> m' x = pmem p x"
    and Wp: "W \<inter> pool_area (mach p) = {}" and Ww: "W \<inter> walk_words (pmem p) (root_of p) = {}"
    and lw: "list_words p ns' \<subseteq> list_words p ns \<union> W"
    and r: "regions m' (memory_allocations p) ns' rs'" and inv: "vspace_inv rs'"
    and h: "clock_hand p \<in> insert (memory_allocations p) (lnode ` set ns')"
  shows "vm_ok (upd_mem (\<lambda>_. m') p) F ns' rs'"
    "\<rho> \<in> region_paths \<Longrightarrow> table m' (root_of p) \<rho> = table (pmem p) (root_of p) \<rho>"
    "in_region a \<Longrightarrow> i < 512 \<Longrightarrow> word_at v (upd_mem (\<lambda>_. m') p) a i = word_at v p a i"
    "swap_inv v p X \<Longrightarrow> swap_inv v (upd_mem (\<lambda>_. m') p) X"
proof -
  note T = vm_okD(2) [OF ok]
  have kw: "m' x = pmem p x" if "x \<in> walk_words (pmem p) (root_of p)" for x using keep Ww that by blast
  have t: "table m' (root_of p) \<rho> = table (pmem p) (root_of p) \<rho>" if "\<rho> \<in> region_paths" for \<rho>
    by (rule table_frame [OF T kw that])
  then show "\<rho> \<in> region_paths \<Longrightarrow> table m' (root_of p) \<rho> = table (pmem p) (root_of p) \<rho>" for \<rho> .
  note tc = tables_cong [OF t]
  have "frames_ok ((mach p)\<lparr>kmem := m'\<rparr>) F"
    by (rule frames_ok_write [OF vm_okD(1) [OF ok]]) (use keep Wp in \<open>auto simp: guarded_def pmem_def\<close>)
  moreover have "page_at t \<inter> list_words p ns' = {}" if "t \<in> table_pages (pmem p) (root_of p)" for t
    using that lw vm_okD(5) [OF ok that] Ww by (fastforce simp: walk_words_def)
  moreover have "root_of p \<notin> list_words p ns'" using lw vm_okD(7) [OF ok] Ww by (auto simp: walk_words_def)
  moreover have "list_words p ns' \<inter> pool_area (mach p) = {}" using lw vm_okD(8) [OF ok] Wp by blast
  ultimately show "vm_ok (upd_mem (\<lambda>_. m') p) F ns' rs'"
    using vm_okD(2-4,6) [OF ok] r inv h by (simp add: vm_ok_def tc(1-3))
  have en: "entry_of m' (root_of p) (rpath b 3) = entry_of (pmem p) (root_of p) (rpath b 3)"
    "entry_of (pmem p) (root_of p) (rpath b 3) = Some e \<Longrightarrow> m' e = pmem p e" if "in_region b" for b e
    using tc(5) [OF _ that] kw entry_of_walk [OF T rpath_region [OF that]] by blast+
  have sw: "swapped m' (root_of p) b k = swapped (pmem p) (root_of p) b k" if "in_region b" for b k
  proof (cases "entry_of (pmem p) (root_of p) (rpath b 3)")
    case (Some e)
    then show ?thesis using en(1) [OF that] entry_cong [of m' e "pmem p", OF en(2) [OF that Some]] by (simp add: swapped_def)
  qed (simp add: swapped_def en(1) [OF that])
  show "swap_inv v (upd_mem (\<lambda>_. m') p) X" if "swap_inv v p X"
    using that sw unfolding swap_inv_def process_simps by metis
  assume a: "in_region a" and i: "i < 512"
  show "word_at v (upd_mem (\<lambda>_. m') p) a i = word_at v p a i"
  proof (cases "entry_of (pmem p) (root_of p) (rpath a 3)")
    case (Some e)
    note c = entry_cong [of m' e "pmem p", OF en(2) [OF a Some]]
    have "m' (page_word (entry_table (pmem p) e) i) = pmem p (page_word (entry_table (pmem p) e) i)" if pr: "present (pmem p) e"
    proof (rule keep)
      have tt: "table (pmem p) (root_of p) (rpath a 3) = Some (entry_table (pmem p) e)" using Some pr by (simp add: table_entry)
      note up = user_page [OF ok a tt]
      have "page_word (entry_table (pmem p) e) i \<in> page_at (entry_table (pmem p) e)"
        using up(1) i by (intro page_word_in) (simp_all add: page_ok_def)
      then show "page_word (entry_table (pmem p) e) i \<notin> W"
        using frame_props(4) [OF vm_okD(1) [OF ok] up(3)] pool_bytes_area [of "mach p"] Wp by auto
    qed
    then show ?thesis using Some by (cases "swap p") (simp_all add: word_at_def en(1) [OF a] c)
  qed (simp add: word_at_def en(1) [OF a])
qed

section \<open>Allocating address space\<close>

text \<open>The node \<open>kmalloc\<close> hands out is memory nobody else uses.\<close>

definition fresh_node :: "'fs process \<Rightarrow> u64 list \<Rightarrow> u64 \<Rightarrow> bool" where
  "fresh_node p ns new \<longleftrightarrow> nodes_apart (memory_allocations p) (new # ns) \<and>
     node_words new \<inter> pool_area (mach p) = {} \<and> node_words new \<inter> walk_words (pmem p) (root_of p) = {}"

lemma alloc_vspace_vm:
  assumes ok: "vm_ok p F ns rs" and fr: "fresh_node p ns new" and n: "0 < n"
  obtains a p' ns' rs' where "petmem_alloc_vspace new n p = returns (a, p')" "vm_ok p' F ns' rs'"
    "\<And>v b i. in_region b \<Longrightarrow> i < 512 \<Longrightarrow> word_at v p' b i = word_at v p b i"
    "\<And>v X. swap_inv v p X \<Longrightarrow> swap_inv v p' X"
    "if \<exists>r \<in> set rs. fits n r
     then handed_out rs' = insert (a, n) (handed_out rs) \<and> (a, n) \<notin> handed_out rs \<and> vspan (a, n) \<subseteq> free_area rs
     else a = -1 \<and> p' = p \<and> rs' = rs"
proof (cases "spec_allocate n rs")
  case None
  then have "\<not> (\<exists>r \<in> set rs. fits n r)" by (simp add: spec_allocate_None)
  moreover have "allocate new (memory_allocations p) n (pmem p) = Some (-1, pmem p)"
    using allocate_refines [OF vm_okD(9) [OF ok], of new n] fr None by (simp add: fresh_node_def)
  moreover have "upd_mem (\<lambda>_. pmem p) p = p" by (simp add: upd_mem_def pmem_def)
  ultimately show thesis using that [of "-1" p ns rs] ok by (simp add: petmem_alloc_vspace_def)
next
  case (Some r)
  then obtain a rs' where p: "spec_allocate n rs = Some (a, rs')" by (cases r) auto
  then obtain m' ns' where m': "allocate new (memory_allocations p) n (pmem p) = Some (a, m')"
    "regions m' (memory_allocations p) ns' rs'" "set ns \<subseteq> set ns'" "set ns' \<subseteq> insert new (set ns)"
    "\<And>x. x \<notin> region_words (memory_allocations p) (new # ns) \<Longrightarrow> m' x = pmem p x"
    using allocate_refines [OF vm_okD(9) [OF ok], of new n] fr by (auto simp: fresh_node_def)
  let ?W = "region_words (memory_allocations p) (new # ns)"
  have W: "?W \<subseteq> node_words new \<union> list_words p ns" by (auto simp: region_words_def list_words_def)
  have "list_words p ns \<inter> walk_words (pmem p) (root_of p) = {}" using walk_words_guarded(2) [OF ok] by blast
  then have W': "?W \<inter> pool_area (mach p) = {}" "?W \<inter> walk_words (pmem p) (root_of p) = {}"
    using W fr vm_okD(8) [OF ok] unfolding fresh_node_def by blast+
  have lw: "list_words p ns' \<subseteq> list_words p ns \<union> ?W"
    using m'(4) by (fastforce simp: list_words_def region_words_def)
  have "0 < unat n" using n by (simp add: word_less_nat_alt)
  note inv = spec_allocate_inv [OF vm_okD(10) [OF ok] this p]
  have "clock_hand p \<in> insert (memory_allocations p) (lnode ` set ns')" using vm_okD(11) [OF ok] m'(3) by blast
  note v = vm_lists [OF ok m'(5) W' lw m'(2) inv(1) this]
  have "\<exists>r \<in> set rs. fits n r" using p spec_allocate_None [of n rs] by auto
  then show thesis
    using that [OF _ v(1) v(3,4)] m'(1) inv(2-4) by (simp add: petmem_alloc_vspace_def)
qed

end
