(* ===== verification/Ioctl.thy ===== *)
theory Ioctl
  imports Vm_Lists
begin

text \<open>
  The device of \<open>main.c\<close>: the \<open>ioctl\<close> dispatcher, opening and closing the device, and loading and
  unloading the module. Access to user memory and the kernel's device registration are parameters.
\<close>

section \<open>Requests\<close>

definition ADD_MEMORY :: u32 where "ADD_MEMORY = 1"
definition RELEASE_MEMORY :: u32 where "RELEASE_MEMORY = 2"
definition LAZY_ALLOC :: u32 where "LAZY_ALLOC = 30"
definition LAZY_FREE :: u32 where "LAZY_FREE = 31"
definition LAZY_DUMP_STATE :: u32 where "LAZY_DUMP_STATE = 32"
definition PAGE_FAULT :: u32 where "PAGE_FAULT = 50"
definition INVALIDATE_PAGE :: u32 where "INVALIDATE_PAGE = 51"

lemmas ioctl_numbers = ADD_MEMORY_def RELEASE_MEMORY_def LAZY_ALLOC_def LAZY_FREE_def LAZY_DUMP_STATE_def
  PAGE_FAULT_def INVALIDATE_PAGE_def

definition EFAULT :: int where "EFAULT = 14"

text \<open>The packed structures, as the bytes user space passes.\<close>

record memory_range =
  mr_base_addr :: u64
  mr_pages :: u64

record alloc_request =
  ar_size :: u64
  ar_addr :: u64

record page_fault =
  pf_fault_addr :: u64
  pf_error_code :: u32

definition memory_range_of :: "u8 list \<Rightarrow> memory_range" where
  "memory_range_of bs = \<lparr>mr_base_addr = bytes_word (take 8 bs), mr_pages = bytes_word (take 8 (drop 8 bs))\<rparr>"

definition alloc_request_of :: "u8 list \<Rightarrow> alloc_request" where
  "alloc_request_of bs = \<lparr>ar_size = bytes_word (take 8 bs), ar_addr = bytes_word (take 8 (drop 8 bs))\<rparr>"

definition alloc_request_bytes :: "alloc_request \<Rightarrow> u8 list" where
  "alloc_request_bytes req = word_bytes (ar_size req) @ word_bytes (ar_addr req)"

definition page_fault_of :: "u8 list \<Rightarrow> page_fault" where
  "page_fault_of bs = \<lparr>pf_fault_addr = bytes_word (take 8 bs), pf_error_code = ucast (bytes_word (take 4 (drop 8 bs)))\<rparr>"

text \<open>
  \<open>copy_from_user\<close> delivers the bytes, or nothing when some could not be read; \<open>copy_to_user\<close> says
  whether all could be written.
\<close>

record 'u uaccess =
  copy_from_user :: "u64 \<Rightarrow> nat \<Rightarrow> 'u \<Rightarrow> u8 list option"
  copy_to_user :: "u64 \<Rightarrow> u8 list \<Rightarrow> 'u \<Rightarrow> bool \<times> 'u"

text \<open>What \<open>kmalloc\<close> delivers during a call: the list heads of new pools, a list node, a page.\<close>

record kalloc =
  pool_heads :: "nat \<Rightarrow> u64"
  region_node :: u64
  page_buffer :: "u8 list"

section \<open>The dispatcher\<close>

text \<open>The size of a request in whole pages.\<close>

definition pages_of :: "u64 \<Rightarrow> u64" where
  "pages_of sz = drop_bit 12 ((sz + (4096 - 1)) AND NOT (4096 - 1))"

definition petmem_ioctl ::
    "'fs vfs \<Rightarrow> ('u, 'z) uaccess_scheme \<Rightarrow> kalloc \<Rightarrow> u32 \<Rightarrow> u64 \<Rightarrow> 'fs process \<Rightarrow> 'u \<Rightarrow> (int \<times> 'fs process \<times> 'u) run" where
  "petmem_ioctl v ua k ioctl arg p u =
     (if ioctl = ADD_MEMORY then
        case copy_from_user ua arg 16 u of
          None \<Rightarrow> returns (- EFAULT, p, u)
        | Some bs \<Rightarrow>
            let reg = memory_range_of bs
            in rbind (Some (add_memory (pool_heads k) (mr_base_addr reg) (mr_pages reg) (mach p))) (\<lambda>s.
                 returns (0, p\<lparr>mach := s\<rparr>, u))
      else if ioctl = LAZY_ALLOC then
        case copy_from_user ua arg 16 u of
          None \<Rightarrow> returns (- EFAULT, p, u)
        | Some bs \<Rightarrow>
            let req = alloc_request_of bs
            in rbind (petmem_alloc_vspace (region_node k) (pages_of (ar_size req)) p) (\<lambda>(addr, p1).
                 if addr = 0 then returns (0, p1, u)
                 else let (ok, u1) = copy_to_user ua arg (alloc_request_bytes (req\<lparr>ar_addr := addr\<rparr>)) u
                      in returns (if ok then 0 else - EFAULT, p1, u1))
      else if ioctl = LAZY_FREE then rbind (petmem_free_vspace arg p) (\<lambda>p1. returns (0, p1, u))
      else if ioctl = LAZY_DUMP_STATE then returns (0, petmem_dump_vspace p, u)
      else if ioctl = PAGE_FAULT then
        case copy_from_user ua arg 12 u of
          None \<Rightarrow> returns (- EFAULT, p, u)
        | Some bs \<Rightarrow>
            let fault = page_fault_of bs
            in rbind (petmem_handle_pagefault v (page_buffer k) (pf_fault_addr fault) (pf_error_code fault) p) (\<lambda>(r, p1).
                 returns (if r \<noteq> 0 then 1 else 0, p1, u))
      else if ioctl = INVALIDATE_PAGE then returns (0, invlpg (PAGE_ADDR arg) p, u)
      else returns (0, p, u))"

text \<open>Opening the device makes a process, closing it takes it down.\<close>

definition petmem_open ::
    "'fs vfs \<Rightarrow> (nat \<Rightarrow> u8 list) \<Rightarrow> u64 \<Rightarrow> u64 \<Rightarrow> machine \<Rightarrow> 'fs \<Rightarrow> int \<times> 'fs process" where
  "petmem_open v junk first_node new_proc s fs = (0, petmem_init_process v junk first_node new_proc s fs)"

definition petmem_release :: "'fs vfs \<Rightarrow> 'fs process \<Rightarrow> (int \<times> 'fs process) run" where
  "petmem_release v p = rbind (petmem_deinit_process v p) (\<lambda>p1. returns (0, p1))"

section \<open>The module\<close>

text \<open>
  Loading and unloading, as the sequence of registrations and their withdrawal. \<open>class_err\<close> is the
  error \<open>class_create\<close> returns, if any, \<open>region_ret\<close> the result of \<open>alloc_chrdev_region\<close>; the
  results of \<open>cdev_add\<close> and \<open>device_create\<close> are not looked at.
\<close>

datatype resource = Class | Chrdev_region | Cdev | Device

datatype dev_call = Register resource | Withdraw resource

definition petmem_init :: "int option \<Rightarrow> int \<Rightarrow> int \<times> dev_call list" where
  "petmem_init class_err region_ret =
     (case class_err of
        Some e \<Rightarrow> (e, [])
      | None \<Rightarrow>
          if region_ret < 0 then (region_ret, [Register Class, Withdraw Class])
          else (0, [Register Class, Register Chrdev_region, Register Cdev, Register Device]))"

definition petmem_exit :: "dev_call list" where
  "petmem_exit = [Withdraw Chrdev_region, Withdraw Cdev, Withdraw Device, Withdraw Class]"

fun registered :: "dev_call list \<Rightarrow> resource set \<Rightarrow> resource set" where
  "registered [] R = R"
| "registered (Register r # cs) R = registered cs (insert r R)"
| "registered (Withdraw r # cs) R = registered cs (R - {r})"

section \<open>Properties\<close>

lemma pages_of_round:
  "if unat sz + 4095 < 2 ^ 64
   then unat sz \<le> 4096 * unat (pages_of sz) \<and> 4096 * unat (pages_of sz) < unat sz + 4096
   else pages_of sz = 0"
proof -
  have d: "drop_bit 12 (x AND NOT (mask 12)) = drop_bit 12 x" for x :: u64
    by (rule bit_word_eqI) (auto simp: bit_simps dest: bit_imp_le_length)
  have e: "(4096 - 1 :: u64) = mask 12" by (simp add: mask_eq_exp_minus_1)
  have "pages_of sz = drop_bit 12 (sz + (4096 - 1))" unfolding pages_of_def e d ..
  then have u: "unat (pages_of sz) = unat (sz + 4095) div 4096" by (simp add: unat_drop_bit)
  have l: "unat sz < 2 ^ 64" using unat_less_pow2 [of sz] by simp
  show ?thesis
  proof (cases "unat sz + 4095 < 2 ^ 64")
    case True
    then have "unat (sz + 4095) = unat sz + 4095" by (subst unat_add_small) simp_all
    then show ?thesis using True u by auto
  next
    case False
    then have "unat (sz + 4095) = unat sz + 4095 - 2 ^ 64"
      using l by (simp add: unat_word_ariths mod_if)
    then have "unat (pages_of sz) = 0" using u l by simp
    then show ?thesis using False by (simp add: unat_eq_zero)
  qed
qed

text \<open>
  C38. A request of \<open>sz\<close> bytes is rounded up to the least number of pages that holds it; from
  4095 below \<open>2 ^ 64\<close> on the addition wraps around and the request becomes one for no pages.
\<close>

theorem pages_of_bounds:
  "if unat sz + 4095 < 2 ^ 64
   then unat sz \<le> 4096 * unat (pages_of sz) \<and> 4096 * unat (pages_of sz) < unat sz + 4096
   else pages_of sz = 0"
  by (rule pages_of_round)

text \<open>
  Loading the module leaves nothing registered when it fails, and unloading it after it was loaded
  withdraws everything that was registered.
\<close>

theorem petmem_module_balanced:
  "let (ret, calls) = petmem_init class_err region_ret
   in if ret = 0 \<and> class_err = None then registered (calls @ petmem_exit) {} = {} else registered calls {} = {}"
  by (cases class_err) (auto simp: petmem_init_def petmem_exit_def)

lemma no_tables: "\<not> present m root \<Longrightarrow> table m root \<pi> = None"
  by (induction \<pi>) (simp_all add: table.simps)



text \<open>
  C19. \<open>LAZY_ALLOC\<close> of a positive size, when a free region is large enough: the call returns 0 and
  stores in the request the address of a range of the rounded size that was free in all its bytes
  and is handed out from now on; no word of memory changes for the programs, and all invariants are
  kept. When no free region is large enough nothing changes and the call returns 0 as well, with
  the address -1 in the request.
\<close>

theorem petmem_ioctl_lazy_alloc:
  assumes ok: "vm_ok p F ns rs" and si: "swap_inv v p {}" and fr: "fresh_node p ns (region_node k)"
    and cf: "copy_from_user ua arg 16 u = Some bs" and ct: "\<And>bs. fst (copy_to_user ua arg bs u)"
    and n: "n = pages_of (ar_size (alloc_request_of bs))" "0 < n"
  shows "\<exists>a p' ns' rs'. petmem_ioctl v ua k LAZY_ALLOC arg p u =
      returns (0, p', snd (copy_to_user ua arg (alloc_request_bytes ((alloc_request_of bs)\<lparr>ar_addr := a\<rparr>)) u)) \<and>
    vm_ok p' F ns' rs' \<and> swap_inv v p' {} \<and>
    (\<forall>b i. in_region b \<and> i < 512 \<longrightarrow> word_at v p' b i = word_at v p b i) \<and>
    (if \<exists>r \<in> set rs. fits n r
     then handed_out rs' = insert (a, n) (handed_out rs) \<and> (a, n) \<notin> handed_out rs \<and> vspan (a, n) \<subseteq> free_area rs
     else a = -1 \<and> p' = p \<and> rs' = rs)"
proof -
  obtain a p' ns' rs' where a: "petmem_alloc_vspace (region_node k) n p = returns (a, p')" "vm_ok p' F ns' rs'"
    "\<And>v b i. in_region b \<Longrightarrow> i < 512 \<Longrightarrow> word_at v p' b i = word_at v p b i"
    "\<And>v X. swap_inv v p X \<Longrightarrow> swap_inv v p' X"
    "if \<exists>r \<in> set rs. fits n r
     then handed_out rs' = insert (a, n) (handed_out rs) \<and> (a, n) \<notin> handed_out rs \<and> vspan (a, n) \<subseteq> free_area rs
     else a = -1 \<and> p' = p \<and> rs' = rs"
    by (rule alloc_vspace_vm [OF ok fr n(2)], rule that)
  have "a \<noteq> 0"
  proof (cases "\<exists>r \<in> set rs. fits n r")
    case True
    then have "(a, n) \<in> handed_out rs'" using a(5) by auto
    then obtain r where "r \<in> set rs'" "raddr r = a" by (auto simp: handed_out_def)
    then have "in_region a" using region_addr(1) [OF vm_okD(10) [OF a(2)]] by blast
    then show ?thesis by (auto simp: in_region_def PETMEM_REGION_START_def)
  qed (use a(5) in simp)
  then have "petmem_ioctl v ua k LAZY_ALLOC arg p u =
      returns (0, p', snd (copy_to_user ua arg (alloc_request_bytes ((alloc_request_of bs)\<lparr>ar_addr := a\<rparr>)) u))"
    using cf a(1) ct n(1) by (simp add: petmem_ioctl_def ioctl_numbers Let_def split_beta)
  then show ?thesis using a(2-5) si by blast
qed

text \<open>A user memory that can be read and written throughout, for the witnesses.\<close>

definition plain_user :: "(u64 \<Rightarrow> u8) uaccess" where
  "plain_user = \<lparr>copy_from_user = \<lambda>a n u. Some (map (\<lambda>i. u (a + of_nat i)) [0 ..< n]),
     copy_to_user = \<lambda>a bs u. (True, \<lambda>x. if unat (x - a) < length bs then bs ! unat (x - a) else u x)\<rparr>"

definition demo_kalloc :: kalloc where
  "demo_kalloc = \<lparr>pool_heads = demo_av, region_node = 0x6200, page_buffer = replicate 4096 0\<rparr>"

lemma demo_fresh: "fresh_node demo_process [0x6000, 0x6100] (region_node demo_kalloc)"
proof -
  have w: "unat x < 0x10000" if "x \<in> node_words 0x6200" for x using that by (auto simp: node_words_def)
  have "nodes_apart 0x5000 [0x6200, 0x6000, 0x6100]" by (simp add: nodes_apart_def node_words_def)
  moreover have "node_words 0x6200 \<inter> pool_area (snd demo_frame) = {}" using w demo_below by fastforce
  moreover have "0x10000 \<le> unat x" if x: "x \<in> walk_words (pmem demo_process) (va 0)" for x
  proof -
    consider "x = va 0" | t where "t \<in> table_pages (pmem demo_process) (va 0)" "x \<in> page_at t"
      using x by (auto simp: walk_words_def)
    then show ?thesis
      using demo_pages(1) by cases (auto simp: byte_range_def va_def PAGE_OFFSET_def)
  qed
  then have "node_words 0x6200 \<inter> walk_words (pmem demo_process) (va 0) = {}" using w by fastforce
  ultimately show ?thesis by (simp add: fresh_node_def demo_fields demo_kalloc_def)
qed

theorem petmem_ioctl_lazy_alloc_witness:
  "\<exists>a p' u'. petmem_ioctl (array_vfs 0) plain_user demo_kalloc LAZY_ALLOC 0x100 demo_process (\<lambda>_. 1) = returns (0, p', u') \<and>
     swap_inv (array_vfs 0) p' {}"
proof -
  have c: "copy_from_user plain_user 0x100 16 (\<lambda>_. 1) = Some (replicate 16 1)"
    by (simp add: plain_user_def map_replicate_const)
  have t: "\<And>bs. fst (copy_to_user plain_user 0x100 bs (\<lambda>_. 1))" by (simp add: plain_user_def)
  have n: "0 < pages_of (ar_size (alloc_request_of (replicate 16 1)))" by code_simp
  show ?thesis
    using petmem_ioctl_lazy_alloc [OF demo_vm demo_swap_inv demo_fresh c t refl n] by blast
qed

end
