(* ===== verification/Harness.thy ===== *)
theory Harness
  imports Ioctl
begin

text \<open>
  The user-space library of \<open>user/harness.c\<close> on top of the device: allocation, release, and the
  handler for segmentation faults that asks the module to map the page. The memory of the program
  is a parameter, with the loads and stores of the library's request structures.
\<close>

section \<open>The library\<close>

record 'u user = "'u uaccess" +
  store :: "u64 \<Rightarrow> u8 list \<Rightarrow> 'u \<Rightarrow> 'u"
  load :: "u64 \<Rightarrow> nat \<Rightarrow> 'u \<Rightarrow> u8 list"

text \<open>
  What the kernel and the program rely on at the address of a structure of \<open>n\<close> bytes: the kernel
  reads what the program stored there, and the program reads what the kernel wrote.
\<close>

definition user_struct :: "'u user \<Rightarrow> u64 \<Rightarrow> nat \<Rightarrow> bool" where
  "user_struct us a n \<longleftrightarrow> (\<forall>bs u. length bs = n \<longrightarrow> copy_from_user us a n (store us a bs u) = Some bs \<and>
     (\<exists>u'. copy_to_user us a bs u = (True, u') \<and> load us a n u' = bs))"

text \<open>The addresses \<open>sp\<close> are those of the structures on the stack.\<close>

definition pet_malloc ::
    "'fs vfs \<Rightarrow> 'u user \<Rightarrow> kalloc \<Rightarrow> u64 \<Rightarrow> u64 \<Rightarrow> 'fs process \<Rightarrow> 'u \<Rightarrow> (u64 \<times> 'fs process \<times> 'u) run" where
  "pet_malloc v us k sp sz p u =
     (let u1 = store us sp (alloc_request_bytes \<lparr>ar_size = sz, ar_addr = 0\<rparr>) u
      in rbind (petmem_ioctl v us k LAZY_ALLOC sp p u1) (\<lambda>(r, p1, u2).
           returns (ar_addr (alloc_request_of (load us sp 16 u2)), p1, u2)))"

definition pet_free :: "'fs vfs \<Rightarrow> 'u user \<Rightarrow> kalloc \<Rightarrow> u64 \<Rightarrow> 'fs process \<Rightarrow> 'u \<Rightarrow> ('fs process \<times> 'u) run" where
  "pet_free v us k addr p u =
     rbind (petmem_ioctl v us k LAZY_FREE addr p u) (\<lambda>(r, p1, u1). returns (p1, u1))"

definition pet_dump :: "'fs vfs \<Rightarrow> 'u user \<Rightarrow> kalloc \<Rightarrow> 'fs process \<Rightarrow> 'u \<Rightarrow> ('fs process \<times> 'u) run" where
  "pet_dump v us k p u = rbind (petmem_ioctl v us k LAZY_DUMP_STATE 0 p u) (\<lambda>(r, p1, u1). returns (p1, u1))"

definition pet_invlpg :: "'fs vfs \<Rightarrow> 'u user \<Rightarrow> kalloc \<Rightarrow> u64 \<Rightarrow> 'fs process \<Rightarrow> 'u \<Rightarrow> ('fs process \<times> 'u) run" where
  "pet_invlpg v us k addr p u =
     rbind (petmem_ioctl v us k INVALIDATE_PAGE addr p u) (\<lambda>(r, p1, u1). returns (p1, u1))"

definition SIGSEGV :: int where "SIGSEGV = 11"

definition page_fault_bytes :: "page_fault \<Rightarrow> u8 list" where
  "page_fault_bytes f = word_bytes (pf_fault_addr f) @ take 4 (word_bytes (ucast (pf_error_code f)))"

text \<open>How the handler ends: the access is tried again, or the signal is raised with its default action.\<close>

datatype resumption = Resume | Resignal

definition segv_handler ::
    "'fs vfs \<Rightarrow> 'u user \<Rightarrow> kalloc \<Rightarrow> u64 \<Rightarrow> int \<Rightarrow> u64 \<Rightarrow> u32 \<Rightarrow> 'fs process \<Rightarrow> 'u \<Rightarrow> (resumption \<times> 'fs process \<times> 'u) run" where
  "segv_handler v us k sp signum si_addr si_code p u =
     (if signum \<noteq> SIGSEGV then returns (Resume, p, u)
      else let u1 = store us sp (page_fault_bytes \<lparr>pf_fault_addr = si_addr, pf_error_code = si_code\<rparr>) u
           in rbind (petmem_ioctl v us k PAGE_FAULT sp p u1) (\<lambda>(r, p1, u2).
                returns (if r \<noteq> 0 then Resignal else Resume, p1, u2)))"

text \<open>\<open>fd\<close> is what \<open>open\<close> of the device delivers.\<close>

definition init_petmem :: "int \<Rightarrow> int" where
  "init_petmem fd = (if fd = -1 then -1 else 0)"

section \<open>Requests as bytes\<close>

lemma alloc_request_roundtrip:
  "alloc_request_of (alloc_request_bytes req) = req" "length (alloc_request_bytes req) = 16"
  by (simp_all add: alloc_request_of_def alloc_request_bytes_def length_word_bytes bytes_word_bytes)

lemma page_fault_roundtrip: "page_fault_of (page_fault_bytes f) = f" "length (page_fault_bytes f) = 12"
proof -
  have "bytes_word (take 4 (word_bytes (ucast c))) = take_bit 32 (ucast c)" for c :: u32
    using bytes_word_slices [of 0 4 "ucast c"] by (simp add: word_bytes_def take_map take_upt)
  then have "ucast (bytes_word (take 4 (word_bytes (ucast c)))) = c" for c :: u32
    by (simp only:) (rule bit_word_eqI, auto simp: bit_simps)
  then show "page_fault_of (page_fault_bytes f) = f" "length (page_fault_bytes f) = 12"
    by (simp_all add: page_fault_of_def page_fault_bytes_def length_word_bytes bytes_word_bytes)
qed

section \<open>Faults as the program sees them\<close>

lemma segv_handler_ioctl:
  assumes us: "user_struct us sp 12" and pf: "petmem_handle_pagefault v (page_buffer k) a c p = returns (r, p')"
  shows "\<exists>u'. segv_handler v us k sp SIGSEGV a c p u = returns (if r \<noteq> 0 then Resignal else Resume, p', u')"
proof -
  let ?f = "page_fault_bytes \<lparr>pf_fault_addr = a, pf_error_code = c\<rparr>"
  have "copy_from_user us sp 12 (store us sp ?f u) = Some ?f"
    using us page_fault_roundtrip(2) by (auto simp: user_struct_def)
  then show ?thesis
    using pf by (simp add: segv_handler_def petmem_ioctl_def ioctl_numbers page_fault_roundtrip Let_def)
qed

lemma pet_malloc_ioctl:
  assumes us: "user_struct us sp 16" and al: "petmem_alloc_vspace (region_node k) (pages_of sz) p = returns (a, p')" "a \<noteq> 0"
  shows "\<exists>u'. pet_malloc v us k sp sz p u = returns (a, p', u')"
proof -
  let ?r = "\<lparr>ar_size = sz, ar_addr = 0\<rparr>"
  let ?b = "alloc_request_bytes ?r" and ?b' = "alloc_request_bytes (?r\<lparr>ar_addr := a\<rparr>)"
  have 1: "copy_from_user us sp 16 (store us sp ?b u) = Some ?b"
    using us alloc_request_roundtrip(2) by (auto simp: user_struct_def)
  obtain u' where "copy_to_user us sp ?b' (store us sp ?b u) = (True, u')" "load us sp 16 u' = ?b'"
    using us alloc_request_roundtrip(2) unfolding user_struct_def by metis
  then show ?thesis
    using 1 al by (simp add: pet_malloc_def petmem_ioctl_def ioctl_numbers alloc_request_roundtrip Let_def)
qed

lemma alloc_vspace_mach:
  "petmem_alloc_vspace new n p = returns (a, p') \<Longrightarrow> spare (mach p') = spare (mach p)"
  by (auto simp: petmem_alloc_vspace_def split: option.splits)

lemma room_for_all: "4 * 4096 \<le> card (spare (mach p) F) \<Longrightarrow> room_for p F a n"
proof -
  have "absent_levels p a n \<le> 4"
    using length_filter_le [of "\<lambda>k. table (pmem p) (root_of p) (rpath a k) = None" "[n ..< 4]"] by (simp add: absent_levels_def)
  then show "4 * 4096 \<le> card (spare (mach p) F) \<Longrightarrow> room_for p F a n" by (simp add: room_for_def)
qed

section \<open>Properties\<close>


text \<open>
  C28. A fault outside the memory handed out, and every access that violates the permissions of a
  page, ends the program: the handler raises the signal again with its default action and the
  module's state is unchanged.
\<close>

theorem segv_handler_resignals:
  assumes ok: "vm_ok p F ns rs" and us: "user_struct us sp 12"
    and bad: "(\<forall>b \<in> handed_out rs. unat a \<notin> vspan b) \<or> c = ERROR_PERMISSION"
  shows "\<exists>u'. segv_handler v us k sp SIGSEGV a c p u = returns (Resignal, p, u')"
  using segv_handler_ioctl [OF us pagefault_refused [OF ok bad]] by simp

text \<open>A program whose memory is all mapped.\<close>

definition plain_program :: "(u64 \<Rightarrow> u8) user" where
  "plain_program = uaccess.extend plain_user
     \<lparr>store = \<lambda>a bs u. snd (copy_to_user plain_user a bs u), load = \<lambda>a n u. map (\<lambda>i. u (a + of_nat i)) [0 ..< n]\<rparr>"

lemma plain_struct: "n < 2 ^ 64 \<Longrightarrow> user_struct plain_program a n"
proof -
  assume n: "n < 2 ^ 64"
  have "unat (of_nat i :: u64) = i" if "i < n" for i using that n by (intro unat_of_nat_u64) simp
  then have "map (\<lambda>i. if unat (a + of_nat i - a) < n then bs ! unat (a + of_nat i - a) else u (a + of_nat i)) [0 ..< n] = bs"
    if "length bs = n" for bs and u :: "u64 \<Rightarrow> u8" using that by (intro nth_equalityI) auto
  then show ?thesis by (simp add: user_struct_def plain_program_def plain_user_def uaccess.defs)
qed


theorem segv_handler_resignals_witness:
  "\<exists>u'. segv_handler (array_vfs 0) plain_program demo_kalloc 0x200 SIGSEGV 0x2000000000 1 demo_process (\<lambda>_. 0) =
     returns (Resignal, demo_process, u')"
proof -
  have "\<forall>b \<in> handed_out demo_rs. unat (0x2000000000 :: u64) \<notin> vspan b"
    by (auto simp: handed_out_def demo_rs_def vspan_def FREE_def ALLOCATED_def)
  then show ?thesis using segv_handler_resignals [OF demo_vm plain_struct [of 12]] by simp
qed

end
