(* ===== verification/Release_Region.thy ===== *)
theory Release_Region
  imports Release Harness
begin

text \<open>
  Releasing a region of the address space, \<open>free_address\<close> in \<open>on_demand.c\<close>: all its pages are taken out
  of the page table, the pages of the other regions stay mapped, and the region can be handed out
  again.
\<close>

section \<open>One page\<close>

lemma present_one: "present m e \<longleftrightarrow> entry_get ''present'' m e = 1"
proof -
  have "take_bit 1 w = 0 \<or> take_bit 1 w = 1" for w :: u64 by (auto simp: take_bit_eq_mod mod_2_eq_odd)
  then show ?thesis by (auto simp: present_def entry_get_def get_field_def pte_pos get_bits_def)
qed

lemma entire_page_free:
  "is_entire_page_free m t = PAGE_NOT_IN_USE \<longleftrightarrow> (\<forall>j < 512. \<not> present m (t + of_nat j * 8))"
  by (auto simp: is_entire_page_free_def PAGE_IN_USE_def PAGE_NOT_IN_USE_def present_one)

text \<open>A level is cleared only when the table below it has no entry left.\<close>

lemma free_levels_stops:
  assumes "\<forall>p \<in> set (petmem_pool_list (mach p)). managed p" "\<forall>(c, t) \<in> set ls. unat PAGE_OFFSET \<le> unat t"
    and "distinct (map fst ls)" "free_levels ls p = Inr p'" "Suc i < length ls"
    and "pmem p' (fst (ls ! Suc i)) \<noteq> pmem p (fst (ls ! Suc i))" "j < 512"
  shows "\<not> present (pmem p') (snd (ls ! i) + of_nat j * 8)"
  using assms
proof (induction ls arbitrary: p i)
  case (Cons l ls)
  obtain c t where l: "l = (c, t)" by (cases l)
  define p1 where "p1 = invlpg c (upd_mem (clear_entry c) p)"
  have p1: "pmem p1 = clear_entry c (pmem p)" "petmem_pool_list (mach p1) = petmem_pool_list (mach p)"
    by (simp_all add: p1_def invlpg_def upd_mem_def pmem_def)
  have ne: "fst (ls ! i) \<noteq> c" using Cons.prems(3,5) l by (metis distinct.simps(2) fst_conv image_eqI length_Cons list.map(2) list.set_map nth_mem Suc_less_SucD)
  show ?case
  proof (cases "is_entire_page_free (pmem p1) t = PAGE_NOT_IN_USE")
    case True
    define p2 where "p2 = invlpg t p1"
    have p2: "pmem p2 = pmem p1" "petmem_pool_list (mach p2) = petmem_pool_list (mach p1)"
      by (simp_all add: p2_def invlpg_def pmem_def)
    have "petmem_free_pages t 1 (mach p1) = Inr (mach p1)"
      using Cons.prems(1,2) l p1(2) by (intro petmem_free_virtual_noop) auto
    then have run: "free_levels ls p2 = Inr p'"
      using True Cons.prems(4) by (simp add: l Let_def p1_def [symmetric] p2_def)
    have man: "\<forall>p \<in> set (petmem_pool_list (mach p2)). managed p" "\<forall>(c, t) \<in> set ls. unat PAGE_OFFSET \<le> unat t"
      "distinct (map fst ls)" using Cons.prems(1-3) p1(2) p2(2) by simp_all
    show ?thesis
    proof (cases i)
      case 0
      have "\<forall>x. pmem p' x = (if ls \<noteq> [] \<and> x = fst (hd ls) then clear_entry x (pmem p2) x else pmem p2 x) \<or>
         x \<in> fst ` set ls \<and> pmem p' x = clear_entry x (pmem p2) x" using free_levels_ok [OF man] run by auto
      note keep = cleared_present [OF this]
      have "\<not> present (pmem p2) (t + of_nat j * 8)" using True Cons.prems(7) by (simp add: entire_page_free p2(1))
      then show ?thesis using keep [of "t + of_nat j * 8"] entry_cong(2) [of "pmem p'" "t + of_nat j * 8" "pmem p2"] 0 l by auto
    next
      case (Suc k)
      then show ?thesis
        using Cons.IH [OF man run, of k] Cons.prems(5-7) ne p1(1) p2(1) by simp
    qed
  next
    case False
    then have "p' = p1" using Cons.prems(4) by (simp add: l Let_def p1_def)
    then show ?thesis using Cons.prems(6) ne p1(1) by simp
  qed
qed simp

section \<open>Shrinking page tables\<close>

text \<open>
  \<open>p'\<close> is \<open>p\<close> with some entries taken out of its page tables; pages other than those at the paths \<open>P\<close>
  are mapped as before.
\<close>

definition shrunk :: "'fs process \<Rightarrow> 'fs process \<Rightarrow> u64 list set \<Rightarrow> bool" where
  "shrunk p p' P \<longleftrightarrow> same_pools p p' \<and>
     (\<forall>x. x \<notin> walk_words (pmem p) (root_of p) \<longrightarrow> pmem p' x = pmem p x) \<and>
     (\<forall>\<rho> \<in> region_paths. table (pmem p') (root_of p) \<rho> \<in> {None, table (pmem p) (root_of p) \<rho>}) \<and>
     (\<forall>b. in_region b \<and> rpath b 3 \<notin> P \<longrightarrow> table (pmem p') (root_of p) (rpath b 3) = table (pmem p) (root_of p) (rpath b 3))"

lemma same_pools_fields:
  assumes "same_pools p p'"
  shows "root_of p' = root_of p" "memory_allocations p' = memory_allocations p" "clock_hand p' = clock_hand p"
    "swap p' = swap p" "files p' = files p" "pool_area (mach p') = pool_area (mach p)" "list_words p' ns = list_words p ns"
proof -
  note a = arg_cong [OF assms [unfolded same_pools_def]]
  show "root_of p' = root_of p" using same_poolsD(1) [OF assms] by (simp add: root_of_def)
  show m: "memory_allocations p' = memory_allocations p" using a [of memory_allocations] by simp
  show "clock_hand p' = clock_hand p" using a [of clock_hand] by simp
  show "swap p' = swap p" using a [of swap] by simp
  show "files p' = files p" using a [of files] by simp
  show "pool_area (mach p') = pool_area (mach p)" using same_poolsD(2) [OF assms] by (simp add: pool_area_def)
  show "list_words p' ns = list_words p ns" using m by (simp add: list_words_def)
qed

lemma shrunkD:
  assumes "shrunk p p' P"
  shows "same_pools p p'" "x \<notin> walk_words (pmem p) (root_of p) \<Longrightarrow> pmem p' x = pmem p x"
    "\<rho> \<in> region_paths \<Longrightarrow> table (pmem p') (root_of p) \<rho> = Some t \<Longrightarrow> table (pmem p) (root_of p) \<rho> = Some t"
    "in_region b \<Longrightarrow> rpath b 3 \<notin> P \<Longrightarrow> table (pmem p') (root_of p) (rpath b 3) = table (pmem p) (root_of p) (rpath b 3)"
    "table_pages (pmem p') (root_of p) \<subseteq> table_pages (pmem p) (root_of p)"
    "walk_words (pmem p') (root_of p) \<subseteq> walk_words (pmem p) (root_of p)"
    "root_of p' = root_of p"
proof -
  show "same_pools p p'" "x \<notin> walk_words (pmem p) (root_of p) \<Longrightarrow> pmem p' x = pmem p x"
    "in_region b \<Longrightarrow> rpath b 3 \<notin> P \<Longrightarrow> table (pmem p') (root_of p) (rpath b 3) = table (pmem p) (root_of p) (rpath b 3)"
    using assms by (simp_all add: shrunk_def)
  then show "root_of p' = root_of p" by (intro same_pools_fields(1))
  show t: "table (pmem p) (root_of p) \<rho> = Some t" if "\<rho> \<in> region_paths" "table (pmem p') (root_of p) \<rho> = Some t" for \<rho> t
    using assms that unfolding shrunk_def by fastforce
  then show p: "table_pages (pmem p') (root_of p) \<subseteq> table_pages (pmem p) (root_of p)" by (auto simp: table_pages_def)
  then show "walk_words (pmem p') (root_of p) \<subseteq> walk_words (pmem p) (root_of p)" by (auto simp: walk_words_def)
qed

lemma shrunk_refl: "shrunk p p {}"
  by (simp add: shrunk_def same_pools_def pmem_def)

lemma shrunk_trans:
  assumes "shrunk p q P" "shrunk q r Q"
  shows "shrunk p r (P \<union> Q)"
proof -
  note p = shrunkD [OF assms(1)] and q = shrunkD [OF assms(2), unfolded p(7)]
  have "table (pmem r) (root_of p) \<rho> \<in> {None, table (pmem p) (root_of p) \<rho>}" if "\<rho> \<in> region_paths" for \<rho>
    using p(3) [OF that] q(3) [OF that] by (cases "table (pmem r) (root_of p) \<rho>") auto
  moreover have "pmem r x = pmem p x" if "x \<notin> walk_words (pmem p) (root_of p)" for x
    using p(2,6) q(2) that by (metis subsetD)
  ultimately show ?thesis using same_pools_trans [OF p(1) q(1)] p(4) q(4) by (simp add: shrunk_def)
qed

lemma shrunk_vm:
  assumes ok: "vm_ok p F ns rs" and s: "shrunk p p' P"
  shows "vm_ok p' F ns rs"
proof -
  note d = shrunkD [OF s] and f = same_pools_fields [OF shrunkD(1) [OF s]]
  have "frames_ok ((mach p)\<lparr>kmem := pmem p'\<rparr>) F"
    by (rule frames_ok_write [OF vm_okD(1) [OF ok]]) (use d(2) walk_words_guarded(1) [OF ok] in \<open>auto simp: pmem_def\<close>)
  then have "frames_ok (mach p') F"
    using same_poolsD(2) [OF d(1)] by (simp add: frames_ok_def pages_live_def pmem_def)
  moreover have "tables_ok (pmem p') (root_of p)"
    unfolding tables_ok_def using d(3) tables_okD [OF vm_okD(2) [OF ok]] by blast
  moreover have "user_pages (pmem p') (root_of p) \<subseteq> user_pages (pmem p) (root_of p)"
    using d(3) rpath_region by (fastforce simp: user_pages_def)
  moreover have "regions (pmem p') (memory_allocations p) ns rs"
    by (rule regions_list_words [OF ok]) (use d(2) walk_words_guarded(2) [OF ok] in blast)
  moreover have "guarded (mach p') F = guarded (mach p) F" by (simp add: guarded_def f(6))
  ultimately show ?thesis
    unfolding vm_ok_def f using d(5) vm_okD(3-8,10,11) [OF ok] by blast
qed

section \<open>The levels of two walks\<close>

lemma less_4_cases: "k < (4 :: nat) \<Longrightarrow> (k = 0 \<Longrightarrow> P) \<Longrightarrow> (k = 1 \<Longrightarrow> P) \<Longrightarrow> (k = 2 \<Longrightarrow> P) \<Longrightarrow> (k = 3 \<Longrightarrow> P) \<Longrightarrow> P"
  by (auto simp: numeral_eq_Suc less_Suc_eq)

lemma walk_levels_entries:
  assumes t: "table m root (rpath a 3) \<noteq> None" and k: "k < 4"
  defines "c \<equiv> fst (walk_levels m root a ! k)"
  shows "entry_of m root (rpath a (3 - k)) = Some c" "present m c"
proof -
  have "entry_of m root (rpath a (3 - k)) = Some c \<and> present m c"
    using k t unfolding c_def walk_levels_def Let_def next_entry_table
    by (cases rule: less_4_cases) (auto simp: rpath_simps table.simps entry_of_simps split: option.splits if_splits)
  then show "entry_of m root (rpath a (3 - k)) = Some c" "present m c" by blast+
qed

lemma walk_levels_tables:
  assumes "k < 3"
  shows "snd (walk_levels m root a ! k) = entry_table m (fst (walk_levels m root a ! Suc k))"
    "\<exists>j < 512. fst (walk_levels m root a ! k) = snd (walk_levels m root a ! k) + of_nat j * 8"
proof -
  have i: "\<exists>j < 512. t + i * 8 = t + of_nat j * 8" if "unat i < 512" for t i :: u64
    by (rule exI [of _ "unat i"]) (simp add: that)
  show "snd (walk_levels m root a ! k) = entry_table m (fst (walk_levels m root a ! Suc k))"
    using assms by (cases rule: less_4_cases [of k]) (auto simp: walk_levels_def Let_def)
  show "\<exists>j < 512. fst (walk_levels m root a ! k) = snd (walk_levels m root a ! k) + of_nat j * 8"
    using assms i [OF index_less(1)] i [OF index_less(2)] i [OF index_less(3)]
    by (cases rule: less_4_cases [of k]) (auto simp: walk_levels_def Let_def next_entry_table)
qed

text \<open>Two walks meet at the same level only.\<close>

lemma walk_levels_inject:
  assumes T: "tables_ok m root" and a: "in_region a" "table m root (rpath a 3) \<noteq> None"
    and b: "in_region b" "table m root (rpath b 3) \<noteq> None" and k: "i < 4" "j < 4"
    and e: "fst (walk_levels m root b ! i) = fst (walk_levels m root a ! j)"
  shows "i = j" "rpath b (3 - i) = rpath a (3 - j)"
proof -
  show r: "rpath b (3 - i) = rpath a (3 - j)"
    using entry_of_inject [OF T rpath_region [OF b(1)] rpath_region [OF a(1)] walk_levels_entries(1) [OF b(2) k(1)]]
      walk_levels_entries(1) [OF a(2) k(2)] e by simp
  then have "length (rpath b (3 - i)) = length (rpath a (3 - j))" by simp
  then show "i = j" using k by (simp add: rpath_def)
qed

lemma table_unchanged:
  assumes "table m root (rpath b 3) = Some t" "\<And>k. k < 4 \<Longrightarrow> m' (fst (walk_levels m root b ! k)) = m (fst (walk_levels m root b ! k))"
  shows "table m' root (rpath b 3) = Some t"
proof -
  have c: "present m' c = present m c" "entry_table m' c = entry_table m c" if "k < 4" "c = fst (walk_levels m root b ! k)" for k c
    using entry_cong(2,3) [of m' c m] assms(2) that by auto
  have "table m' root (rpath b 3) = table m root (rpath b 3)"
    using assms(1) c [of 3] c [of 2] c [of 1] c [of 0]
    by (auto simp: rpath_simps table.simps walk_levels_def Let_def next_entry_table split: option.splits if_splits)
  then show ?thesis using assms(1) by simp
qed

lemma attempt_free_others:
  assumes ok: "vm_ok p F ns rs" and a: "in_region a" and root: "unat PAGE_OFFSET \<le> unat (root_of p)"
    and e: "get_valid_page_entry (pmem p) (cr3 (mach p)) a \<noteq> 0" and run: "attempt_free_physical_address a p = Inr p'"
    and b: "in_region b" "rpath b 3 \<noteq> rpath a 3" "table (pmem p) (root_of p) (rpath b 3) = Some t"
  shows "table (pmem p') (root_of p) (rpath b 3) = Some t"
proof -
  note man = frames_managed [OF vm_okD(1) [OF ok]] and l = attempt_free_levels [OF ok a root refl e]
  let ?m = "pmem p" and ?r = "root_of p"
  let ?A = "walk_levels ?m ?r a" and ?B = "walk_levels ?m ?r b"
  have run': "free_levels ?A p = Inr p'" using run l(1) by simp
  have len: "length ?A = 4" by (simp add: walk_levels_def Let_def)
  have ta: "table ?m ?r (rpath a 3) \<noteq> None" using e walk_entry_iff [OF ok a] by simp
  have tb: "table ?m ?r (rpath b 3) \<noteq> None" using b(3) by simp
  note inj = walk_levels_inject [OF vm_okD(2) [OF ok] a ta b(1) tb]
  have hd: "fst (hd ?A) \<in> fst ` set ?A" using len by (intro imageI hd_in_set) auto
  have chg: "\<exists>j < 4. x = fst (?A ! j)" if "pmem p' x \<noteq> ?m x" for x
  proof -
    have "pmem p' x = (if ?A \<noteq> [] \<and> x = fst (hd ?A) then clear_entry x ?m x else ?m x) \<or>
        x \<in> fst ` set ?A \<and> pmem p' x = clear_entry x ?m x" using free_levels_ok [OF man l(2,3)] run' by auto
    then have "x \<in> fst ` set ?A" using that hd by (cases "x = fst (hd ?A)") auto
    then show ?thesis using len by (auto simp: in_set_conv_nth) (metis fst_conv)
  qed
  have "pmem p' (fst (?B ! k)) = ?m (fst (?B ! k))" if "k < 4" for k
    using that
  proof (induction k)
    case 0
    then show ?case using chg inj [of 0] b(2) by fastforce
  next
    case (Suc k)
    then have IH: "pmem p' (fst (?B ! k)) = ?m (fst (?B ! k))" by simp
    show ?case
    proof (rule ccontr)
      assume c: "\<not> ?thesis"
      then obtain j where "j < 4" "fst (?B ! Suc k) = fst (?A ! j)" using chg by blast
      then have eq: "fst (?B ! Suc k) = fst (?A ! Suc k)" using inj(1) [of "Suc k" j] Suc.prems by simp
      have k3: "k < 3" using Suc.prems by simp
      obtain j where j: "j < 512" "fst (?B ! k) = snd (?B ! k) + of_nat j * 8" using walk_levels_tables(2) [OF k3] by blast
      have "snd (?B ! k) = snd (?A ! k)" using walk_levels_tables(1) [OF k3, of ?m ?r] eq by simp
      then have "\<not> present (pmem p') (fst (?B ! k))"
        using free_levels_stops [OF man l(2,3) run', of k j] c eq Suc.prems len j by simp
      moreover have "present (pmem p') (fst (?B ! k))"
        using walk_levels_entries(2) [OF tb, of k] entry_cong(2) [of "pmem p'" "fst (?B ! k)" ?m] IH k3 by simp
      ultimately show False by blast
    qed
  qed
  then show ?thesis by (rule table_unchanged [OF b(3)])
qed

lemma attempt_free_shrinks:
  assumes ok: "vm_ok p F ns rs" and a: "in_region a" and root: "unat PAGE_OFFSET \<le> unat (root_of p)"
  obtains p' where "attempt_free_physical_address a p = Inr p'" "shrunk p p' {rpath a 3}"
    "table (pmem p') (root_of p) (rpath a 3) = None"
proof (cases "get_valid_page_entry (pmem p) (cr3 (mach p)) a = 0")
  case True
  then have n: "table (pmem p) (root_of p) (rpath a 3) = None" using walk_entry_iff [OF ok a] by simp
  have r3: "pml4_entry (cr3 (mach p)) a = root_of p" using region_root [OF a] by (simp add: root_of_def)
  have "attempt_free_physical_address a p = Inr p"
    using n unfolding attempt_free_physical_address_def r3 next_entry_table Let_def
    by (auto simp: rpath_simps table.simps split: option.splits if_splits)
  then show ?thesis using that n by (simp add: shrunk_def same_pools_def pmem_def)
next
  case e: False
  note man = frames_managed [OF vm_okD(1) [OF ok]] and l = attempt_free_levels [OF ok a root refl e]
  let ?e = "get_valid_page_entry (pmem p) (cr3 (mach p)) a" and ?ls = "walk_levels (pmem p) (root_of p) a"
  obtain p' where run: "attempt_free_physical_address a p = Inr p'" and p': "same_pools p p'"
    "\<forall>x. pmem p' x = (if ?ls \<noteq> [] \<and> x = ?e then clear_entry x (pmem p) x else pmem p x) \<or>
       x \<in> fst ` set ?ls \<and> pmem p' x = clear_entry x (pmem p) x"
    using free_levels_ok [OF man l(2,3)] unfolding l(1) l(5) by auto
  note keep = cleared_present [OF p'(2)]
  have tab: "table (pmem p') (root_of p) \<rho> \<in> {None, table (pmem p) (root_of p) \<rho>}" for \<rho>
  proof (induction \<rho>)
    case Nil
    show ?case using keep [of "root_of p"] entry_cong(2,3) [of "pmem p'" "root_of p" "pmem p"] by (auto simp: table.simps)
  next
    case (Cons i \<rho>)
    show ?case
    proof (cases "table (pmem p') (root_of p) \<rho>")
      case (Some t)
      then have "table (pmem p) (root_of p) \<rho> = Some t" using Cons by auto
      then show ?thesis
        using Some keep [of "t + i * 8"] entry_cong(2,3) [of "pmem p'" "t + i * 8" "pmem p"] by (auto simp: table.simps)
    qed (simp add: table.simps)
  qed
  have "entry_of (pmem p) (root_of p) (rpath a 3) = Some ?e"
    using e walk_entry [OF a, of p] by (auto split: option.splits if_splits)
  moreover have "pmem p' ?e = clear_entry ?e (pmem p) ?e"
    using p'(2) [rule_format, of ?e] by (auto simp: walk_levels_def Let_def)
  then have "\<not> present (pmem p') ?e"
    using entry_cong(2) [of "pmem p'" ?e "clear_entry ?e (pmem p)"] clear_entry_fields(1) by blast
  ultimately have "table (pmem p') (root_of p) (rpath a 3) = None"
    using tab [of "rpath a 2"] by (auto simp: table_entry [of _ _ "rpath a 3"] entry_of_leaf split: option.splits)
  moreover have "pmem p' x = pmem p x" if "x \<notin> walk_words (pmem p) (root_of p)" for x
    using p'(2) [rule_format, of x] that l(4,5) by (auto simp: walk_levels_def Let_def split: if_splits)
  moreover have "table (pmem p') (root_of p) (rpath b 3) = table (pmem p) (root_of p) (rpath b 3)"
    if "in_region b" "rpath b 3 \<noteq> rpath a 3" for b
    using attempt_free_others [OF ok a root e run that] tab [of "rpath b 3"] by (cases "table (pmem p) (root_of p) (rpath b 3)") auto
  ultimately show ?thesis using that [OF run] p'(1) tab by (simp add: shrunk_def)
qed

text \<open>
  \<open>is_entire_page_free\<close> counts the entries of swapped-out pages as free. When \<open>a\<close> is the last page of its
  page table that is in memory, releasing it takes the table out, and with it the only record of where the
  swapped-out pages of the same table are.
\<close>

lemma release_drops_table:
  assumes ok: "vm_ok p F ns rs" and a: "in_region a" and root: "unat PAGE_OFFSET \<le> unat (root_of p)"
    and e: "e = get_valid_page_entry (pmem p) (cr3 (mach p)) a" "e \<noteq> 0"
    and pt: "table (pmem p) (root_of p) (rpath a 2) = Some pt"
    and last: "\<forall>j < 512. pt + of_nat j * 8 \<noteq> e \<longrightarrow> \<not> present (pmem p) (pt + of_nat j * 8)"
    and run: "attempt_free_physical_address a p = Inr p'"
  shows "table (pmem p') (root_of p) (rpath a 2) = None"
proof -
  note man = frames_managed [OF vm_okD(1) [OF ok]] and l = attempt_free_levels [OF ok a root e]
  let ?m = "pmem p" and ?r = "root_of p"
  let ?A = "walk_levels ?m ?r a"
  have ta: "table ?m ?r (rpath a 3) \<noteq> None" using e walk_entry_iff [OF ok a] by simp
  define c d where "c = fst (?A ! 1)" "d = snd (?A ! 1)"
  have w: "entry_of ?m ?r (rpath a 2) = Some c" using walk_levels_entries(1) [OF ta, of 1] by (simp add: c_d_def)
  then have pt': "snd (?A ! 0) = pt" using pt walk_levels_tables(1) [of 0 ?m ?r a] by (simp add: table_entry c_d_def split: if_splits)
  obtain ls where ls: "?A = (e, pt) # (c, d) # ls" using l(5) pt' by (simp add: c_d_def walk_levels_def Let_def)
  define p1 where "p1 = invlpg e (upd_mem (clear_entry e) p)"
  define p2 where "p2 = invlpg pt p1"
  have p1: "pmem p1 = clear_entry e ?m" "petmem_pool_list (mach p1) = petmem_pool_list (mach p)"
    "pmem p2 = pmem p1" "petmem_pool_list (mach p2) = petmem_pool_list (mach p)"
    by (simp_all add: p1_def p2_def invlpg_def upd_mem_def pmem_def)
  have free: "is_entire_page_free (pmem p1) pt = PAGE_NOT_IN_USE"
    unfolding entire_page_free p1(1)
  proof (intro allI impI)
    fix j :: nat assume "j < 512"
    then show "\<not> present (clear_entry e ?m) (pt + of_nat j * 8)"
      using last clear_entry_fields(1) [of e ?m] entry_cong(2) [of "clear_entry e ?m" "pt + of_nat j * 8" ?m]
      by (cases "pt + of_nat j * 8 = e") auto
  qed
  have m2: "\<forall>p \<in> set (petmem_pool_list (mach p2)). managed p" "\<forall>(c, t) \<in> set ((c, d) # ls). unat PAGE_OFFSET \<le> unat t"
    "distinct (map fst ((c, d) # ls))" using man l(2,3) p1(4) unfolding ls by simp_all
  have "petmem_free_pages pt 1 (mach p1) = Inr (mach p1)"
    by (rule petmem_free_virtual_noop) (use man l(2) p1(2) in \<open>simp_all add: ls\<close>)
  then have "free_levels ?A p = free_levels ((c, d) # ls) p2"
    using free unfolding ls free_levels.simps(2) [of e] Let_def p1_def [symmetric] by (simp add: p2_def)
  then have run2: "free_levels ((c, d) # ls) p2 = Inr p'" using run l(1) by simp
  from free_levels_ok [OF m2] have "pmem p' c = clear_entry c (pmem p2) c" unfolding run2 by (auto dest: spec [of _ c])
  then have np: "\<not> present (pmem p') c"
    using entry_cong(2) [of "pmem p'" c "clear_entry c (pmem p2)"] clear_entry_fields(1) by blast
  obtain q where q: "attempt_free_physical_address a p = Inr q" "shrunk p q {rpath a 3}"
    by (rule attempt_free_shrinks [OF ok a root])
  have "table (pmem p') ?r (rpath a 2) \<noteq> Some t" for t
  proof
    assume t: "table (pmem p') ?r (rpath a 2) = Some t"
    have up: "table (pmem p') ?r (rpath a 1) = Some u \<Longrightarrow> table ?m ?r (rpath a 1) = Some u" for u
      using shrunkD(3) [OF q(2) rpath_region [OF a], of 1] q(1) run by simp
    show False using t w np up by (auto simp: rpath_simps table.simps entry_of_simps split: option.splits if_splits)
  qed
  then show ?thesis by (cases "table (pmem p') ?r (rpath a 2)") auto
qed

section \<open>All pages of a region\<close>

lemma scast_small:
  assumes "unat (w :: u32) < 2 ^ 31"
  shows "unat (scast w :: u64) = unat w"
proof -
  have "int (unat w) < int (2 ^ 31)" using assms by (simp only: of_nat_less_iff)
  then have "uint w < 2 ^ 31" by simp
  moreover have "- (2 ^ 31) \<le> uint w" by (rule order_trans [OF _ uint_ge_0]) simp
  ultimately have "sint w = uint w" using signed_take_bit_int_eq_self [of 31 "uint w"] by (simp add: sint_uint)
  then have "(scast w :: u64) = of_nat (unat w)" by (simp add: scast_eq)
  moreover have "unat w < 2 ^ 64" using assms by simp
  ultimately show ?thesis by (metis unat_of_nat_u64)
qed

text \<open>
  The byte offset of page \<open>i\<close> is an \<open>int\<close>: right for the first \<open>2 ^ 19\<close> pages of a region, beyond that it
  is negative.
\<close>

lemma page_step_small: "unat i < 2 ^ 19 \<Longrightarrow> page_step i = of_nat (4096 * unat i)"
proof -
  assume i: "unat i < 2 ^ 19"
  then have u: "unat (i * 4096) = 4096 * unat i" by (simp add: unat_word_ariths)
  then have "unat (page_step i) = 4096 * unat i" unfolding page_step_def using i by (subst scast_small) simp_all
  then show ?thesis by (metis of_nat_unat ucast_id)
qed

lemma page_step_overflow: "page_step (2 ^ 19) = - (2 ^ 31)"
  by code_simp

definition page_of :: "u64 \<Rightarrow> nat \<Rightarrow> u64" where
  "page_of a k = a + of_nat (4096 * k)"

text \<open>The pages of a region, and the addresses on them.\<close>

lemma region_pages:
  assumes inv: "vspace_inv rs" and r: "r \<in> set rs" "rstatus r = ALLOCATED"
  shows "k < unat (rsize r) \<Longrightarrow> unat (page_of (raddr r) k) = unat (raddr r) + 4096 * k"
    "k < unat (rsize r) \<Longrightarrow> in_region (page_of (raddr r) k)"
    "in_region b \<Longrightarrow> unat b \<in> vspan (raddr r, rsize r) \<longleftrightarrow> rpath b 3 \<in> (\<lambda>k. rpath (page_of (raddr r) k) 3) ` {0 ..< unat (rsize r)}"
proof -
  note a = region_addr [OF inv r(1)]
  have b: "unat (raddr r) + 4096 * unat (rsize r) < 2 ^ 39"
    using tiles_bounds [OF _ r(1)] inv region_end_small by (fastforce simp: vspace_inv_def)
  show u: "unat (page_of (raddr r) k) = unat (raddr r) + 4096 * k" if "k < unat (rsize r)" for k
  proof -
    have "unat (of_nat (4096 * k) :: u64) = 4096 * k" using that b by (intro unat_of_nat_u64) simp
    then show ?thesis unfolding page_of_def using that b by (subst unat_add_small) simp_all
  qed
  show i: "in_region (page_of (raddr r) k)" if "k < unat (rsize r)" for k
    by (rule a(3)) (use holds_span [OF inv r(1)] r(2) u [OF that] that in \<open>simp add: vspan_def\<close>)
  assume ib: "in_region b"
  have d: "unat (drop_bit 12 x) = unat x div 4096" for x :: u64 by (simp add: unat_drop_bit)
  have "rpath b 3 = rpath (page_of (raddr r) k) 3 \<longleftrightarrow> unat b div 4096 = unat (raddr r) div 4096 + k" if "k < unat (rsize r)" for k
    using rpath_page [OF ib i [OF that]] d [of b] d [of "page_of (raddr r) k"] u [OF that] by (auto simp: word_unat_eq_iff)
  moreover have "unat b \<in> vspan (raddr r, rsize r) \<longleftrightarrow> (\<exists>k < unat (rsize r). unat b div 4096 = unat (raddr r) div 4096 + k)"
  proof -
    obtain A where A: "unat (raddr r) = 4096 * A" using a(2) by (auto elim: dvdE)
    show ?thesis
      by (auto simp: vspan_def A intro!: exI [of _ "unat b div 4096 - A"])
  qed
  ultimately show "unat b \<in> vspan (raddr r, rsize r) \<longleftrightarrow> rpath b 3 \<in> (\<lambda>k. rpath (page_of (raddr r) k) 3) ` {0 ..< unat (rsize r)}"
    by (auto simp: image_iff)
qed

lemma region_read:
  assumes "vm_ok p F ns rs" "vm_ok p' F' ns rs" "n \<in> set ns"
  shows "reg_at (pmem p') n = reg_at (pmem p) n" "reg_at (pmem p) n \<in> set rs"
  using vm_okD(9) [OF assms(1)] vm_okD(9) [OF assms(2)] assms(3) by (auto simp: regions_def)

lemma free_range_ok:
  assumes "vm_ok p F ns rs" "n \<in> set ns" "r = reg_at (pmem p) n" "rstatus r = ALLOCATED" "unat (rsize r) \<le> 2 ^ 19"
    and "unat PAGE_OFFSET \<le> unat (root_of p)" "unat i \<le> unat (rsize r)"
  shows "\<exists>p'. free_range n i p = returns p' \<and>
    shrunk p p' ((\<lambda>k. rpath (page_of (raddr r) k) 3) ` {unat i ..< unat (rsize r)}) \<and>
    (\<forall>k. unat i \<le> k \<and> k < unat (rsize r) \<longrightarrow> table (pmem p') (root_of p) (rpath (page_of (raddr r) k) 3) = None)"
  using assms
proof (induction "unat (rsize r) - unat i" arbitrary: i p)
  case 0
  then have "\<not> scast i < reg_size (pmem p) n"
    using scast_small [of i] by (simp add: reg_at_def word_less_nat_alt)
  moreover have "{unat i ..< unat (rsize r)} = {}" using 0(1) by simp
  ultimately show ?case using 0(1) shrunk_refl [of p] by (auto simp: free_range.simps [of n i p])
next
  case (Suc d)
  note inv = vm_okD(10) [OF Suc.prems(1)] and rd = region_read [OF Suc.prems(1,1,2)]
  have rin: "r \<in> set rs" using rd(2) Suc.prems(3) by simp
  have i: "unat i < unat (rsize r)" using Suc.hyps(2) by simp
  then have lt: "scast i < reg_size (pmem p) n" and nx: "unat (i + 1) = unat i + 1"
    using scast_small [of i] Suc.prems(3,5) by (simp_all add: reg_at_def word_less_nat_alt unat_word_ariths)
  have addr: "reg_page_addr (pmem p) n + page_step i = page_of (raddr r) (unat i)"
    using page_step_small [of i] i Suc.prems(3,5) by (simp add: page_of_def reg_at_def)
  obtain p1 where p1: "attempt_free_physical_address (page_of (raddr r) (unat i)) p = Inr p1"
    "shrunk p p1 {rpath (page_of (raddr r) (unat i)) 3}"
    "table (pmem p1) (root_of p) (rpath (page_of (raddr r) (unat i)) 3) = None"
    by (rule attempt_free_shrinks [OF Suc.prems(1) region_pages(2) [OF inv rin Suc.prems(4) i] Suc.prems(6)])
  note ok1 = shrunk_vm [OF Suc.prems(1) p1(2)] and root1 = shrunkD(7) [OF p1(2)]
  have "d = unat (rsize r) - unat (i + 1)" "unat (i + 1) \<le> unat (rsize r)" using Suc.hyps(2) nx by simp_all
  moreover have "r = reg_at (pmem p1) n" using region_read(1) [OF Suc.prems(1) ok1 Suc.prems(2)] Suc.prems(3) by simp
  ultimately obtain p' where p': "free_range n (i + 1) p1 = returns p'"
    "shrunk p1 p' ((\<lambda>k. rpath (page_of (raddr r) k) 3) ` {unat i + 1 ..< unat (rsize r)})"
    "\<forall>k. unat i + 1 \<le> k \<and> k < unat (rsize r) \<longrightarrow> table (pmem p') (root_of p) (rpath (page_of (raddr r) k) 3) = None"
    using Suc.hyps(1) [of "i + 1" p1, OF _ ok1 Suc.prems(2)] Suc.prems(4-6) nx unfolding root1 by auto
  have "free_range n i p = returns p'"
    unfolding free_range.simps [of n i p] using lt p1(1) p'(1) addr by simp
  moreover have "insert (unat i) {unat i + 1 ..< unat (rsize r)} = {unat i ..< unat (rsize r)}" using i by auto
  then have "shrunk p p' ((\<lambda>k. rpath (page_of (raddr r) k) 3) ` {unat i ..< unat (rsize r)})"
    using shrunk_trans [OF p1(2) p'(2)] by (metis image_insert insert_is_Un)
  moreover have "table (pmem p') (root_of p) (rpath (page_of (raddr r) (unat i)) 3) = None"
    using p1(3) shrunkD(3) [OF p'(2) rpath_region [OF region_pages(2) [OF inv rin Suc.prems(4) i]], unfolded root1, of 3]
    by (cases "table (pmem p') (root_of p) (rpath (page_of (raddr r) (unat i)) 3)") auto
  moreover have "k = unat i \<or> unat i + 1 \<le> k" if "unat i \<le> k" for k using that by auto
  ultimately show ?case using p'(3) by auto
qed

lemma flush_range_ok:
  assumes "unat (reg_size (pmem p) n) \<le> 2 ^ 19" "unat i \<le> unat (reg_size (pmem p) n)"
  shows "\<exists>fl. flush_range n i p = returns (p\<lparr>mach := (mach p)\<lparr>flushed := fl\<rparr>\<rparr>)"
  using assms
proof (induction "unat (reg_size (pmem p) n) - unat i" arbitrary: i p)
  case 0
  then have "\<not> scast i < reg_size (pmem p) n" using scast_small [of i] by (simp add: word_less_nat_alt)
  then show ?case by (intro exI [of _ "flushed (mach p)"]) (simp add: flush_range.simps [of n i p])
next
  case (Suc d)
  then have lt: "scast i < reg_size (pmem p) n" and nx: "unat (i + 1) = unat i + 1"
    using scast_small [of i] by (simp_all add: word_less_nat_alt unat_word_ariths)
  let ?q = "invlpg (reg_page_addr (pmem p) n + page_step i) p"
  have "pmem ?q = pmem p" by (simp add: invlpg_def pmem_def)
  moreover have "d = unat (reg_size (pmem p) n) - unat (i + 1)" "unat (i + 1) \<le> unat (reg_size (pmem p) n)"
    using Suc.hyps(2) nx by simp_all
  ultimately obtain fl where "flush_range n (i + 1) ?q = returns (?q\<lparr>mach := (mach ?q)\<lparr>flushed := fl\<rparr>\<rparr>)"
    using Suc.hyps(1) [of ?q "i + 1"] Suc.prems(1) by metis
  then show ?case using lt by (auto simp: flush_range.simps [of n i p] invlpg_def)
qed

section \<open>What a release leaves mapped\<close>

lemma walk_by_tables:
  assumes "in_region b"
  shows "get_valid_page_entry (pmem p) (cr3 (mach p)) b =
    (if table (pmem p) (root_of p) (rpath b 3) = None then 0
     else the (table (pmem p) (root_of p) (rpath b 2)) + PTE64_INDEX b * 8)"
  unfolding walk_entry [OF assms]
  by (auto simp: table_entry [of _ _ "rpath b 3"] entry_of_leaf split: option.splits)

lemma word_at_mapped: "table (pmem p) (root_of p) (rpath a 3) = Some t \<Longrightarrow> word_at v p a i = Some (pmem p (page_word t i))"
  by (auto simp: word_at_def table_entry [of _ _ "rpath a 3"] split: option.splits if_splits)

text \<open>A page whose tables are all there is translated as before.\<close>

lemma same_translation:
  assumes b: "in_region b" and r: "root_of p' = root_of p"
    and t: "table (pmem p') (root_of p) (rpath b 3) = table (pmem p) (root_of p) (rpath b 3)"
    and t2: "table (pmem p') (root_of p) (rpath b 2) \<in> {None, table (pmem p) (root_of p) (rpath b 2)}"
  shows "get_valid_page_entry (pmem p') (cr3 (mach p')) b = get_valid_page_entry (pmem p) (cr3 (mach p)) b"
proof -
  have "table (pmem p') (root_of p) (rpath b 2) \<noteq> None" if "table (pmem p') (root_of p) (rpath b 3) \<noteq> None"
    using that by (auto simp: table_entry [of _ _ "rpath b 3"] entry_of_leaf split: option.splits)
  then show ?thesis unfolding walk_by_tables [OF b] r using t t2 by auto
qed

lemma shrunk_mapped:
  assumes ok: "vm_ok p F ns rs" and s: "shrunk p p' P" and b: "in_region b" "rpath b 3 \<notin> P"
  shows "get_valid_page_entry (pmem p') (cr3 (mach p')) b = get_valid_page_entry (pmem p) (cr3 (mach p)) b"
    "get_valid_page_entry (pmem p) (cr3 (mach p)) b \<noteq> 0 \<Longrightarrow> i < 512 \<Longrightarrow> word_at v p' b i = word_at v p b i"
proof -
  note d = shrunkD [OF s]
  have "table (pmem p') (root_of p) (rpath b 2) \<in> {None, table (pmem p) (root_of p) (rpath b 2)}"
    using d(3) [OF rpath_region [OF b(1)], of 2] by (cases "table (pmem p') (root_of p) (rpath b 2)") auto
  then show "get_valid_page_entry (pmem p') (cr3 (mach p')) b = get_valid_page_entry (pmem p) (cr3 (mach p)) b"
    by (rule same_translation [OF b(1) d(7) d(4) [OF b]])
  assume e: "get_valid_page_entry (pmem p) (cr3 (mach p)) b \<noteq> 0" and i: "i < 512"
  then obtain t where t: "table (pmem p) (root_of p) (rpath b 3) = Some t" using walk_entry_iff [OF ok b(1)] by blast
  note up = user_page [OF ok b(1) t]
  have "page_word t i \<notin> walk_words (pmem p) (root_of p)"
    using page_word_in(1) [of t i] up(1,4) i by (auto simp: page_ok_def)
  then have "pmem p' (page_word t i) = pmem p (page_word t i)" by (rule d(2))
  moreover have "table (pmem p') (root_of p') (rpath b 3) = Some t" using d(4) [OF b] d(7) t by simp
  ultimately show "word_at v p' b i = word_at v p b i" using t by (simp add: word_at_mapped)
qed

section \<open>The region list\<close>

lemma vm_ok_hand:
  assumes "vm_ok p F ns rs"
  shows "vm_ok (p\<lparr>clock_hand := memory_allocations p\<rparr>) F ns rs"
  using assms by (simp add: vm_ok_def root_of_def pmem_def list_words_def)

lemma vm_ok_hand_back:
  assumes "vm_ok (p\<lparr>clock_hand := h\<rparr>) F ns rs" "clock_hand p \<in> insert (memory_allocations p) (lnode ` set ns)"
  shows "vm_ok p F ns rs"
  using assms by (simp add: vm_ok_def root_of_def pmem_def list_words_def)

lemma flush_shrunk: "shrunk p (p\<lparr>mach := (mach p)\<lparr>flushed := fl\<rparr>\<rparr>) {}"
  by (simp add: shrunk_def same_pools_def pmem_def)

lemma word_at_hand: "word_at v (p\<lparr>clock_hand := h\<rparr>) b i = word_at v p b i"
  by (simp add: word_at_def root_of_def pmem_def split: option.split)

text \<open>
  The list part of a release, for a process whose page tables hold none of the pages: what the tables
  map stays, the list loses the region.
\<close>

lemma release_list:
  fixes fl :: "u64 list"
  assumes ok: "vm_ok p F (xs @ n # ys) (ps @ r # qs)" and len: "length ps = length xs"
    and q: "head_quiet (pmem p) (memory_allocations p) (xs @ n # ys) (raddr r)"
  defines "p' \<equiv> upd_mem (merge_regions n (raddr r)) ((upd_mem (set_status n FREE) p)\<lparr>mach := (mach (upd_mem (set_status n FREE) p))\<lparr>flushed := fl\<rparr>\<rparr>)"
  obtains ns' rs' where "vm_ok (p'\<lparr>clock_hand := memory_allocations p\<rparr>) F ns' rs'"
    "handed_out rs' = handed_out (ps @ r # qs) - {(raddr r, rsize r)}"
    "\<And>b. in_region b \<Longrightarrow> get_valid_page_entry (pmem p') (cr3 (mach p')) b = get_valid_page_entry (pmem p) (cr3 (mach p)) b"
    "\<And>b i. in_region b \<Longrightarrow> i < 512 \<Longrightarrow> word_at v p' b i = word_at v p b i"
    "memory_allocations p' = memory_allocations p" "clock_hand p' = clock_hand p"
    "petmem_pool_list (mach p') = petmem_pool_list (mach p)"
proof -
  let ?h = "memory_allocations p" and ?ns = "xs @ n # ys"
  define m' where "m' = merge_regions n (raddr r) (set_status n FREE (pmem p))"
  define p0 where "p0 = p\<lparr>clock_hand := ?h\<rparr>"
  have p0: "pmem p0 = pmem p" "root_of p0 = root_of p" "memory_allocations p0 = ?h" "mach p0 = mach p" "clock_hand p0 = ?h"
    by (simp_all add: p0_def pmem_def root_of_def)
  obtain ns' rs' where l: "regions m' ?h ns' rs'" "vspace_inv rs'" "handed_out rs' = handed_out (ps @ r # qs) - {(raddr r, rsize r)}"
    "set ns' \<subseteq> set ?ns" "\<And>x. x \<notin> region_words ?h ?ns \<Longrightarrow> m' x = pmem p x"
    using release_region [OF vm_okD(9) [OF ok] len vm_okD(10) [OF ok] q] unfolding m'_def by blast
  have W: "region_words ?h ?ns \<subseteq> list_words p ?ns" by (auto simp: list_words_def)
  have ok0: "vm_ok p0 F ?ns (ps @ r # qs)" unfolding p0_def by (rule vm_ok_hand [OF ok])
  have Ww: "region_words ?h ?ns \<inter> walk_words (pmem p0) (root_of p0) = {}" unfolding p0 using W walk_words_guarded(2) [OF ok] by blast
  have lw: "list_words p0 ns' \<subseteq> list_words p0 ?ns \<union> region_words ?h ?ns"
    using l(4) by (auto simp: list_words_def region_words_def p0)
  have Wp: "region_words ?h ?ns \<inter> pool_area (mach p0) = {}" unfolding p0 using W vm_okD(8) [OF ok] by blast
  note L = vm_lists [OF ok0 _ Wp Ww lw, unfolded p0, OF l(5) l(1,2) insertI1]
  have P': "p'\<lparr>clock_hand := ?h\<rparr> = (upd_mem (\<lambda>_. m') p0)\<lparr>mach := (mach (upd_mem (\<lambda>_. m') p0))\<lparr>flushed := fl\<rparr>\<rparr>"
    by (simp add: p'_def p0_def m'_def upd_mem_def pmem_def)
  note ok' = shrunk_vm [OF L(1) flush_shrunk, of fl, folded P']
  have f: "pmem p' = m'" "root_of p' = root_of p" "cr3 (mach p') = cr3 (mach p)"
    by (simp_all add: p'_def m'_def upd_mem_def pmem_def root_of_def)
  show thesis
  proof (rule that [OF ok' l(3)])
    fix b :: u64 assume b: "in_region b"
    show "get_valid_page_entry (pmem p') (cr3 (mach p')) b = get_valid_page_entry (pmem p) (cr3 (mach p)) b"
      by (rule same_translation [OF b f(2)]) (simp_all add: f(1) L(2) rpath_region [OF b])
    fix i :: nat assume "i < 512"
    then have "word_at v (upd_mem (\<lambda>_. m') p0) b i = word_at v p0 b i" using L(3) b by blast
    moreover have "word_at v p' b i = word_at v (upd_mem (\<lambda>_. m') p0) b i"
      unfolding p'_def p0_def by (simp add: word_at_def root_of_def pmem_def upd_mem_def m'_def split: option.split)
    ultimately show "word_at v p' b i = word_at v p b i" by (simp add: p0_def word_at_hand)
  qed (simp_all add: p'_def upd_mem_def)
qed

text \<open>
  \<open>free_address\<close> as a whole: the loops over the pages end, every page of the region is unmapped, every
  other page is translated as before.
\<close>

lemma free_address_ok:
  assumes ok: "vm_ok p F ns rs" and root: "unat PAGE_OFFSET \<le> unat (root_of p)"
    and r: "r \<in> set rs" "rstatus r = ALLOCATED" "unat (rsize r) \<le> 2 ^ 19"
    and q: "head_quiet (pmem p) (memory_allocations p) ns (raddr r)" "memory_allocations p - 24 \<notin> walk_words (pmem p) (root_of p)"
  obtains p' ns' rs' where "free_address (raddr r) p = returns p'"
    "vm_ok (p'\<lparr>clock_hand := memory_allocations p\<rparr>) F ns' rs'" "handed_out rs' = handed_out rs - {(raddr r, rsize r)}"
    "\<And>b. in_region b \<Longrightarrow> unat b \<in> vspan (raddr r, rsize r) \<Longrightarrow> get_valid_page_entry (pmem p') (cr3 (mach p')) b = 0"
    "\<And>b. in_region b \<Longrightarrow> unat b \<notin> vspan (raddr r, rsize r) \<Longrightarrow>
       get_valid_page_entry (pmem p') (cr3 (mach p')) b = get_valid_page_entry (pmem p) (cr3 (mach p)) b"
    "\<And>b i. in_region b \<Longrightarrow> unat b \<notin> vspan (raddr r, rsize r) \<Longrightarrow> get_valid_page_entry (pmem p) (cr3 (mach p)) b \<noteq> 0 \<Longrightarrow>
       i < 512 \<Longrightarrow> word_at v p' b i = word_at v p b i"
    "memory_allocations p' = memory_allocations p" "clock_hand p' = clock_hand p"
    "petmem_pool_list (mach p') = petmem_pool_list (mach p)"
proof -
  let ?h = "memory_allocations p" and ?paths = "(\<lambda>k. rpath (page_of (raddr r) k) 3) ` {0 ..< unat (rsize r)}"
  note R = vm_okD(9) [OF ok] and inv = vm_okD(10) [OF ok]
  obtain n where n: "n \<in> set ns" "reg_at (pmem p) n = r" using r(1) R by (auto simp: regions_def)
  then obtain xs ys where ns: "ns = xs @ n # ys" "reg_at (pmem p) n = r" by (meson split_list)
  have rs: "rs = map (reg_at (pmem p)) xs @ r # map (reg_at (pmem p)) ys" using R ns by (simp add: regions_def)
  have n0: "n \<noteq> 0" using R ns(1) by (auto simp: regions_def nodes_apart_def)
  have find: "find_region (pmem p) ?h (pmem p ?h) (raddr r) 0 = Some n"
    using find_region_node [of "pmem p" ?h xs n ys "map (reg_at (pmem p)) xs" r "map (reg_at (pmem p)) ys"] R inv ns(1) rs by simp
  obtain p1 where fr: "free_range n 0 p = returns p1" and s: "shrunk p p1 ?paths"
    and un: "\<And>k. k < unat (rsize r) \<Longrightarrow> table (pmem p1) (root_of p) (rpath (page_of (raddr r) k) 3) = None"
    using free_range_ok [OF ok _ ns(2) [symmetric] r(2,3) root, of 0] ns(1) by auto
  note ok1 = shrunk_vm [OF ok s] and d = shrunkD [OF s]
  have m1: "memory_allocations p1 = ?h" "clock_hand p1 = clock_hand p" "petmem_pool_list (mach p1) = petmem_pool_list (mach p)"
    using same_pools_fields [OF d(1)] same_poolsD(2) [OF d(1)] by simp_all
  have r1: "reg_at (pmem p1) n = r" using region_read(1) [OF ok ok1] ns by simp
  let ?p2 = "upd_mem (set_status n FREE) p1"
  have "reg_size (pmem ?p2) n = rsize r"
    using r1 arg_cong [OF reg_at_sets(1) [of n FREE "pmem p1"], of rsize] by (simp add: upd_mem_def pmem_def reg_at_def)
  then obtain fl where fl: "flush_range n 0 ?p2 = returns (?p2\<lparr>mach := (mach ?p2)\<lparr>flushed := fl\<rparr>\<rparr>)"
    using flush_range_ok [of ?p2 n 0] r(3) by auto
  have "pmem p1 (?h - 24) = pmem p (?h - 24)" "pmem p1 (?h - 8) = pmem p (?h - 8)"
    using d(2) q(2) walk_words_guarded(2) [OF ok] by (auto simp: list_words_def)
  then have q1: "head_quiet (pmem p1) (memory_allocations p1) ns (raddr r)"
    using q(1) m1(1) by (simp add: head_quiet_def reg_page_addr_def reg_status_def list_entry_def)
  let ?p' = "upd_mem (merge_regions n (raddr r)) (?p2\<lparr>mach := (mach ?p2)\<lparr>flushed := fl\<rparr>\<rparr>)"
  obtain ns' rs' where L: "vm_ok (?p'\<lparr>clock_hand := memory_allocations p1\<rparr>) F ns' rs'" "handed_out rs' = handed_out rs - {(raddr r, rsize r)}"
    "\<And>b. in_region b \<Longrightarrow> get_valid_page_entry (pmem ?p') (cr3 (mach ?p')) b = get_valid_page_entry (pmem p1) (cr3 (mach p1)) b"
    "\<And>b i. in_region b \<Longrightarrow> i < 512 \<Longrightarrow> word_at v ?p' b i = word_at v p1 b i"
    "memory_allocations ?p' = memory_allocations p1" "clock_hand ?p' = clock_hand p1"
    "petmem_pool_list (mach ?p') = petmem_pool_list (mach p1)"
    using release_list [OF ok1 [unfolded ns(1) rs] _ q1 [unfolded ns(1)], of fl v] unfolding rs by (metis length_map)
  have in_paths: "rpath b 3 \<in> ?paths \<longleftrightarrow> unat b \<in> vspan (raddr r, rsize r)" if "in_region b" for b
    using region_pages(3) [OF inv r(1,2) that] by simp
  show thesis
  proof (rule that [of ?p', OF _ L(1) [unfolded m1] L(2) _ _ _ L(5-7) [unfolded m1]])
    show "free_address (raddr r) p = returns ?p'"
      using find n0 fr fl by (simp add: free_address_def Let_def)
    fix b :: u64 assume b: "in_region b"
    show "get_valid_page_entry (pmem ?p') (cr3 (mach ?p')) b = 0" if "unat b \<in> vspan (raddr r, rsize r)"
      using that un in_paths [OF b] L(3) [OF b] walk_entry_iff [OF ok1 b] d(7) by auto
    assume o: "unat b \<notin> vspan (raddr r, rsize r)"
    then have o': "rpath b 3 \<notin> ?paths" using in_paths [OF b] by simp
    note keep = shrunk_mapped [OF ok s b o']
    show "get_valid_page_entry (pmem ?p') (cr3 (mach ?p')) b = get_valid_page_entry (pmem p) (cr3 (mach p)) b"
      using keep(1) L(3) [OF b] by simp
    show "word_at v ?p' b i = word_at v p b i" if "get_valid_page_entry (pmem p) (cr3 (mach p)) b \<noteq> 0" "i < 512" for i
      using keep(2) [OF that] L(4) [OF b that(2)] by simp
  qed
qed

section \<open>Properties\<close>

text \<open>
  C6. A program that releases memory with \<open>pet_free\<close>: for a region of up to \<open>2 ^ 19\<close> pages that was handed out,
  the call comes back; the region is gone from those handed out and the list keeps its invariant; no address of it
  is mapped any more; every other address is translated as before, and the pages it reaches hold the words they
  held; the pools are as before (no page is returned to them). All of the invariant of the process
  is kept if the clock hand does not point at a node of the list that the merge has released. The list head
  must not look like a free region, which the code does not test.
\<close>

theorem pet_free_correct:
  assumes ok: "vm_ok p F ns rs" and root: "unat PAGE_OFFSET \<le> unat (root_of p)"
    and a: "(a, n) \<in> handed_out rs" "unat n \<le> 2 ^ 19"
    and q: "head_quiet (pmem p) (memory_allocations p) ns a" "memory_allocations p - 24 \<notin> walk_words (pmem p) (root_of p)"
  shows "\<exists>p' ns' rs'. pet_free v us k a p u = returns (p', u) \<and>
    regions (pmem p') (memory_allocations p') ns' rs' \<and> vspace_inv rs' \<and> handed_out rs' = handed_out rs - {(a, n)} \<and>
    (\<forall>b. in_region b \<and> unat b \<in> vspan (a, n) \<longrightarrow> get_valid_page_entry (pmem p') (cr3 (mach p')) b = 0) \<and>
    (\<forall>b. in_region b \<and> unat b \<notin> vspan (a, n) \<longrightarrow>
       get_valid_page_entry (pmem p') (cr3 (mach p')) b = get_valid_page_entry (pmem p) (cr3 (mach p)) b) \<and>
    (\<forall>b i. in_region b \<and> unat b \<notin> vspan (a, n) \<and> get_valid_page_entry (pmem p) (cr3 (mach p)) b \<noteq> 0 \<and> i < 512 \<longrightarrow>
       word_at v p' b i = word_at v p b i) \<and>
    petmem_pool_list (mach p') = petmem_pool_list (mach p) \<and>
    (clock_hand p \<in> insert (memory_allocations p) (lnode ` set ns') \<longrightarrow> vm_ok p' F ns' rs')"
proof -
  obtain r where r: "r \<in> set rs" "rstatus r = ALLOCATED" "a = raddr r" "n = rsize r"
    using a(1) by (auto simp: handed_out_def)
  obtain p' ns' rs' where f: "free_address a p = returns p'"
    "vm_ok (p'\<lparr>clock_hand := memory_allocations p\<rparr>) F ns' rs'" "handed_out rs' = handed_out rs - {(a, n)}"
    "\<And>b. in_region b \<Longrightarrow> unat b \<in> vspan (a, n) \<Longrightarrow> get_valid_page_entry (pmem p') (cr3 (mach p')) b = 0"
    "\<And>b. in_region b \<Longrightarrow> unat b \<notin> vspan (a, n) \<Longrightarrow>
       get_valid_page_entry (pmem p') (cr3 (mach p')) b = get_valid_page_entry (pmem p) (cr3 (mach p)) b"
    "\<And>b i. in_region b \<Longrightarrow> unat b \<notin> vspan (a, n) \<Longrightarrow> get_valid_page_entry (pmem p) (cr3 (mach p)) b \<noteq> 0 \<Longrightarrow>
       i < 512 \<Longrightarrow> word_at v p' b i = word_at v p b i"
    "memory_allocations p' = memory_allocations p" "clock_hand p' = clock_hand p"
    "petmem_pool_list (mach p') = petmem_pool_list (mach p)"
    using free_address_ok [OF ok root r(1,2) _ q [unfolded r(3)], of v] a(2) unfolding r(3,4) by blast
  have "pet_free v us k a p u = returns (p', u)"
    using f(1) by (simp add: pet_free_def petmem_ioctl_def petmem_free_vspace_def ioctl_numbers)
  moreover have "regions (pmem p') (memory_allocations p') ns' rs'" "vspace_inv rs'"
    using vm_okD(9,10) [OF f(2)] f(7) by (simp_all add: pmem_def)
  moreover have "vm_ok p' F ns' rs'" if "clock_hand p \<in> insert (memory_allocations p) (lnode ` set ns')"
    using vm_ok_hand_back [OF f(2)] that f(7,8) by simp
  ultimately show ?thesis using f(3-6,9) by blast
qed

theorem pet_free_correct_witness:
  "\<exists>p' rs'. pet_free (array_vfs 0) plain_program demo_kalloc 0x1000000000 demo_process (\<lambda>_. 0) = returns (p', \<lambda>_. 0) \<and>
     vspace_inv rs' \<and> handed_out rs' = {}"
proof -
  have h: "(0x1000000000, 3) \<in> handed_out demo_rs" "handed_out demo_rs = {(0x1000000000, 3)}"
    by (simp_all add: demo_rs_def handed_out_Cons)
  have m: "pmem demo_process x = demo_tables x" if "x < 0x10000" for x
    by (rule demo_low) (use that in \<open>simp add: va_def PAGE_OFFSET_def word_less_nat_alt\<close>)
  have q: "head_quiet (pmem demo_process) (memory_allocations demo_process) [0x6000, 0x6100] 0x1000000000"
    by (simp add: head_quiet_def demo_fields reg_page_addr_def reg_status_def list_entry_def m demo_tables_def FREE_def
        region_words_def node_words_def va_def PAGE_OFFSET_def)
  have w: "memory_allocations demo_process - 24 \<notin> walk_words (pmem demo_process) (root_of demo_process)"
  proof
    assume "memory_allocations demo_process - 24 \<in> walk_words (pmem demo_process) (root_of demo_process)"
    then show False
      using demo_pages(1) by (auto simp: walk_words_def demo_fields byte_range_def va_def PAGE_OFFSET_def)
  qed
  have root: "unat PAGE_OFFSET \<le> unat (root_of demo_process)" by (simp add: demo_fields va_def)
  show ?thesis
    using pet_free_correct [OF demo_vm root h(1) _ q w, of "array_vfs 0" plain_program demo_kalloc "\<lambda>_. 0"] h(2) by auto
qed

text \<open>
  C35. Releasing a page can destroy other pages. When the page released is the only one of its page table that is
  in memory, the table goes with it: a swapped-out page of the same table, in the same region or in another, had its
  slot recorded there, and afterwards its content cannot be found. The next use of its address is answered
  with a page of zeros.
\<close>

theorem release_loses_swapped:
  assumes ok: "vm_ok p F ns rs" and a: "in_region a" and root: "unat PAGE_OFFSET \<le> unat (root_of p)"
    and e: "e = get_valid_page_entry (pmem p) (cr3 (mach p)) a" "e \<noteq> 0"
    and pt: "table (pmem p) (root_of p) (rpath a 2) = Some pt"
    and last: "\<forall>j < 512. pt + of_nat j * 8 \<noteq> e \<longrightarrow> \<not> present (pmem p) (pt + of_nat j * 8)"
    and b: "rpath b 2 = rpath a 2" "swapped (pmem p) (root_of p) b k"
  shows "\<exists>p'. attempt_free_physical_address a p = Inr p' \<and>
    (\<forall>k. \<not> swapped (pmem p') (root_of p') b k) \<and> (\<forall>i. word_at v p' b i = None)"
proof -
  obtain p' where p': "attempt_free_physical_address a p = Inr p'" "shrunk p p' {rpath a 3}"
    by (rule attempt_free_shrinks [OF ok a root])
  have "table (pmem p') (root_of p') (rpath b 2) = None"
    using release_drops_table [OF ok a root e pt last p'(1)] shrunkD(7) [OF p'(2)] b(1) by simp
  then show ?thesis using p'(1) by (simp add: swapped_def word_at_def entry_of_leaf)
qed

text \<open>The example process with its second page swapped out to slot 0.\<close>

definition demo_swapped :: "(nat \<Rightarrow> u8) process" where
  "demo_swapped = upd_mem (\<lambda>m. m(va 0x4008 := 0x40)) demo_process"

lemma table_not_present:
  assumes "\<And>x. m' x \<noteq> m x \<Longrightarrow> \<not> present m x \<and> \<not> present m' x"
  shows "table m' root \<rho> = table m root \<rho>"
proof -
  have c: "present m' x = present m x" "present m x \<Longrightarrow> entry_table m' x = entry_table m x" for x
    using assms [of x] entry_cong(2,3) [of m' x m] by auto
  show ?thesis by (induction \<rho>) (auto simp: table.simps c split: option.split)
qed

lemma swapped_word:
  "get_field pte64 ''present'' 0x40 = 0" "get_field pte64 ''dirty'' 0x40 = 1" "get_field pte64 ''page_base_addr'' 0x40 = 0"
  by code_simp+

lemma demo_swapped_tables:
  "\<rho> \<in> region_paths \<Longrightarrow> table (pmem demo_swapped) (va 0) \<rho> = table (pmem demo_process) (va 0) \<rho>"
  "vm_ok demo_swapped {0x106000} [0x6000, 0x6100] demo_rs" "root_of demo_swapped = va 0" "cr3 (mach demo_swapped) = 0"
proof -
  show r: "root_of demo_swapped = va 0" "cr3 (mach demo_swapped) = 0"
    by (simp_all add: demo_swapped_def demo_fields)
  have m: "pmem demo_swapped = (pmem demo_process)(va 0x4008 := 0x40)" by (simp add: demo_swapped_def upd_mem_def pmem_def)
  have "pmem demo_process (va 0x4008) = demo_tables (va 0x4008)" by (rule demo_low) (simp add: va_def PAGE_OFFSET_def)
  then have o: "pmem demo_process (va 0x4008) = 0" by (simp add: demo_tables_def va_def PAGE_OFFSET_def)
  have z: "\<not> present (pmem demo_process) (va 0x4008)" "\<not> present (pmem demo_swapped) (va 0x4008)"
    using o demo_field(1) by (simp_all add: present_def entry_get_def swapped_word m)
  show t: "table (pmem demo_swapped) (va 0) \<rho> = table (pmem demo_process) (va 0) \<rho>" for \<rho>
    by (rule table_not_present) (use z in \<open>auto simp: m split: if_splits\<close>)
  have "va 0x4008 \<in> walk_words (pmem demo_process) (va 0)"
  proof -
    have "rpath 0x1000000000 2 = [0, 64]" by code_simp
    then have "[0, 64] \<in> region_paths"
      using rpath_region [of "0x1000000000" 2] by (simp add: in_region_def PETMEM_REGION_START_def PETMEM_REGION_END_def)
    then have "va 0x4000 \<in> table_pages (pmem demo_process) (va 0)" using demo_table [of "[0, 64]"] by (auto simp: table_pages_def intro!: bexI [of _ "[0, 64]"])
    moreover have "va 0x4008 \<in> page_at (va 0x4000)" by (simp add: byte_range_def va_def PAGE_OFFSET_def)
    ultimately show ?thesis by (auto simp: walk_words_def)
  qed
  then have "shrunk demo_process demo_swapped {}"
    using t by (auto simp: shrunk_def same_pools_def demo_fields m) (auto simp: demo_swapped_def upd_mem_def pmem_def)
  then show "vm_ok demo_swapped {0x106000} [0x6000, 0x6100] demo_rs" by (rule shrunk_vm [OF demo_vm])
qed

theorem release_loses_swapped_witness:
  "swapped (pmem demo_swapped) (root_of demo_swapped) 0x1000001000 0 \<and>
   (\<exists>p'. attempt_free_physical_address 0x1000000000 demo_swapped = Inr p' \<and> word_at (array_vfs 0) p' 0x1000001000 0 = None)"
proof -
  have a: "in_region 0x1000000000" by (simp add: in_region_def PETMEM_REGION_START_def PETMEM_REGION_END_def)
  have r: "unat PAGE_OFFSET \<le> unat (root_of demo_swapped)" by (simp add: demo_swapped_tables va_def)
  have P: "rpath 0x1000000000 3 = [0, 0, 64]" "rpath 0x1000000000 2 = [0, 64]" "rpath 0x1000001000 2 = [0, 64]"
    "PTE64_INDEX 0x1000000000 = 0" "PTE64_INDEX 0x1000001000 = 1" by code_simp+
  note T = demo_swapped_tables(1) [OF rpath_region [OF a]] demo_table [OF rpath_region [OF a]]
  have t: "table (pmem demo_swapped) (va 0) (rpath 0x1000000000 3) = Some (va 0x106000)"
    "table (pmem demo_swapped) (va 0) (rpath 0x1000000000 2) = Some (va 0x4000)"
    using T [of 3] T [of 2] by (simp_all add: P)
  have e: "get_valid_page_entry (pmem demo_swapped) (cr3 (mach demo_swapped)) 0x1000000000 = va 0x4000"
    using walk_by_tables [OF a, of demo_swapped] t by (simp add: demo_swapped_tables P)
  have m: "pmem demo_swapped = (pmem demo_process)(va 0x4008 := 0x40)" by (simp add: demo_swapped_def upd_mem_def pmem_def)
  have n: "\<forall>j < 512. va 0x4000 + of_nat j * 8 \<noteq> va 0x4000 \<longrightarrow> \<not> present (pmem demo_swapped) (va 0x4000 + of_nat j * 8)"
  proof (intro allI impI)
    fix j :: nat assume j: "j < 512" "va 0x4000 + of_nat j * 8 \<noteq> va 0x4000"
    have "unat (of_nat j :: u64) < 512" using j(1) unat_of_nat_u64 [of j] by simp
    then have "pmem demo_process (va 0x4000 + of_nat j * 8) = 0" using demo_entry [of "0x4000" "of_nat j"] j(2) by auto
    then show "\<not> present (pmem demo_swapped) (va 0x4000 + of_nat j * 8)"
      using demo_field(1) [of "pmem demo_process"] by (simp add: present_def entry_get_def swapped_word m)
  qed
  have "entry_of (pmem demo_swapped) (va 0) (rpath 0x1000001000 3) = Some (va 0x4008)"
    using t(2) by (simp add: entry_of_leaf P del: rpath_simps) (simp add: va_def)
  then have s: "swapped (pmem demo_swapped) (root_of demo_swapped) 0x1000001000 0"
    by (simp add: swapped_def demo_swapped_tables(3) m present_def entry_get_def swapped_word)
  have "va 0x4000 \<noteq> 0" by (simp add: va_def PAGE_OFFSET_def)
  then show ?thesis
    using release_loses_swapped [OF demo_swapped_tables(2) a r e [symmetric] _ _ n, of "0x1000001000" 0 "array_vfs 0"] t(2) s
    by (auto simp: P demo_swapped_tables)
qed

end
