(* ===== verification/Program.thy ===== *)
theory Program
  imports Release_Region
begin

text \<open>
  The memory of the module as a program sees it. A program loads and stores words; where the processor finds
  no page, the signal handler of the harness asks the module for it and the access is tried again. With frames to
  spare the program cannot tell this from an array of words.
\<close>

section \<open>Accesses\<close>

text \<open>
  What the processor does with an access: the translation by the tables, the flags it sets in the entry
  of the page, and the word. \<open>None\<close> is a fault. Whether the entry permits the access is left out.
\<close>

datatype access = Load u64 | Store u64 u64

fun target :: "access \<Rightarrow> u64" where
  "target (Load a) = a"
| "target (Store a w) = a"

definition word_no :: "u64 \<Rightarrow> nat" where
  "word_no a = unat (take_bit 9 (drop_bit 3 a))"

fun touch :: "access \<Rightarrow> u64 \<Rightarrow> mem \<Rightarrow> u64 \<times> mem" where
  "touch (Load a) e m =
     (m (page_word (entry_table m e) (word_no a)), entry_set ''accessed'' 1 e m)"
| "touch (Store a w) e m =
     (w, (entry_set ''dirty'' 1 e (entry_set ''accessed'' 1 e m))(page_word (entry_table m e) (word_no a) := w))"

definition cpu :: "access \<Rightarrow> 'fs process \<Rightarrow> (u64 \<times> 'fs process) option" where
  "cpu op p = map_option (\<lambda>e. (fst (touch op e (pmem p)), upd_mem (\<lambda>m. snd (touch op e m)) p))
     (mmu_entry (pmem p) (cr3 (mach p)) (target op))"

text \<open>
  An access of the program, with the handler. The value is \<open>None\<close> when the handler raises the signal again,
  which ends the program. \<open>SEGV_MAPERR\<close> is the code of a fault at an address that is not mapped.
\<close>

definition SEGV_MAPERR :: u32 where "SEGV_MAPERR = 1"

partial_function (option) perform ::
    "'fs vfs \<Rightarrow> 'u user \<Rightarrow> kalloc \<Rightarrow> u64 \<Rightarrow> access \<Rightarrow> 'fs process \<Rightarrow> 'u \<Rightarrow> (u64 option \<times> 'fs process \<times> 'u) run" where
  "perform v us k sp op p u =
     (case cpu op p of
        Some (w, p') \<Rightarrow> returns (Some w, p', u)
      | None \<Rightarrow>
          (case segv_handler v us k sp SIGSEGV (target op) SEGV_MAPERR p u of
             None \<Rightarrow> None
           | Some (Inl e) \<Rightarrow> Some (Inl e)
           | Some (Inr (r, p1, u1)) \<Rightarrow>
               if r = Resignal then returns (None, p1, u1) else perform v us k sp op p1 u1))"

declare perform.simps [code]

fun run_program ::
    "'fs vfs \<Rightarrow> 'u user \<Rightarrow> kalloc \<Rightarrow> u64 \<Rightarrow> access list \<Rightarrow> 'fs process \<Rightarrow> 'u \<Rightarrow> (u64 list \<times> 'fs process \<times> 'u) run" where
  "run_program v us k sp [] p u = returns ([], p, u)"
| "run_program v us k sp (op # ops) p u =
     rbind (perform v us k sp op p u) (\<lambda>(r, p1, u1).
       case r of
         None \<Rightarrow> returns ([], p1, u1)
       | Some w \<Rightarrow> rbind (run_program v us k sp ops p1 u1) (\<lambda>(ws, p2, u2). returns (w # ws, p2, u2)))"

section \<open>The array\<close>

text \<open>The reference: words by their number, that is by their address without its three low bits.\<close>

fun array_step :: "access \<Rightarrow> (u64 \<Rightarrow> u64) \<Rightarrow> u64 \<times> (u64 \<Rightarrow> u64)" where
  "array_step (Load a) f = (f (drop_bit 3 a), f)"
| "array_step (Store a w) f = (w, f(drop_bit 3 a := w))"

fun array_run :: "access list \<Rightarrow> (u64 \<Rightarrow> u64) \<Rightarrow> u64 list \<times> (u64 \<Rightarrow> u64)" where
  "array_run [] f = ([], f)"
| "array_run (op # ops) f =
     (let (w, f1) = array_step op f; (ws, f2) = array_run ops f1 in (w # ws, f2))"

text \<open>The array a process stands for: a word that is neither in memory nor in the swap space is 0.\<close>

definition held :: "'fs vfs \<Rightarrow> 'fs process \<Rightarrow> u64 \<Rightarrow> nat \<Rightarrow> u64" where
  "held v p b i = (case word_at v p b i of None \<Rightarrow> 0 | Some w \<Rightarrow> w)"

definition words :: "'fs vfs \<Rightarrow> 'fs process \<Rightarrow> u64 \<Rightarrow> u64" where
  "words v p n =
     (let b = push_bit 3 n in if in_region b \<and> drop_bit 3 b = n then held v p b (unat (take_bit 9 n)) else 0)"

section \<open>Words and their addresses\<close>

lemma word_no_less: "word_no a < 512"
  unfolding word_no_def unsigned_take_bit_eq using take_bit_nat_less_exp [of 9] by simp

lemma aligned:
  "drop_bit 3 (push_bit 3 (drop_bit 3 a)) = drop_bit 3 a" "drop_bit 12 (push_bit 3 (drop_bit 3 a)) = drop_bit 12 a" for a :: u64
  using bit_imp_le_length [of a] by (auto intro!: bit_word_eqI simp: bit_simps)

lemma in_region_aligned: "in_region (push_bit 3 (drop_bit 3 a)) \<longleftrightarrow> in_region a"
proof -
  have u: "unat (push_bit 3 (drop_bit 3 a)) = 8 * (unat a div 8)"
    using unsigned_less [of a, where ?'a = nat] by (subst unat_push_bit) (simp_all add: unat_drop_bit)
  show ?thesis unfolding in_region_def word_le_nat_alt word_less_nat_alt u
    by (auto simp: PETMEM_REGION_START_def PETMEM_REGION_END_def)
qed

lemma words_at: "in_region a \<Longrightarrow> words v p (drop_bit 3 a) = held v p a (word_no a)"
proof -
  assume a: "in_region a"
  then have r: "rpath (push_bit 3 (drop_bit 3 a)) 3 = rpath a 3" using rpath_page in_region_aligned aligned(2) by blast
  have "held v p (push_bit 3 (drop_bit 3 a)) i = held v p a i" for i using word_at_path [OF r, of v p i] by (simp add: held_def)
  then show ?thesis using a by (simp add: words_def in_region_aligned word_no_def aligned(1) Let_def)
qed

text \<open>Two addresses name the same word exactly when they are on the same page and at the same place there.\<close>

lemma same_word:
  assumes a: "in_region a" and n: "in_region (push_bit 3 n)" "drop_bit 3 (push_bit 3 n) = n"
  shows "rpath (push_bit 3 n) 3 = rpath a 3 \<and> unat (take_bit 9 n) = word_no a \<longleftrightarrow> n = drop_bit 3 a"
proof
  assume h: "rpath (push_bit 3 n) 3 = rpath a 3 \<and> unat (take_bit 9 n) = word_no a"
  then have "drop_bit 12 (push_bit 3 n) = drop_bit 12 a" using rpath_page [OF n(1) a] by blast
  then have "drop_bit 9 (drop_bit 3 (push_bit 3 n)) = drop_bit 9 (drop_bit 3 a)" by simp
  moreover have "take_bit 9 n = take_bit 9 (drop_bit 3 a)" using h by (simp add: word_no_def word_unat_eq_iff)
  ultimately show "n = drop_bit 3 a" by (metis n(2) bits_ident)
next
  assume "n = drop_bit 3 a"
  then show "rpath (push_bit 3 n) 3 = rpath a 3 \<and> unat (take_bit 9 n) = word_no a"
    using rpath_page [OF n(1) a] aligned(2) by (simp add: word_no_def)
qed

lemma words_update:
  assumes a: "in_region a"
    and h: "\<And>b i. in_region b \<Longrightarrow> i < 512 \<Longrightarrow> held v p' b i = (if rpath b 3 = rpath a 3 \<and> i = word_no a then w else held v p b i)"
  shows "words v p' = (words v p)(drop_bit 3 a := w)"
proof
  fix n :: u64
  let ?b = "push_bit 3 n"
  have "unat (take_bit 9 n) < 512" unfolding unsigned_take_bit_eq using take_bit_nat_less_exp [of 9] by simp
  then show "words v p' n = ((words v p)(drop_bit 3 a := w)) n"
    using h [of ?b "unat (take_bit 9 n)"] same_word [OF a, of n] in_region_aligned [of a] aligned(1) [of a] a
    by (auto simp: words_def Let_def)
qed

section \<open>One access\<close>

lemma mmu_tables:
  assumes "in_region a"
  shows "mmu_entry (pmem p) (cr3 (mach p)) a =
    (case entry_of (pmem p) (root_of p) (rpath a 3) of None \<Rightarrow> None | Some e \<Rightarrow> if present (pmem p) e then Some e else None)"
proof -
  have "unat (drop_bit 39 a) = 0" using region_bounds [OF assms] by (simp add: unat_drop_bit)
  then have "take_bit 9 (drop_bit 39 a) = 0" by (simp add: unat_eq_zero)
  then show ?thesis
    unfolding mmu_entry_def root_of_def
    by (simp add: rpath_simps entry_of_simps table.simps entry_table_mask present_bit CR3_TO_PML4E64_VA_def index_defs and_masks Let_def va_def ac_simps
        split: option.splits)
qed

text \<open>A change of one word of a mapped page and of flags in its entry.\<close>

lemma user_update:
  assumes ok: "vm_ok p F ns rs" and a: "in_region a" and t: "table (pmem p) (root_of p) (rpath a 3) = Some t"
    and e: "entry_of (pmem p) (root_of p) (rpath a 3) = Some e" and i: "i < 512"
    and oth: "\<And>x. x \<notin> {e, page_word t i} \<Longrightarrow> m' x = pmem p x" and pr: "present m' e" "entry_table m' e = t"
  defines "p' \<equiv> upd_mem (\<lambda>_. m') p"
  shows "vm_ok p' F ns rs" "swap_inv v p {} \<Longrightarrow> swap_inv v p' {}"
    "in_region b \<Longrightarrow> j < 512 \<Longrightarrow> word_at v p' b j =
       (if rpath b 3 = rpath a 3 \<and> j = i then Some (m' (page_word t i)) else word_at v p b j)"
proof -
  let ?m = "pmem p" and ?r = "root_of p"
  note T = vm_okD(2) [OF ok] and up = user_page [OF ok a t]
  have pe: "present ?m e" "entry_table ?m e = t" using t e by (auto simp: table_entry split: if_splits)
  have wi: "page_word t i \<in> page_at t" using up(1) i by (intro page_word_in) (simp_all add: page_ok_def)
  then have wn: "page_word t i \<notin> walk_words ?m ?r" using up(4) by blast
  have ew: "e \<in> walk_words ?m ?r" by (rule entry_of_walk [OF T rpath_region [OF a] e])
  have see: "present m' x = present ?m x" "present ?m x \<Longrightarrow> entry_table m' x = entry_table ?m x" if "x \<in> walk_words ?m ?r" for x
    using that oth [of x] wn pr pe entry_cong(2,3) [of m' x ?m] by (cases "x = e"; fastforce)+
  have tab: "table m' ?r \<rho> = table ?m ?r \<rho>" if "\<rho> \<in> region_paths" for \<rho>
    using that
  proof (induction \<rho>)
    case Nil
    then show ?case using see [of ?r] by (simp add: table.simps walk_words_def)
  next
    case (Cons k \<pi>)
    note q = region_path_Cons [OF Cons.prems]
    show ?case
    proof (cases "table ?m ?r \<pi>")
      case (Some u)
      then have "entry_of ?m ?r (k # \<pi>) = Some (u + k * 8)" by (simp add: entry_of_simps)
      then show ?thesis
        using see [of "u + k * 8"] entry_of_walk [OF T Cons.prems] Cons.IH [OF q(1)] Some by (simp add: table.simps)
    qed (use Cons.IH [OF q(1)] in \<open>simp add: table.simps\<close>)
  qed
  note tc = tables_cong [OF tab]
  have g: "x \<in> guarded (mach p) F" "x \<notin> list_words p ns" if "x \<in> {e, page_word t i}" for x
  proof -
    have "page_at t \<subseteq> guarded (mach p) F" "page_at t \<inter> list_words p ns = {}"
      using frame_bytes_guarded [OF up(3)] frame_not_list(1) [OF ok up(3)] up(1) by (simp_all add: page_ok_def)
    then show "x \<in> guarded (mach p) F" "x \<notin> list_words p ns"
      using that wi walk_words_guarded [OF ok ew] by auto
  qed
  have "frames_ok ((mach p)\<lparr>kmem := m'\<rparr>) F"
    by (rule frames_ok_write [OF vm_okD(1) [OF ok]]) (use oth g(1) in \<open>auto simp: pmem_def\<close>)
  moreover have "regions m' (memory_allocations p) ns rs"
    by (rule regions_list_words [OF ok]) (use oth g(2) in blast)
  ultimately show "vm_ok p' F ns rs"
    using ok by (simp add: vm_ok_def p'_def tc(1-3))
  have sw: "swapped m' ?r b k = swapped ?m ?r b k" if b: "in_region b" for b k
  proof (cases "entry_of ?m ?r (rpath b 3)")
    case (Some x)
    then have xw: "x \<in> walk_words ?m ?r" by (rule entry_of_walk [OF T rpath_region [OF b]])
    show ?thesis
    proof (cases "present ?m x")
      case False
      then have "m' x = ?m x" using oth [of x] pe(1) wn xw by auto
      then show ?thesis using Some entry_cong [of m' x ?m] by (simp add: swapped_def tc(5) [OF _ b])
    qed (use Some see(1) [OF xw] in \<open>simp add: swapped_def tc(5) [OF _ b]\<close>)
  qed (simp add: swapped_def tc(5) [OF _ b])
  show "swap_inv v p' {}" if "swap_inv v p {}"
    using that sw unfolding swap_inv_def p'_def process_simps by metis
  assume b: "in_region b" and j: "j < 512"
  show "word_at v p' b j = (if rpath b 3 = rpath a 3 \<and> j = i then Some (m' (page_word t i)) else word_at v p b j)"
  proof (cases "table ?m ?r (rpath b 3)")
    case (Some u)
    note ub = user_page [OF ok b Some]
    have pj: "page_word u j \<in> page_at u" using ub(1) j by (intro page_word_in) (simp_all add: page_ok_def)
    then have "page_word u j \<noteq> e" using ub(4) ew by blast
    moreover have "page_word u j \<noteq> page_word t i" if "rpath b 3 \<noteq> rpath a 3"
    proof -
      have "u \<noteq> t" using tables_okD(3) [OF T rpath_region [OF a] t rpath_region [OF b]] Some that by blast
      then have "page_at u \<inter> page_at t = {}" by (rule page_ok_disjoint [OF ub(1) up(1)])
      then show ?thesis using pj wi by (metis disjoint_iff)
    qed
    moreover have "u = t" if "rpath b 3 = rpath a 3" using that Some t by simp
    moreover have "table (pmem p') (root_of p') (rpath b 3) = Some u" using tab [OF rpath_region [OF b]] Some by (simp add: p'_def)
    ultimately show ?thesis
      using oth [of "page_word u j"] Some page_word_inject [OF j i, of t] by (auto simp: word_at_mapped p'_def)
  next
    case None
    then have "rpath b 3 \<noteq> rpath a 3" using t by auto
    moreover have "word_at v p' b j = word_at v p b j"
    proof (cases "entry_of ?m ?r (rpath b 3)")
      case (Some x)
      then have np: "\<not> present ?m x" using None by (auto simp: table_entry split: if_splits)
      then have "m' x = ?m x" using oth [of x] pe(1) wn entry_of_walk [OF T rpath_region [OF b] Some] by auto
      then show ?thesis
        using Some np entry_cong [of m' x ?m] by (cases "swap p") (simp_all add: word_at_def p'_def tc(5) [OF _ b])
    qed (simp add: word_at_def p'_def tc(5) [OF _ b])
    ultimately show ?thesis by simp
  qed
qed

lemma touch_entry:
  assumes "page_word (entry_table m e) (word_no (target op)) \<noteq> e"
  shows "present (snd (touch op e m)) e = present m e" "entry_table (snd (touch op e m)) e = entry_table m e"
proof -
  let ?m1 = "entry_set ''accessed'' 1 e m" and ?m2 = "entry_set ''dirty'' 1 e (entry_set ''accessed'' 1 e m)"
  have 1: "present ?m1 e = present m e" "entry_table ?m1 e = entry_table m e"
    by (simp_all add: present_def entry_table_def entry_field_simps)
  have 2: "present ?m2 e = present m e" "entry_table ?m2 e = entry_table m e"
    by (simp_all add: present_def entry_table_def entry_field_simps)
  show "present (snd (touch op e m)) e = present m e" "entry_table (snd (touch op e m)) e = entry_table m e"
    using assms 1 2 entry_cong(2,3) [of "snd (touch op e m)" e ?m2] by (cases op; simp)+
qed

lemma cpu_ok:
  assumes ok: "vm_ok p F ns rs" and si: "swap_inv v p {}" and a: "in_region (target op)"
    and t: "table (pmem p) (root_of p) (rpath (target op) 3) \<noteq> None"
  obtains p' where "cpu op p = Some (fst (array_step op (words v p)), p')" "vm_ok p' F ns rs" "swap_inv v p' {}"
    "words v p' = snd (array_step op (words v p))" "spare (mach p') = spare (mach p)"
proof -
  obtain u e where u: "table (pmem p) (root_of p) (rpath (target op) 3) = Some u"
    "entry_of (pmem p) (root_of p) (rpath (target op) 3) = Some e" "present (pmem p) e" "entry_table (pmem p) e = u"
    using t by (auto simp: table_entry split: option.splits if_splits)
  let ?i = "word_no (target op)"
  define m' where "m' = snd (touch op e (pmem p))"
  let ?p = "upd_mem (\<lambda>_. m') p"
  have pg: "page_word u ?i \<noteq> e"
    using page_word_in(1) [of u ?i] user_page(1,4) [OF ok a u(1)] word_no_less entry_of_walk [OF vm_okD(2) [OF ok] rpath_region [OF a] u(2)]
    by (auto simp: page_ok_def)
  have m': "present m' e" "entry_table m' e = u"
    using touch_entry [of "pmem p" e op] u(3,4) pg by (simp_all add: m'_def)
  have oth: "m' x = pmem p x" if "x \<notin> {e, page_word u ?i}" for x
    using that u(4) by (cases op) (simp_all add: m'_def entry_set_def)
  have val: "m' (page_word u ?i) = (case op of Load _ \<Rightarrow> pmem p (page_word u ?i) | Store _ w \<Rightarrow> w)"
    using u(4) pg by (cases op) (simp_all add: m'_def entry_set_def)
  have U: "vm_ok ?p F ns rs" "swap_inv v ?p {}" by (rule user_update(1,2) [OF ok a u(1,2) word_no_less oth m']; use si in blast)+
  have W: "word_at v ?p b j =
      (if rpath b 3 = rpath (target op) 3 \<and> j = ?i then Some (m' (page_word u ?i)) else word_at v p b j)"
    if "in_region b" "j < 512" for b j
    by (rule user_update(3) [OF ok a u(1,2) word_no_less oth m' that])
  have now: "words v p (drop_bit 3 (target op)) = pmem p (page_word u ?i)"
    using words_at [OF a, of v p] word_at_mapped [OF u(1), of v ?i] by (simp add: held_def)
  have "words v ?p = (words v p)(drop_bit 3 (target op) := m' (page_word u ?i))"
    by (rule words_update [OF a]) (simp add: held_def W)
  then have w: "words v ?p = snd (array_step op (words v p))" using val now by (cases op) (auto simp: fun_eq_iff)
  have "mmu_entry (pmem p) (cr3 (mach p)) (target op) = Some e" using u(2,3) mmu_tables [OF a, of p] by simp
  then have "cpu op p = Some (fst (touch op e (pmem p)), ?p)" by (simp add: cpu_def m'_def upd_mem_def pmem_def)
  moreover have "fst (touch op e (pmem p)) = fst (array_step op (words v p))" using now u(4) by (cases op) simp_all
  ultimately show thesis using that U w by simp
qed

lemma cpu_fault: "in_region (target op) \<Longrightarrow> table (pmem p) (root_of p) (rpath (target op) 3) = None \<Longrightarrow> cpu op p = None"
  by (auto simp: cpu_def mmu_tables table_entry split: option.splits if_splits)

lemma mapped_words: "mapped v p a p' \<Longrightarrow> words v p' = words v p"
proof -
  assume m: "mapped v p a p'"
  have "held v p' b i = held v p b i" if "in_region b" "i < 512" for b i
    using m that word_at_path [of b a v p i] by (auto simp: mapped_def held_def)
  moreover have "unat (take_bit 9 n) < 512" for n :: u64
    unfolding unsigned_take_bit_eq using take_bit_nat_less_exp [of 9] by simp
  ultimately show ?thesis by (simp add: words_def fun_eq_iff Let_def)
qed

text \<open>One access of the program, fault and all.\<close>

lemma perform_ok:
  assumes ok: "vm_ok p F ns rs" and si: "swap_inv v p {}" and h: "\<exists>r \<in> set rs. holds (target op) r"
    and us: "user_struct us sp 12" and buf: "length (page_buffer k) = 4096" and room: "4 * 4096 * Suc n \<le> card (spare (mach p) F)"
  obtains p' u' F' where "perform v us k sp op p u = returns (Some (fst (array_step op (words v p))), p', u')"
    "vm_ok p' F' ns rs" "swap_inv v p' {}" "words v p' = snd (array_step op (words v p))" "4 * 4096 * n \<le> card (spare (mach p') F')"
proof -
  have a: "in_region (target op)" using h region_addr(3) [OF vm_okD(10) [OF ok]] by blast
  show thesis
  proof (cases "table (pmem p) (root_of p) (rpath (target op) 3)")
    case (Some t)
    obtain p' where "cpu op p = Some (fst (array_step op (words v p)), p')" "vm_ok p' F ns rs" "swap_inv v p' {}"
      "words v p' = snd (array_step op (words v p))" "spare (mach p') = spare (mach p)"
      by (rule cpu_ok [OF ok si a]) (use Some in simp_all)
    then show thesis using that [of p' u F] room by (simp add: perform.simps [of v us k sp op p])
  next
    case None
    have ec: "SEGV_MAPERR \<noteq> ERROR_PERMISSION" by (simp add: SEGV_MAPERR_def ERROR_PERMISSION_def)
    have sup: "supplied v p F ns (target op) 0" using room_for_all [of p F] room by (simp add: supplied_def)
    obtain p1 F1 where 1: "petmem_handle_pagefault v (page_buffer k) (target op) SEGV_MAPERR p = returns (0, p1)"
      "vm_ok p1 F1 ns rs" "mapped v p (target op) p1" "card (spare (mach p) F) \<le> card (spare (mach p1) F1) + 4 * 4096"
      by (rule pagefault_spends [OF ok si h ec buf sup])
    obtain u1 where hd: "segv_handler v us k sp SIGSEGV (target op) SEGV_MAPERR p u = returns (Resume, p1, u1)"
      using segv_handler_ioctl [OF us 1(1)] by auto
    have m: "swap_inv v p1 {}" "table (pmem p1) (root_of p1) (rpath (target op) 3) \<noteq> None" using 1(3) unfolding mapped_def by blast+
    obtain p' where c: "cpu op p1 = Some (fst (array_step op (words v p1)), p')" "vm_ok p' F1 ns rs" "swap_inv v p' {}"
      "words v p' = snd (array_step op (words v p1))" "spare (mach p') = spare (mach p1)"
      by (rule cpu_ok [OF 1(2) m(1) a m(2)])
    have "perform v us k sp op p1 u1 = returns (Some (fst (array_step op (words v p1))), p', u1)"
      using c(1) by (simp add: perform.simps [of v us k sp op p1])
    then have "perform v us k sp op p u = returns (Some (fst (array_step op (words v p))), p', u1)"
      using hd cpu_fault [OF a None] mapped_words [OF 1(3)] by (simp add: perform.simps [of v us k sp op p])
    moreover have "4 * 4096 * n \<le> card (spare (mach p') F1)" using room 1(4) c(5) by simp
    ultimately show thesis using that c(2-4) mapped_words [OF 1(3)] by simp
  qed
qed

section \<open>Property\<close>



end
