(* ===== verification/User_Tool.thy ===== *)
theory User_Tool
  imports Ioctl "HOL-Library.Signed_Division"
begin

text \<open>
  The control utility of \<open>user/petmem.c\<close>: it takes memory blocks offline through the files under
  \<open>/sys/devices/system/memory\<close> and gives the range to the module with \<open>ADD_MEMORY\<close>. The files are a
  parameter. Block numbers are natural numbers: the kernel's are far below \<open>2 ^ 31\<close>.
\<close>

section \<open>The environment\<close>

text \<open>
  Reading the size of a block, reading and writing the files of a block, listing the directory and
  opening the module's device; \<open>None\<close> when a file cannot be opened or read. \<open>'os\<close> is the state of
  the system.
\<close>

record 'os sysfs =
  read_block_size :: "'os \<Rightarrow> string option"
  dir_names :: "'os \<Rightarrow> string list"
  read_removable :: "string \<Rightarrow> 'os \<Rightarrow> string option"
  read_state :: "nat \<Rightarrow> 'os \<Rightarrow> string option"
  write_state :: "nat \<Rightarrow> string \<Rightarrow> 'os \<Rightarrow> 'os option"
  open_device :: "'os \<Rightarrow> bool"

text \<open>How a part of the program ends: with a value, with \<open>return -1\<close>, or in a wild access or division by 0.\<close>

datatype 'a tool = Finished 'a | Exit_failure | Crash

section \<open>Names\<close>

definition dir_filter :: "string \<Rightarrow> bool" where
  "dir_filter d_name \<longleftrightarrow> take 6 d_name = ''memory''"

definition is_digit :: "char \<Rightarrow> bool" where
  "is_digit c \<longleftrightarrow> of_char c \<in> {48 .. 57 :: nat}"

definition digits_value :: "string \<Rightarrow> int" where
  "digits_value s = foldl (\<lambda>n c. 10 * n + (of_char c - 48)) 0 (takeWhile is_digit s)"

definition hex_digit :: "char \<Rightarrow> int option" where
  "hex_digit c =
     (let n = of_char c
      in if n \<in> {48 .. 57} then Some (n - 48) else if n \<in> {97 .. 102} then Some (n - 87)
         else if n \<in> {65 .. 70} then Some (n - 55) else None)"

definition hex_value :: "string \<Rightarrow> int" where
  "hex_value s = foldl (\<lambda>n c. 16 * n + the (hex_digit c)) 0 (takeWhile (\<lambda>c. hex_digit c \<noteq> None) s)"

definition is_space :: "char \<Rightarrow> bool" where
  "is_space c \<longleftrightarrow> of_char c \<in> {9 .. 13 :: nat} \<union> {32}"

text \<open>\<open>atoi\<close>, also for \<open>atoll\<close>, and \<open>strtoll\<close> to base 16; the numbers read are taken to fit their type.\<close>

definition signed_value :: "(string \<Rightarrow> int) \<Rightarrow> string \<Rightarrow> int" where
  "signed_value f s =
     (case dropWhile is_space s of
        [] \<Rightarrow> 0
      | c # cs \<Rightarrow> if c = CHR ''-'' then - f cs else if c = CHR ''+'' then f cs else f (c # cs))"

definition atoi :: "string \<Rightarrow> int" where
  "atoi = signed_value digits_value"

definition strtoll16 :: "string \<Rightarrow> int" where
  "strtoll16 =
     signed_value (\<lambda>s. hex_value (if take 2 s \<in> {''0x'', ''0X''} \<and> hex_value (drop 2 s) \<noteq> 0 then drop 2 s else s))"

definition dir_cmp :: "string \<Rightarrow> string \<Rightarrow> int" where
  "dir_cmp d1 d2 = atoi (drop 6 d1) - atoi (drop 6 d2)"

text \<open>\<open>scandir\<close>: the names that pass the filter, sorted.\<close>

fun insert_dir :: "string \<Rightarrow> string list \<Rightarrow> string list" where
  "insert_dir d [] = [d]"
| "insert_dir d (e # es) = (if dir_cmp d e \<le> 0 then d # e # es else e # insert_dir d es)"

definition scandir :: "string list \<Rightarrow> string list" where
  "scandir names = foldr insert_dir (filter dir_filter names) []"

section \<open>The bitmap of removable blocks\<close>

definition num_blocks_of :: "u64 \<Rightarrow> u32 \<Rightarrow> int" where
  "num_blocks_of mem_size_bytes block_size_bytes =
     (let n = ucast (mem_size_bytes div ucast block_size_bytes) :: u32
      in sint (if mem_size_bytes mod ucast block_size_bytes \<noteq> 0 then n + 1 else n))"

definition removable :: "u8 list \<Rightarrow> nat \<Rightarrow> bool" where
  "removable bitmap i \<longleftrightarrow> bit (bitmap ! (i div 8)) (i mod 8)"

definition set_removable :: "nat \<Rightarrow> u8 list \<Rightarrow> u8 list" where
  "set_removable i bitmap = bitmap[i div 8 := (bitmap ! (i div 8)) OR push_bit (i mod 8) 1]"

definition clear_removable :: "nat \<Rightarrow> u8 list \<Rightarrow> u8 list" where
  "clear_removable i bitmap = bitmap[i div 8 := (bitmap ! (i div 8)) AND NOT (push_bit (i mod 8) 1)]"

fun mark_loop :: "'os sysfs \<Rightarrow> 'os \<Rightarrow> int \<Rightarrow> string list \<Rightarrow> int \<Rightarrow> u8 list \<Rightarrow> u8 list tool" where
  "mark_loop sys st bitmap_entries [] j bitmap = (if j < bitmap_entries - 1 then Crash else Finished bitmap)"
| "mark_loop sys st bitmap_entries (d # ds) j bitmap =
     (if j < bitmap_entries - 1 then
        let j' = atoi (drop 6 d)
        in case read_removable sys d st of
             None \<Rightarrow> Exit_failure
           | Some status_str \<Rightarrow>
               if atoi status_str = 1 then
                 if 0 \<le> j' \<and> nat j' div 8 < length bitmap
                 then mark_loop sys st bitmap_entries ds j' (set_removable (nat j') bitmap) else Crash
               else mark_loop sys st bitmap_entries ds j' bitmap
      else Finished bitmap)"

text \<open>The number of blocks and the bitmap; \<open>malloc\<close> of a negative size fails.\<close>

definition removable_blocks :: "'os sysfs \<Rightarrow> 'os \<Rightarrow> (nat \<times> u8 list) tool" where
  "removable_blocks sys st =
     (let namelist = scandir (dir_names sys st)
      in if namelist = [] then Crash
         else let bitmap_entries = atoi (drop 6 (last namelist)) + 1;
                  size = bitmap_entries sdiv 8 + (if bitmap_entries smod 8 \<noteq> 0 then 1 else 0)
              in if size < 0 then Exit_failure
                 else case mark_loop sys st bitmap_entries namelist 0 (replicate (nat size) 0) of
                   Finished bitmap \<Rightarrow> Finished (nat bitmap_entries, bitmap)
                 | Exit_failure \<Rightarrow> Exit_failure
                 | Crash \<Rightarrow> Crash)"

section \<open>Finding a run of blocks and taking it offline\<close>

text \<open>The scan: result \<open>reg_start\<close> and \<open>run_len\<close>.\<close>

function scan_run :: "u8 list \<Rightarrow> nat \<Rightarrow> int \<Rightarrow> nat \<Rightarrow> nat \<Rightarrow> nat \<Rightarrow> nat \<times> nat" where
  "scan_run bitmap bitmap_entries nblocks i reg_start run_len =
     (if i < bitmap_entries then
        if \<not> removable bitmap i then scan_run bitmap bitmap_entries nblocks (i + 1) (i + 1) 0
        else if nblocks \<le> int (run_len + 1) then (reg_start, run_len + 1)
        else scan_run bitmap bitmap_entries nblocks (i + 1) reg_start (run_len + 1)
      else (reg_start, run_len))"
  by pat_completeness auto
termination by (relation "measure (\<lambda>(_, n, _, i, _). n - i)") auto

declare scan_run.simps [simp del]

text \<open>Blocks \<open>reg_start + i\<close> to \<open>reg_start + k - 1\<close> are put into a state.\<close>

function put_states :: "'os sysfs \<Rightarrow> string \<Rightarrow> nat \<Rightarrow> int \<Rightarrow> nat \<Rightarrow> 'os \<Rightarrow> 'os option" where
  "put_states sys what reg_start k i st =
     (if int i < k then
        case write_state sys (i + reg_start) what st of
          None \<Rightarrow> None
        | Some st1 \<Rightarrow> put_states sys what reg_start k (i + 1) st1
      else Some st)"
  by pat_completeness auto
termination by (relation "measure (\<lambda>(_, _, _, k, i, _). nat (k - int i))") auto

declare put_states.simps [simp del]

text \<open>The check that the blocks went offline: \<open>mem_ready\<close>, the bitmap and the system.\<close>

function check_offline :: "'os sysfs \<Rightarrow> nat \<Rightarrow> int \<Rightarrow> nat \<Rightarrow> u8 list \<Rightarrow> 'os \<Rightarrow> (bool \<times> u8 list \<times> 'os) option" where
  "check_offline sys reg_start nblocks i bitmap st =
     (if int i < nblocks then
        case read_state sys (i + reg_start) st of
          None \<Rightarrow> None
        | Some status_buf \<Rightarrow>
            if take 7 status_buf \<noteq> ''offline'' then
              map_option (\<lambda>st1. (False, clear_removable (i + reg_start) bitmap, st1))
                (put_states sys (''online'' @ [CHR 0x0A]) reg_start (int i) 0 st)
            else check_offline sys reg_start nblocks (i + 1) bitmap st
      else Some (True, bitmap, st))"
  by pat_completeness auto
termination by (relation "measure (\<lambda>(_, _, n, i, _). nat (n - int i))") auto

declare check_offline.simps [simp del]

text \<open>\<open>while (!mem_ready)\<close>; \<open>reg_start\<close> keeps its value from one round to the next.\<close>

partial_function (option) find_memory ::
    "'os sysfs \<Rightarrow> nat \<Rightarrow> int \<Rightarrow> nat \<Rightarrow> u8 list \<Rightarrow> 'os \<Rightarrow> (nat \<times> 'os) tool option" where
  "find_memory sys bitmap_entries nblocks reg_start bitmap st =
     (let (reg_start1, run_len) = scan_run bitmap bitmap_entries nblocks 0 reg_start 0
      in if int run_len < nblocks then Some Exit_failure
         else case put_states sys (''offline'' @ [CHR 0x0A]) reg_start1 nblocks 0 st of
                None \<Rightarrow> Some Exit_failure
              | Some st1 \<Rightarrow>
                  case check_offline sys reg_start1 nblocks 0 bitmap st1 of
                    None \<Rightarrow> Some Exit_failure
                  | Some (mem_ready, bitmap1, st2) \<Rightarrow>
                      if mem_ready then Some (Finished (reg_start1, st2))
                      else find_memory sys bitmap_entries nblocks reg_start1 bitmap1 st2)"

declare find_memory.simps [code]

text \<open>The range passed to the module.\<close>

definition tool_range :: "nat \<Rightarrow> int \<Rightarrow> u32 \<Rightarrow> memory_range" where
  "tool_range reg_start nblocks block_size_bytes =
     \<lparr>mr_base_addr = of_nat reg_start * ucast block_size_bytes,
      mr_pages = (of_int nblocks * ucast block_size_bytes) div 4096\<rparr>"

definition give_memory :: "'os sysfs \<Rightarrow> int \<Rightarrow> u32 \<Rightarrow> (nat \<times> 'os) tool \<Rightarrow> (memory_range \<times> 'os) tool" where
  "give_memory sys nblocks block_size_bytes r =
     (case r of
        Finished (reg_start, st) \<Rightarrow>
          if open_device sys st then Finished (tool_range reg_start nblocks block_size_bytes, st) else Exit_failure
      | Exit_failure \<Rightarrow> Exit_failure
      | Crash \<Rightarrow> Crash)"

text \<open>\<open>main\<close>: the result is the range of the \<open>ADD_MEMORY\<close> request it ends with.\<close>

definition petmem_tool :: "'os sysfs \<Rightarrow> string list \<Rightarrow> 'os \<Rightarrow> (memory_range \<times> 'os) tool option" where
  "petmem_tool sys argv st =
     (if length argv \<noteq> 2 then Some Exit_failure
      else case read_block_size sys st of
        None \<Rightarrow> Some Exit_failure
      | Some tmp_buf \<Rightarrow>
          let mem_size_bytes = of_int (atoi (argv ! 1)) * (1024 * 1024) :: u64;
              block_size_bytes = of_int (strtoll16 tmp_buf) :: u32;
              nblocks = num_blocks_of mem_size_bytes block_size_bytes
          in if block_size_bytes = 0 then Some Crash
             else case removable_blocks sys st of
               Exit_failure \<Rightarrow> Some Exit_failure
             | Crash \<Rightarrow> Some Crash
             | Finished (bitmap_entries, bitmap) \<Rightarrow>
                 map_option (give_memory sys nblocks block_size_bytes)
                   (find_memory sys bitmap_entries nblocks 0 bitmap st))"

section \<open>The scan\<close>

definition run_at :: "u8 list \<Rightarrow> nat \<Rightarrow> int \<Rightarrow> nat \<Rightarrow> bool" where
  "run_at bitmap entries n r \<longleftrightarrow> int r + n \<le> int entries \<and> (\<forall>j. r \<le> j \<and> int j < int r + n \<longrightarrow> removable bitmap j)"

text \<open>Some of the first \<open>n\<close> blocks is not removable: then a start left over from the round before is overwritten.\<close>

definition gap :: "u8 list \<Rightarrow> nat \<Rightarrow> int \<Rightarrow> bool" where
  "gap bitmap entries n \<longleftrightarrow> (\<exists>j < entries. int j < n \<and> \<not> removable bitmap j)"

lemma scan_run_finds:
  assumes "scan_run bitmap entries n i start len = (r, l)" "n \<le> int l" "int len < n"
    and "(start + len = i \<and> (\<forall>j. start \<le> j \<and> j < i \<longrightarrow> removable bitmap j)) \<or>
      (len = i \<and> (\<forall>j < i. removable bitmap j) \<and> gap bitmap entries n)"
    and "gap bitmap entries n \<or> (start = 0 \<and> len = i)"
  shows "run_at bitmap entries n r \<and> (r = 0 \<or> gap bitmap entries n)"
  using assms
proof (induction bitmap entries n i start len rule: scan_run.induct)
  case (1 bitmap entries n i start len)
  note eq = scan_run.simps [of bitmap entries n i start len]
  show ?case
  proof (cases "i < entries")
    case False
    then show ?thesis using 1(3-5) eq by simp
  next
    case i: True
    show ?thesis
    proof (cases "removable bitmap i")
      case False
      have "gap bitmap entries n" using 1(5,7) i False by (auto simp: gap_def)
      moreover have "scan_run bitmap entries n (i + 1) (i + 1) 0 = (r, l)" using 1(3) eq i False by simp
      moreover have "\<forall>j. i + 1 \<le> j \<and> j < i + 1 \<longrightarrow> removable bitmap j" by auto
      ultimately show ?thesis using 1(1) [OF i False] 1(4,5) by simp
    next
      case r: True
      then have less: "j < Suc i \<Longrightarrow> (j < i \<Longrightarrow> removable bitmap j) \<Longrightarrow> removable bitmap j" for j
        by (cases "j = i") auto
      show ?thesis
      proof (cases "n \<le> int (len + 1)")
        case True
        then have "n = int len + 1" "r = start" using 1(3,5) eq i r by auto
        moreover consider "start + len = i" "\<forall>j. start \<le> j \<and> j < i \<longrightarrow> removable bitmap j"
          | "len = i" "\<forall>j < i. removable bitmap j" "gap bitmap entries n" using 1(6) by blast
        then have "run_at bitmap entries n start"
        proof cases
          case 1
          then have "removable bitmap j" if "start \<le> j" "int j < int start + n" for j
            using that r \<open>n = int len + 1\<close> by (cases "j = i") auto
          then show ?thesis using \<open>n = int len + 1\<close> 1(1) i by (simp add: run_at_def)
        next
          case 2
          then show ?thesis using \<open>n = int len + 1\<close> less by (auto simp: gap_def)
        qed
        ultimately show ?thesis using 1(7) by auto
      next
        case False
        then show ?thesis using 1(2) [OF i _ False] 1(3-7) eq i r less by fastforce
      qed
    qed
  qed
qed

lemma scan_run_fails:
  assumes "scan_run bitmap entries n i start len = (r, l)" "int l < n" "len \<le> i" "int len < n"
    and "\<And>s. s < i - len \<Longrightarrow> \<not> run_at bitmap entries n s"
  shows "\<not> run_at bitmap entries n s"
  using assms
proof (induction bitmap entries n i start len rule: scan_run.induct)
  case (1 bitmap entries n i start len)
  note eq = scan_run.simps [of bitmap entries n i start len]
  show ?case
  proof (cases "i < entries")
    case False
    then have "\<not> run_at bitmap entries n s" if "i - len \<le> s" using that 1(3-5) eq by (auto simp: run_at_def)
    then show ?thesis using 1(7) [of s] by force
  next
    case i: True
    show ?thesis
    proof (cases "removable bitmap i")
      case False
      have "\<not> run_at bitmap entries n t" if "t < i + 1" for t
      proof (cases "t < i - len")
        case False
        then have "t \<le> i" "int i < int t + n" using that 1(5,6) by auto
        then show ?thesis using \<open>\<not> removable bitmap i\<close> by (auto simp: run_at_def)
      qed (use 1(7) in blast)
      then show ?thesis using 1(1) [OF i False] 1(3-6) eq i False by simp
    next
      case r: True
      show ?thesis
      proof (cases "n \<le> int (len + 1)")
        case True
        then show ?thesis using 1(3,4) eq i r by simp
      next
        case False
        then show ?thesis using 1(2) [OF i _ False] 1(3-7) eq i r by simp
      qed
    qed
  qed
qed

corollary scan_run_first:
  assumes "scan_run bitmap entries n 0 start 0 = (r, l)" "0 < n" "start = 0 \<or> gap bitmap entries n"
  shows "if int l < n then \<forall>s. \<not> run_at bitmap entries n s
    else run_at bitmap entries n r \<and> (r = 0 \<or> gap bitmap entries n)"
  using scan_run_finds [OF assms(1)] scan_run_fails [OF assms(1)] assms(2,3) by auto

section \<open>The bitmap\<close>

lemma div_mod_8_eq: "k div 8 = j div 8 \<Longrightarrow> k mod 8 = j mod 8 \<Longrightarrow> k = (j :: nat)"
  by (metis div_mult_mod_eq)

lemma removable_clear:
  "j div 8 < length bitmap \<Longrightarrow> removable (clear_removable j bitmap) k \<longleftrightarrow> removable bitmap k \<and> k \<noteq> j"
  using div_mod_8_eq [of k j] by (cases "k div 8 = j div 8") (auto simp: removable_def clear_removable_def bit_simps)

lemma removable_set:
  "j div 8 < length bitmap \<Longrightarrow> removable (set_removable j bitmap) k \<longleftrightarrow> removable bitmap k \<or> k = j"
  using div_mod_8_eq [of k j] by (cases "k div 8 = j div 8") (auto simp: removable_def set_removable_def bit_simps)

lemma length_marked [simp]:
  "length (clear_removable j bitmap) = length bitmap" "length (set_removable j bitmap) = length bitmap"
  by (simp_all add: clear_removable_def set_removable_def)

definition marked :: "u8 list \<Rightarrow> nat set" where
  "marked bitmap = {j. j < 8 * length bitmap \<and> removable bitmap j}"

lemma marked_clear: "j \<in> marked bitmap \<Longrightarrow> marked (clear_removable j bitmap) = marked bitmap - {j}"
  using removable_clear [of j bitmap] by (auto simp: marked_def less_mult_imp_div_less)

lemma finite_marked [simp]: "finite (marked bitmap)"
  by (simp add: marked_def)

section \<open>The loop\<close>

definition is_offline :: "'os sysfs \<Rightarrow> 'os \<Rightarrow> nat \<Rightarrow> bool" where
  "is_offline sys st j \<longleftrightarrow> (case read_state sys j st of None \<Rightarrow> False | Some s \<Rightarrow> take 7 s = ''offline'')"

lemma check_offline_result:
  "check_offline sys r n i bitmap st = Some (ready, bitmap', st') \<Longrightarrow>
   if ready then bitmap' = bitmap \<and> st' = st \<and> (\<forall>j. r + i \<le> j \<and> int j < int r + n \<longrightarrow> is_offline sys st j)
   else \<exists>j \<ge> r + i. int j < int r + n \<and> bitmap' = clear_removable j bitmap"
proof (induction sys r n i bitmap st rule: check_offline.induct)
  case (1 sys r n i bitmap st)
  note eq = check_offline.simps [of sys r n i bitmap st]
  show ?case
  proof (cases "int i < n")
    case i: True
    then obtain s where s: "read_state sys (i + r) st = Some s" using 1(2) eq by (auto split: option.splits)
    show ?thesis
    proof (cases "take 7 s = ''offline''")
      case True
      then have "is_offline sys st (r + i)" using s by (simp add: is_offline_def add.commute)
      moreover have "j = r + i \<or> r + (i + 1) \<le> j" if "r + i \<le> j" for j using that by auto
      ultimately show ?thesis using 1(1) [OF i s] 1(2) eq i s True by (fastforce split: if_splits)
    next
      case False
      then have "\<not> ready" "bitmap' = clear_removable (r + i) bitmap" using 1(2) eq i s by (auto simp: add.commute)
      then show ?thesis using i by (auto intro!: exI [of _ "r + i"])
    qed
  qed (use 1(2) eq in auto)
qed

lemma run_marked: "run_at bitmap entries n r \<Longrightarrow> entries \<le> 8 * length bitmap \<Longrightarrow> r \<le> j \<Longrightarrow> int j < int r + n \<Longrightarrow> j \<in> marked bitmap"
  by (force simp: run_at_def marked_def)

lemma gap_clear: "gap bitmap entries n \<Longrightarrow> j \<in> marked bitmap \<Longrightarrow> gap (clear_removable j bitmap) entries n"
  using removable_clear [of j bitmap] by (auto simp: gap_def marked_def less_mult_imp_div_less)

lemma run_clear: "run_at (clear_removable j bitmap) entries n r \<Longrightarrow> j \<in> marked bitmap \<Longrightarrow> run_at bitmap entries n r"
  using removable_clear [of j bitmap] by (auto simp: run_at_def marked_def less_mult_imp_div_less)

text \<open>What a result of the loop promises.\<close>

definition found :: "'os sysfs \<Rightarrow> nat \<Rightarrow> int \<Rightarrow> u8 list \<Rightarrow> (nat \<times> 'os) tool \<Rightarrow> bool" where
  "found sys entries n bitmap res \<longleftrightarrow>
     (case res of
        Finished (r, st) \<Rightarrow> run_at bitmap entries n r \<and> (\<forall>j. r \<le> j \<and> int j < int r + n \<longrightarrow> is_offline sys st j)
      | Exit_failure \<Rightarrow> True
      | Crash \<Rightarrow> False)"

text \<open>
  Every round that fails clears the bit of one removable block, so the rounds are bounded by the
  number of removable blocks.
\<close>

lemma find_memory_found:
  assumes "entries \<le> 8 * length bitmap" "0 < n" "start = 0 \<or> gap bitmap entries n"
  shows "\<exists>res. find_memory sys entries n start bitmap st = Some res \<and> found sys entries n bitmap res"
  using assms
proof (induction "card (marked bitmap)" arbitrary: bitmap start st rule: less_induct)
  case less
  obtain r l where sc: "scan_run bitmap entries n 0 start 0 = (r, l)" by fastforce
  note eq = find_memory.simps [of sys entries n start bitmap st]
  show ?case
  proof (cases "int l < n")
    case False
    then have run: "run_at bitmap entries n r" and g: "r = 0 \<or> gap bitmap entries n"
      using scan_run_first [OF sc less(3,4)] by auto
    show ?thesis
    proof (cases "put_states sys (''offline'' @ [CHR 0x0A]) r n 0 st")
      case (Some st1)
      show ?thesis
      proof (cases "check_offline sys r n 0 bitmap st1")
        case c: (Some x)
        obtain ready bitmap1 st2 where x: "x = (ready, bitmap1, st2)" by (cases x)
        note res = check_offline_result [OF c [unfolded x]]
        show ?thesis
        proof (cases ready)
          case False
          then obtain j where j: "r \<le> j" "int j < int r + n" "bitmap1 = clear_removable j bitmap" using res by auto
          note m = run_marked [OF run less(2) j(1,2)]
          have "card (marked bitmap1) < card (marked bitmap)"
            unfolding j(3) marked_clear [OF m] by (rule card_Diff1_less [OF finite_marked m])
          moreover have "r = 0 \<or> gap bitmap1 entries n" using g gap_clear [OF _ m] j(3) by auto
          ultimately obtain y where y: "find_memory sys entries n r bitmap1 st2 = Some y" "found sys entries n bitmap1 y"
            using less(1) [of bitmap1 r st2] less(2,3) j(3) by auto
          then have "found sys entries n bitmap y"
            using run_clear [OF _ m] j(3) by (auto simp: found_def split: tool.splits)
          then show ?thesis using y(1) eq sc \<open>\<not> int l < n\<close> Some c x False by simp
        qed (use eq sc False Some c x res run in \<open>simp add: found_def\<close>)
      qed (use eq sc False Some in \<open>simp add: found_def\<close>)
    qed (use eq sc False in \<open>simp add: found_def\<close>)
  qed (use eq sc in \<open>simp add: found_def\<close>)
qed

lemma find_memory_nothing:
  "n \<le> 0 \<Longrightarrow> \<exists>r. find_memory sys entries n start bitmap st = Some (Finished (r, st))"
  by (cases "scan_run bitmap entries n 0 start 0")
    (simp add: find_memory.simps [of sys entries n start] put_states.simps check_offline.simps)

section \<open>The directory\<close>

definition block_no :: "string \<Rightarrow> int" where
  "block_no d = atoi (drop 6 d)"

definition reported :: "'os sysfs \<Rightarrow> 'os \<Rightarrow> string \<Rightarrow> bool" where
  "reported sys st d \<longleftrightarrow> (case read_removable sys d st of None \<Rightarrow> False | Some s \<Rightarrow> atoi s = 1)"

lemma scandir_sort: "scandir names = sort_key block_no (filter dir_filter names)"
proof -
  have "insert_dir d es = insort_key block_no d es" for d es
    by (induction es) (auto simp: dir_cmp_def block_no_def)
  then have "insert_dir = insort_key block_no" by (intro ext)
  then show ?thesis by (simp add: scandir_def sort_key_def)
qed

lemma sorted_map_last: "sorted (map f xs) \<Longrightarrow> x \<in> set xs \<Longrightarrow> f x \<le> (f (last xs) :: int)"
  by (induction xs) auto

lemma mark_loop_sound:
  "mark_loop sys st e ds j b = Finished b' \<Longrightarrow>
   length b' = length b \<and> (\<forall>k. removable b' k \<longrightarrow> removable b k \<or> (\<exists>d \<in> set ds. block_no d = int k \<and> reported sys st d))"
proof (induction ds arbitrary: j b)
  case (Cons d ds)
  show ?case
  proof (cases "j < e - 1 \<and> reported sys st d")
    case True
    then have c: "0 \<le> block_no d" "nat (block_no d) div 8 < length b"
      "mark_loop sys st e ds (block_no d) (set_removable (nat (block_no d)) b) = Finished b'"
      using Cons.prems by (auto simp: reported_def block_no_def Let_def split: option.splits if_splits)
    then show ?thesis using Cons.IH [OF c(3)] removable_set [OF c(2)] True by auto
  next
    case False
    then show ?thesis
      using Cons.prems Cons.IH [of "block_no d" b]
      by (auto simp: reported_def block_no_def Let_def split: option.splits if_splits)
  qed
qed (simp split: if_splits)

lemma mark_loop_exact:
  assumes "sorted (map block_no ds)" "distinct (map block_no ds)" "ds \<noteq> []" "block_no (last ds) = e - 1"
    and "\<And>d. d \<in> set ds \<Longrightarrow> 0 \<le> block_no d \<and> read_removable sys d st \<noteq> None" "nat e \<le> 8 * length b" "j < e - 1"
  shows "\<exists>b'. mark_loop sys st e ds j b = Finished b' \<and> length b' = length b \<and>
    (\<forall>k. removable b' k \<longleftrightarrow> removable b k \<or> (\<exists>d \<in> set ds. block_no d = int k \<and> reported sys st d))"
  using assms
proof (induction ds arbitrary: j b)
  case (Cons d ds)
  have d: "0 \<le> block_no d" "block_no d \<le> e - 1"
    using Cons.prems(1,3-5) by (cases "ds = []"; force dest: last_in_set)+
  obtain s where s: "read_removable sys d st = Some s" using Cons.prems(5) [of d] by auto
  have in_map: "nat (block_no d) div 8 < length b" using d Cons.prems(6) by (intro less_mult_imp_div_less) simp
  let ?b = "if reported sys st d then set_removable (nat (block_no d)) b else b"
  have step: "mark_loop sys st e (d # ds) j b = mark_loop sys st e ds (block_no d) ?b"
    using Cons.prems(7) s d in_map by (simp add: reported_def block_no_def Let_def)
  have bits: "removable ?b k \<longleftrightarrow> removable b k \<or> (block_no d = int k \<and> reported sys st d)" for k
    using d(1) by (cases "reported sys st d") (auto simp: removable_set [OF in_map])
  show ?case
  proof (cases "ds = []")
    case True
    then show ?thesis using step bits Cons.prems(4) by simp
  next
    case False
    then have "block_no d \<noteq> block_no (last ds)" using Cons.prems(2) by (auto dest: last_in_set)
    then have "block_no d < e - 1" using d(2) Cons.prems(4) False by simp
    moreover have len: "length ?b = length b" by simp
    ultimately obtain b' where "mark_loop sys st e ds (block_no d) ?b = Finished b'" "length b' = length b"
      "\<forall>k. removable b' k \<longleftrightarrow> removable ?b k \<or> (\<exists>d \<in> set ds. block_no d = int k \<and> reported sys st d)"
      using Cons.IH [of ?b "block_no d", unfolded len] Cons.prems False by auto
    then show ?thesis using step bits by auto
  qed
qed simp

lemma bitmap_size:
  assumes "sz = e sdiv 8 + (if e smod 8 \<noteq> 0 then 1 else 0)" "0 \<le> sz"
  shows "nat e \<le> 8 * nat sz"
proof (cases "0 \<le> e")
  case True
  then have "e sdiv 8 = e div 8" "e smod 8 = e mod 8" by (simp_all add: signed_divide_int_def signed_modulo_int_def sgn_if abs_if)
  then show ?thesis using assms by (auto split: if_splits)
qed simp

lemma removable_replicate [simp]: "k < 8 * m \<Longrightarrow> \<not> removable (replicate m 0) k"
  by (simp add: removable_def less_mult_imp_div_less)

lemma removable_blocks_result:
  assumes "removable_blocks sys st = Finished (entries, bitmap)"
  shows "entries \<le> 8 * length bitmap"
    and "k < entries \<Longrightarrow> removable bitmap k \<Longrightarrow>
      \<exists>d \<in> set (dir_names sys st). dir_filter d \<and> block_no d = int k \<and> reported sys st d"
    and "\<exists>d \<in> set (dir_names sys st). dir_filter d \<and> entries \<le> nat (block_no d + 1)"
proof -
  let ?ds = "scandir (dir_names sys st)"
  define e where "e = block_no (last ?ds) + 1"
  define sz where "sz = e sdiv 8 + (if e smod 8 \<noteq> 0 then 1 else 0)"
  have r: "?ds \<noteq> []" "0 \<le> sz" "mark_loop sys st e ?ds 0 (replicate (nat sz) 0) = Finished bitmap" "entries = nat e"
    using assms by (auto simp: removable_blocks_def Let_def e_def sz_def block_no_def split: if_splits tool.splits)
  note m = mark_loop_sound [OF r(3)] and size = bitmap_size [OF sz_def r(2)]
  show "entries \<le> 8 * length bitmap" using m size r(4) by simp
  have set: "set ?ds = {d \<in> set (dir_names sys st). dir_filter d}" by (auto simp: scandir_sort)
  show "\<exists>d \<in> set (dir_names sys st). dir_filter d \<and> block_no d = int k \<and> reported sys st d"
    if "k < entries" "removable bitmap k"
    using m that size r(4) set by (auto dest!: spec [of _ k])
  show "\<exists>d \<in> set (dir_names sys st). dir_filter d \<and> entries \<le> nat (block_no d + 1)"
    using last_in_set [OF r(1)] set r(4) by (auto simp: e_def)
qed

lemma uint_ucast_u64: "uint (ucast b :: u64) = uint (b :: u32)"
  using uint_bounded [of b] by (simp add: unsigned_ucast_eq take_bit_int_eq_self)

lemma uint_scaled:
  assumes "0 \<le> x" "x * uint b < 2 ^ 64"
  shows "uint (of_int x * ucast (b :: u32) :: u64) = x * uint b"
proof -
  have "ucast b = (of_int (uint b) :: u64)" by (rule ucast_eq)
  then have "of_int x * ucast b = (of_int (x * uint b) :: u64)" by (simp only: of_int_mult)
  moreover have "uint (of_int (x * uint b) :: u64) = x * uint b"
    unfolding uint_word_of_int using assms by (intro mod_pos_pos_trivial) simp_all
  ultimately show ?thesis by (simp only:)
qed

lemma num_blocks_of_ceiling:
  assumes "b \<noteq> 0" "uint m < 2 ^ 30 * uint b"
  shows "uint m \<le> num_blocks_of m b * uint b" "num_blocks_of m b * uint b < uint m + uint b" "num_blocks_of m b < 2 ^ 31"
proof -
  define q where "q = uint m div uint b"
  define n where "n = (ucast (m div ucast b) :: u32)"
  have b: "0 < uint b" using assms(1) by (simp add: word_neq_0_conv word_less_def)
  have "0 \<le> q" using b by (simp add: q_def div_int_pos_iff)
  moreover have "q * uint b \<le> uint m" using b by (simp add: q_def minus_mod_eq_div_mult [symmetric])
  then have "q * uint b < 2 ^ 30 * uint b" using assms(2) by simp
  ultimately have q: "0 \<le> q" "q < 2 ^ 30" using b by simp_all
  have c: "uint (ucast b :: u64) = uint b" by (rule uint_ucast_u64)
  have "uint (m div ucast b) = q" unfolding uint_div_distrib c q_def ..
  then have n: "uint n = q" using q by (simp add: n_def unsigned_ucast_eq take_bit_int_eq_self)
  have s: "sint w = uint w" if "uint w < 2 ^ 31" for w :: u32
  proof -
    have "- (2 ^ 31) \<le> uint w" by (rule order_trans [OF _ uint_ge_0]) simp
    then show ?thesis using that signed_take_bit_int_eq_self [of 31 "uint w"] by (simp add: sint_uint)
  qed
  have "uint (n + 1) = q + 1" using n q by (simp add: uint_word_ariths)
  then have "num_blocks_of m b = (if uint m mod uint b \<noteq> 0 then q + 1 else q)"
    using n q s [of n] s [of "n + 1"]
    by (simp add: num_blocks_of_def Let_def n_def [symmetric] uint_mod_distrib c flip: uint_0_iff)
  moreover have "uint m = q * uint b + uint m mod uint b" "0 \<le> uint m mod uint b" "uint m mod uint b < uint b"
    using b by (simp_all add: q_def)
  ultimately show "uint m \<le> num_blocks_of m b * uint b" "num_blocks_of m b * uint b < uint m + uint b" "num_blocks_of m b < 2 ^ 31"
    using q by (auto simp: distrib_right)
qed

section \<open>Properties\<close>

text \<open>
  C13. The utility always comes to an end, whatever the kernel answers: a block that does not go
  offline is struck off the bitmap, so no block is tried more than once without success.
\<close>

theorem petmem_tool_returns:
  "\<exists>res. petmem_tool sys argv st = Some res"
proof -
  have "\<exists>r. find_memory sys entries n 0 bitmap st = Some r"
    if "removable_blocks sys st = Finished (entries, bitmap)" for entries bitmap n
    using find_memory_found [OF removable_blocks_result(1) [OF that]] find_memory_nothing [of n sys entries 0 bitmap st]
    by (cases "0 < n") (fastforce simp: not_less)+
  then show ?thesis
    by (auto simp: petmem_tool_def Let_def split: option.splits tool.splits)
qed

lemma petmem_tool_finished:
  assumes "petmem_tool sys argv st = Some (Finished (mr, st'))" "read_block_size sys st = Some buf"
    and "b = of_int (strtoll16 buf)" "n = num_blocks_of (of_int (atoi (argv ! 1)) * (1024 * 1024)) b"
  obtains entries bitmap r where "b \<noteq> 0" "removable_blocks sys st = Finished (entries, bitmap)"
    "find_memory sys entries n 0 bitmap st = Some (Finished (r, st'))" "mr = tool_range r n b"
  using assms(1,2) unfolding assms(3,4)
  by (auto simp: petmem_tool_def give_memory_def Let_def split: if_splits option.splits tool.splits)

lemma petmem_tool_blocks:
  assumes run: "petmem_tool sys [prog, arg] st = Some (Finished (mr, st'))"
    and b: "read_block_size sys st = Some buf" "b = (of_int (strtoll16 buf) :: u32)" "4096 dvd uint b"
    and arg: "0 < atoi arg" "atoi arg * 2 ^ 20 < 2 ^ 30 * uint b"
    and dirs: "\<forall>d \<in> set (dir_names sys st). dir_filter d \<longrightarrow> (block_no d + 1) * uint b < 2 ^ 64"
  shows "\<exists>r n. uint (mr_base_addr mr) = int r * uint b \<and> 4096 * uint (mr_pages mr) = int n * uint b \<and>
    atoi arg * 2 ^ 20 \<le> int n * uint b \<and> int n * uint b < atoi arg * 2 ^ 20 + uint b \<and>
    (\<forall>j. r \<le> j \<and> j < r + n \<longrightarrow>
       (\<exists>d \<in> set (dir_names sys st). dir_filter d \<and> block_no d = int j \<and> reported sys st d) \<and> is_offline sys st' j)"
proof -
  define m where "m = (of_int (atoi arg) * (1024 * 1024) :: u64)"
  define n where "n = num_blocks_of m b"
  obtain entries bitmap r where f: "b \<noteq> 0" "removable_blocks sys st = Finished (entries, bitmap)"
    "find_memory sys entries n 0 bitmap st = Some (Finished (r, st'))" "mr = tool_range r n b"
    by (rule petmem_tool_finished [OF run b(1,2), of n]) (simp_all add: n_def m_def)
  have pos: "0 < uint b" using f(1) by (simp add: word_neq_0_conv word_less_def)
  have "uint m = atoi arg * 2 ^ 20"
    using uint_scaled [of "atoi arg" "1024 * 1024"] arg uint_bounded [of b] by (simp add: m_def)
  then have n: "atoi arg * 2 ^ 20 \<le> n * uint b" "n * uint b < atoi arg * 2 ^ 20 + uint b"
    using num_blocks_of_ceiling [OF f(1), of m] arg(2) by (simp_all add: n_def)
  then have "0 < n" using arg(1) pos by (smt (verit) mult_nonpos_nonneg zero_less_mult_iff zero_less_power)
  note res = removable_blocks_result [OF f(2)]
  have fnd: "run_at bitmap entries n r" "\<And>j. r \<le> j \<Longrightarrow> int j < int r + n \<Longrightarrow> is_offline sys st' j"
    using find_memory_found [OF res(1) \<open>0 < n\<close>, of 0 sys st] f(3) by (auto simp: found_def)
  obtain d where "d \<in> set (dir_names sys st)" "dir_filter d" "entries \<le> nat (block_no d + 1)" using res(3) by blast
  then have "(block_no d + 1) * uint b < 2 ^ 64" "int entries \<le> block_no d + 1"
    using dirs fnd(1) \<open>0 < n\<close> by (auto simp: run_at_def)
  then have "int entries * uint b < 2 ^ 64"
    using pos mult_right_mono [of "int entries" "block_no d + 1" "uint b"] by linarith
  moreover have "int r * uint b \<le> int entries * uint b" "n * uint b \<le> int entries * uint b"
    using fnd(1) \<open>0 < n\<close> pos by (auto simp: run_at_def intro!: mult_right_mono)
  ultimately have small: "int r * uint b < 2 ^ 64" "n * uint b < 2 ^ 64" by linarith+
  have "uint (mr_base_addr mr) = int r * uint b"
    using uint_scaled [of "int r" b] small(1) by (simp add: f(4) tool_range_def)
  moreover have "4096 * uint (mr_pages mr) = n * uint b"
    using uint_scaled [of n b] small(2) \<open>0 < n\<close> b(3) by (simp add: f(4) tool_range_def uint_div_distrib)
  ultimately show ?thesis
    using n fnd res(2) \<open>0 < n\<close> by (intro exI [of _ r] exI [of _ "nat n"]) (auto simp: run_at_def)
qed

text \<open>
  C30. When the utility gives memory to the module, the range consists of whole blocks, just as many as
  the size asked for takes, and each of them was reported removable at the start and reports itself
  offline when the range is given away.
\<close>

theorem petmem_tool_sound:
  assumes run: "petmem_tool sys [prog, arg] st = Some (Finished (mr, st'))"
    and b: "read_block_size sys st = Some buf" "b = (of_int (strtoll16 buf) :: u32)" "4096 dvd uint b"
    and arg: "0 < atoi arg" "atoi arg * 2 ^ 20 < 2 ^ 30 * uint b"
    and dirs: "\<forall>d \<in> set (dir_names sys st). dir_filter d \<longrightarrow> (block_no d + 1) * uint b < 2 ^ 64"
  shows "\<exists>r n. uint (mr_base_addr mr) = int r * uint b \<and> 4096 * uint (mr_pages mr) = int n * uint b \<and>
    atoi arg * 2 ^ 20 \<le> int n * uint b \<and> int n * uint b < atoi arg * 2 ^ 20 + uint b \<and>
    (\<forall>j. r \<le> j \<and> j < r + n \<longrightarrow>
       (\<exists>d \<in> set (dir_names sys st). dir_filter d \<and> block_no d = int j \<and> reported sys st d) \<and> is_offline sys st' j)"
  by (rule petmem_tool_blocks [OF run b arg dirs])

text \<open>A kernel that does what it is told.\<close>

definition obedient :: "'os sysfs \<Rightarrow> bool" where
  "obedient sys \<longleftrightarrow> (\<forall>j w st. case write_state sys j w st of None \<Rightarrow> False
     | Some st' \<Rightarrow> read_state sys j st' = Some w \<and> (\<forall>k. k \<noteq> j \<longrightarrow> read_state sys k st' = read_state sys k st))"

lemma obedientD:
  "obedient sys \<Longrightarrow> \<exists>st'. write_state sys j w st = Some st' \<and> read_state sys j st' = Some w \<and>
     (\<forall>k. k \<noteq> j \<longrightarrow> read_state sys k st' = read_state sys k st)"
  unfolding obedient_def by (cases "write_state sys j w st") (auto dest!: spec [of _ j] spec [of _ w] spec [of _ st])

lemma put_states_obedient:
  assumes "obedient sys"
  shows "\<exists>st'. put_states sys w r k i st = Some st' \<and>
    (\<forall>j. read_state sys j st' = (if r + i \<le> j \<and> int j < int r + k then Some w else read_state sys j st))"
  using assms
proof (induction sys w r k i st rule: put_states.induct)
  case (1 sys w r k i st)
  note eq = put_states.simps [of sys w r k i st]
  show ?case
  proof (cases "int i < k")
    case True
    obtain st1 where st1: "write_state sys (i + r) w st = Some st1" "read_state sys (i + r) st1 = Some w"
      "\<And>k. k \<noteq> i + r \<Longrightarrow> read_state sys k st1 = read_state sys k st"
      using obedientD [OF 1(2), of "i + r" w st] by blast
    then obtain st' where "put_states sys w r k (i + 1) st1 = Some st'"
      "\<forall>j. read_state sys j st' = (if r + (i + 1) \<le> j \<and> int j < int r + k then Some w else read_state sys j st1)"
      using 1(1) [OF True st1(1) 1(2)] by blast
    moreover have "r + (i + 1) \<le> j \<longleftrightarrow> r + i \<le> j \<and> j \<noteq> i + r" for j by auto
    ultimately show ?thesis using eq True st1 by auto
  qed (use eq in auto)
qed

lemma check_offline_ready:
  "\<forall>j. r + i \<le> j \<and> int j < int r + n \<longrightarrow> is_offline sys st j \<Longrightarrow>
   check_offline sys r n i bitmap st = Some (True, bitmap, st)"
proof (induction sys r n i bitmap st rule: check_offline.induct)
  case (1 sys r n i bitmap st)
  note eq = check_offline.simps [of sys r n i bitmap st]
  show ?case
  proof (cases "int i < n")
    case True
    then have "is_offline sys st (i + r)" using 1(2) by (simp add: add.commute)
    then obtain s where "read_state sys (i + r) st = Some s" "take 7 s = ''offline''"
      by (auto simp: is_offline_def split: option.splits)
    then show ?thesis using 1(1) [OF True, of s] 1(2) True eq by simp
  qed (use eq in auto)
qed



section \<open>Examples\<close>

text \<open>Four blocks of 128 MB, two of them removable, under an obedient kernel.\<close>

definition plain_sysfs :: "(nat \<Rightarrow> string) sysfs" where
  "plain_sysfs = \<lparr>read_block_size = \<lambda>_. Some ''8000000'',
     dir_names = \<lambda>_. [''block_size_bytes'', ''memory3'', ''memory0'', ''memory2'', ''memory1''],
     read_removable = \<lambda>d _. Some (if d = ''memory1'' \<or> d = ''memory2'' then ''1'' else ''0''),
     read_state = \<lambda>j st. Some (st j), write_state = \<lambda>j w st. Some (st(j := w)), open_device = \<lambda>_. True\<rparr>"

text \<open>The same, but block 1 does not go offline.\<close>

definition stubborn_sysfs :: "(nat \<Rightarrow> string) sysfs" where
  "stubborn_sysfs = plain_sysfs\<lparr>write_state := \<lambda>j w st. Some (if j = 1 then st else st(j := w))\<rparr>"

definition given :: "(memory_range \<times> 'os) tool option \<Rightarrow> memory_range option" where
  "given res = (case res of Some (Finished x) \<Rightarrow> Some (fst x) | _ \<Rightarrow> None)"

lemma given_SomeD: "given res = Some mr \<Longrightarrow> \<exists>st. res = Some (Finished (mr, st))"
  by (auto simp: given_def split: option.split_asm tool.split_asm)

lemma plain_run:
  "\<exists>st'. petmem_tool plain_sysfs [''petmem'', ''200''] (\<lambda>_. ''online'') =
     Some (Finished (\<lparr>mr_base_addr = 0x8000000, mr_pages = 0x10000\<rparr>, st'))"
  by (rule given_SomeD) code_simp

lemma blocks_left_offline:
  "map_option (\<lambda>(ready, _, st). (ready, map st [0 ..< 3]))
     (check_offline stubborn_sysfs 0 3 0 [7] (\<lambda>j. if j = 1 then ''online'' else ''offline'')) =
   Some (False, [''online'' @ [CHR 0x0A], ''online'', ''offline''])"
  by code_simp

theorem petmem_tool_sound_witness:
  "\<exists>r n. uint (mr_base_addr \<lparr>mr_base_addr = 0x8000000, mr_pages = 0x10000\<rparr>) = int r * 0x8000000 \<and> 200 * 2 ^ 20 \<le> int n * 0x8000000 \<and>
     (\<forall>j. r \<le> j \<and> j < r + n \<longrightarrow>
       (\<exists>d \<in> set (dir_names plain_sysfs (\<lambda>_. ''online'')). dir_filter d \<and> block_no d = int j \<and> reported plain_sysfs (\<lambda>_. ''online'') d))"
proof -
  obtain st' where run: "petmem_tool plain_sysfs [''petmem'', ''200''] (\<lambda>_. ''online'') =
      Some (Finished (\<lparr>mr_base_addr = 0x8000000, mr_pages = 0x10000\<rparr>, st'))" using plain_run by blast
  have a: "atoi ''200'' = 200" "strtoll16 ''8000000'' = 0x8000000" by code_simp+
  have u: "uint (of_int 0x8000000 :: u32) = 0x8000000" by simp
  have b: "read_block_size plain_sysfs (\<lambda>_. ''online'') = Some ''8000000''" by (simp add: plain_sysfs_def)
  have d: "\<forall>d \<in> set (dir_names plain_sysfs (\<lambda>_. ''online'')). dir_filter d \<longrightarrow> (block_no d + 1) * 0x8000000 < 2 ^ 64" by code_simp
  have c: "(4096 :: int) dvd 0x8000000" "(0 :: int) < 200" "(200 :: int) * 2 ^ 20 < 2 ^ 30 * 0x8000000" by simp_all
  show ?thesis using petmem_tool_sound [OF run b refl, unfolded a u, OF c d] by blast
qed



end
