(* ===== verification/Spec2Isabelle.thy ===== *)
theory Spec2Isabelle
  imports Program User_Tool
begin

text \<open>
  \<^bold>\<open>petmem: a demand-paging memory manager as a Linux module, verified.\<close>

  The program. A control utility (\<open>user/petmem.c\<close>) takes blocks of physical memory offline and hands
  them to the module (\<open>ADD_MEMORY\<close> in \<open>main.c\<close>), which cuts them into pools of a buddy allocator
  (\<open>buddy.c\<close>) and serves pages from them (\<open>petmem_alloc_pages\<close>, \<open>petmem_free_pages\<close>). A program that
  opens the device gets a list of address-space regions (\<open>on_demand.c\<close>); \<open>LAZY_ALLOC\<close> hands out a
  range of it without memory. The first access raises SIGSEGV; the harness (\<open>user/harness.c\<close>) passes it on
  as \<open>PAGE_FAULT\<close>, and the module walks the page tables (\<open>pgtables.h\<close>), makes the tables and the
  page that are missing, and, when no page is left, evicts one with a clock algorithm into a swap
  file (\<open>swap.c\<close>, \<open>file_io.c\<close>), from which a later fault fetches it back.

  The state. Memory is a function from direct-map virtual addresses to 64-bit words; lists, page
  tables and the headers of free blocks live in it, so aliasing is visible. A \<open>machine\<close> is memory,
  the list of pools, \<open>cr3\<close> and the flushes so far; a \<open>process\<close> adds the files, the list head, the
  clock hand and the swap space. Integers have the width of the source. A \<open>BUG_ON\<close>, an access out
  of bounds and a null pointer are values of \<open>kfault\<close>; loops that need not end are partial functions
  into \<open>option\<close> (\<open>None\<close>: does not return), and theorems about them say that they return.

  The theories, bottom up.

  \<^item> \<open>Prelude\<close>, \<open>Klist\<close>, \<open>Bitops\<close>: results, byte ranges, word arithmetic; the kernel's doubly linked
    lists and bitmaps.
  \<^item> \<open>Buddy\<close> (\<open>buddy.c\<close>, function by function). \<open>Blocks\<close>, \<open>Buddy_Layout\<close>, \<open>Buddy_Inv\<close>: aligned blocks,
    where the allocator's words are, its invariant. \<open>Buddy_Spec\<close>: the allocator on lists of free
    offsets, which the code refines. \<open>Alloc_Contract\<close>: the locale of an allocator and the safety of its
    clients. \<open>Buddy_Correct\<close>: functional correctness of allocation and release, no overlap, round trip, writes by owners,
    the errors; the contract interpreted on \<open>buddy_alloc\<close> and \<open>buddy_free\<close>.
  \<^item> \<open>Pools\<close>, \<open>Pools_Correct\<close>, \<open>Add_Memory\<close> (\<open>main.c\<close> up to the dispatcher's first case): several pools, the
    contract interpreted again on the page allocator, the decomposition of a range into pools.
  \<^item> \<open>Pgtables\<close> (\<open>pgtables.h\<close>): all bit-field structures and macros; fields are independent, indices
    determine addresses.
  \<^item> \<open>File_IO\<close>, \<open>Swap\<close> (\<open>file_io.c\<close>, \<open>swap.c\<close>): over a virtual file system that is a parameter; slots
    refine a map from indices to pages.
  \<^item> \<open>Vspace\<close>, \<open>Vspace_Correct\<close> (the region list of \<open>on_demand.c\<close>): allocation and release refine
    operations on a tiling of the address space.
  \<^item> \<open>On_Demand\<close> (the rest of \<open>on_demand.c\<close>). \<open>Frames\<close>: pages handed out by the pools as frames. \<open>Walk\<close>: the
    tree of tables. \<open>Page_Bytes\<close>: pages as bytes and as words. \<open>Vm\<close>, \<open>Vm_Place\<close>: the invariant of a process
    and steps that keep it. \<open>Clock\<close>, \<open>Evict\<close>, \<open>Fault\<close>: the second-chance algorithm, eviction, and the
    fault handler level by level. \<open>Paging_Example\<close>, \<open>Paging_Correct\<close>: a process with its tables, and the
    theorems: the walk agrees with the processor's, eviction loses nothing, a fault is resolved. \<open>Release\<close>:
    what the release of a page does and what it leaves behind.
  \<^item> \<open>Vm_Lists\<close>, \<open>Ioctl\<close> (\<open>main.c\<close>: dispatcher, open, release, module load and unload): opening establishes the
    invariants, \<open>LAZY_ALLOC\<close> keeps them.
  \<^item> \<open>Harness\<close> (\<open>user/harness.c\<close>): memory from \<open>pet_malloc\<close> can be used. \<open>Release_Region\<close>: after \<open>pet_free\<close> the region
    can be handed out again, its pages are unmapped, and the pages in memory of all others are untouched; swapped-out
    pages that share a page table with it can be lost. \<open>Program\<close>: loads and stores of a program, with the faults they
    raise, refine an array of words.
  \<^item> \<open>User_Tool\<close> (\<open>user/petmem.c\<close>): the utility ends, gives away removable offline blocks only, and finds a
    run when there is one. Below, its composition with \<open>ADD_MEMORY\<close>.

  Parameters. The virtual file system, access to user memory, the files under \<open>/sys\<close>, and the
  addresses \<open>kmalloc\<close> returns are arguments; what is relied on is stated where it is used
  (\<open>file_ok\<close>: reads return what was written; \<open>user_struct\<close>: the program's structures are mapped;
  \<open>obedient\<close>: writes to a state file take effect; \<open>fresh_node\<close>, \<open>room\<close>, \<open>nodes_apart\<close>: new objects are nobody else's),
  and each has an instance in the witnesses.

  Bounds. \<open>ADD_MEMORY\<close> is treated below 2 GB a call, where the source's \<open>int\<close> shifts do not overflow; the
  swap space up to \<open>2 ^ 19\<close> slots and the release of a region up to \<open>2 ^ 19\<close> pages, where the \<open>int\<close> offsets do not. What
  happens beyond is stated too (\<open>petmem_free_large_pool_noop\<close>, \<open>swap_offsets_differ\<close>, \<open>page_step_overflow\<close>). No fuel is
  used.

  Not modelled. \<open>printk\<close>, and the freeing of kernel objects with \<open>kfree\<close> except in \<open>buddy_deinit\<close>; concurrency: the
  module takes no locks and is treated as called by one process at a time; the TLB beyond the list of flushes;
  \<open>user/test.c\<close> (a fixed sequence of harness calls) and the generated \<open>petmem.mod.c\<close>. The end of a process,
  \<open>petmem_deinit_process\<close>, is modelled but has no theorem of its own: its free region is far larger than the \<open>2 ^ 19\<close>
  pages up to which the loop over the pages of a region computes their addresses correctly.
\<close>

section \<open>From the control utility to the pools\<close>

definition memory_range_bytes :: "memory_range \<Rightarrow> u8 list" where
  "memory_range_bytes mr = word_bytes (mr_base_addr mr) @ word_bytes (mr_pages mr)"

lemma memory_range_roundtrip: "memory_range_of (memory_range_bytes mr) = mr"
  by (simp add: memory_range_of_def memory_range_bytes_def length_word_bytes bytes_word_bytes)

text \<open>
  C17. The utility and the module together: when the utility ends with a range of less than 2 GB and
  the module's \<open>ADD_MEMORY\<close> reads that range from the utility's memory, the module makes new pools,
  all of them free, whose bytes are exactly those of memory blocks that were reported removable and
  are offline; the pools it had are as before.
\<close>

theorem offline_memory_pooled:
  assumes run: "petmem_tool sys [prog, arg] st = Some (Finished (mr, st'))"
    and b: "read_block_size sys st = Some buf" "b = (of_int (strtoll16 buf) :: u32)" "4096 dvd uint b"
    and arg: "0 < atoi arg" "atoi arg * 2 ^ 20 < 2 ^ 30 * uint b"
    and dirs: "\<forall>d \<in> set (dir_names sys st). dir_filter d \<longrightarrow> (block_no d + 1) * uint b < 2 ^ 64"
    and cf: "copy_from_user ua a 16 u = Some (memory_range_bytes mr)"
    and ok: "pools_ok (petmem_pool_list (mach p)) (kmem (mach p)) G" and n: "unat (mr_pages mr) < 2 ^ 19"
    and rm: "room (pool_heads k) 0 (va (mr_base_addr mr)) (4096 * unat (mr_pages mr)) (petmem_pool_list (mach p))"
  shows "\<exists>p' new r n. petmem_ioctl v ua k ADD_MEMORY a p u = returns (0, p', u) \<and>
    petmem_pool_list (mach p') = new @ petmem_pool_list (mach p) \<and>
    pools_ok (petmem_pool_list (mach p')) (kmem (mach p')) (map whole new @ G) \<and>
    (\<Union>q \<in> set new. byte_range (base_addr q) (2 ^ pool_order q)) = byte_range (va (of_nat (r * unat b))) (n * unat b) \<and>
    atoi arg * 2 ^ 20 \<le> int (n * unat b) \<and>
    (\<forall>j. r \<le> j \<and> j < r + n \<longrightarrow>
       (\<exists>d \<in> set (dir_names sys st). dir_filter d \<and> block_no d = int j \<and> reported sys st d) \<and> is_offline sys st' j)"
proof -
  obtain r m where blocks: "uint (mr_base_addr mr) = int r * uint b" "4096 * uint (mr_pages mr) = int m * uint b"
    "atoi arg * 2 ^ 20 \<le> int m * uint b"
    "\<forall>j. r \<le> j \<and> j < r + m \<longrightarrow>
       (\<exists>d \<in> set (dir_names sys st). dir_filter d \<and> block_no d = int j \<and> reported sys st d) \<and> is_offline sys st' j"
    using petmem_tool_blocks [OF run b arg dirs] by blast
  have nat: "unat (mr_base_addr mr) = r * unat b" "4096 * unat (mr_pages mr) = m * unat b"
  proof -
    have "int (unat (mr_base_addr mr)) = int (r * unat b)" "int (4096 * unat (mr_pages mr)) = int (m * unat b)"
      using blocks(1,2) by simp_all
    then show "unat (mr_base_addr mr) = r * unat b" "4096 * unat (mr_pages mr) = m * unat b"
      by (simp_all only: of_nat_eq_iff)
  qed
  have base: "mr_base_addr mr = of_nat (r * unat b)" using nat(1) by (metis of_nat_unat ucast_id)
  obtain s' new where "add_memory (pool_heads k) (mr_base_addr mr) (mr_pages mr) (mach p) = Inr s'"
    "petmem_pool_list s' = new @ petmem_pool_list (mach p)" "pools_ok (petmem_pool_list s') (kmem s') (map whole new @ G)"
    "(\<Union>q \<in> set new. byte_range (base_addr q) (2 ^ pool_order q)) = byte_range (va (of_nat (r * unat b))) (m * unat b)"
    using add_memory_pools [OF ok n rm] unfolding nat(2) base by blast
  moreover from this(1) have "petmem_ioctl v ua k ADD_MEMORY a p u = returns (0, p\<lparr>mach := s'\<rparr>, u)"
    using cf by (simp add: petmem_ioctl_def ioctl_numbers memory_range_roundtrip Let_def)
  moreover have "atoi arg * 2 ^ 20 \<le> int (m * unat b)" using blocks(3) by simp
  ultimately show ?thesis using blocks(4) by (intro exI [of _ "p\<lparr>mach := s'\<rparr>"] exI [of _ new] exI [of _ r] exI [of _ m]) simp
qed

lemma demo_block_room: "room demo_av 0 (va 0x8000000) 0x10000000 []"
proof -
  have "unat (demo_av i) = 0xffff880002000000 + 512 * i" if "i < 20" for i
  proof -
    have "unat (of_nat (0xffff880002000000 + 512 * i) :: u64) = 0xffff880002000000 + 512 * i"
      using that by (intro unat_of_nat_u64) simp
    then show ?thesis by (simp add: demo_av_def)
  qed
  then show ?thesis by (auto simp: room_def apart_def va_def PAGE_OFFSET_def)
qed

theorem offline_memory_pooled_witness:
  "\<exists>p' new. petmem_ioctl (array_vfs 0) plain_user demo_kalloc ADD_MEMORY 0x100 (demo_process\<lparr>mach := demo_empty\<rparr>)
      (snd (copy_to_user plain_user 0x100 (memory_range_bytes \<lparr>mr_base_addr = 0x8000000, mr_pages = 0x10000\<rparr>) (\<lambda>_. 0))) =
    returns (0, p', snd (copy_to_user plain_user 0x100 (memory_range_bytes \<lparr>mr_base_addr = 0x8000000, mr_pages = 0x10000\<rparr>) (\<lambda>_. 0))) \<and>
    pools_ok (petmem_pool_list (mach p')) (kmem (mach p')) (map whole new)"
proof -
  let ?mr = "\<lparr>mr_base_addr = 0x8000000, mr_pages = 0x10000\<rparr>" and ?p = "demo_process\<lparr>mach := demo_empty\<rparr>"
  let ?u = "snd (copy_to_user plain_user 0x100 (memory_range_bytes ?mr) (\<lambda>_. 0))"
  obtain st' where run: "petmem_tool plain_sysfs [''petmem'', ''200''] (\<lambda>_. ''online'') = Some (Finished (?mr, st'))"
    using plain_run by blast
  have b: "read_block_size plain_sysfs (\<lambda>_. ''online'') = Some ''8000000''" by (simp add: plain_sysfs_def)
  have a: "atoi ''200'' = 200" "strtoll16 ''8000000'' = 0x8000000" by code_simp+
  have u: "uint (of_int 0x8000000 :: u32) = 0x8000000" by simp
  have d: "\<forall>d \<in> set (dir_names plain_sysfs (\<lambda>_. ''online'')). dir_filter d \<longrightarrow> (block_no d + 1) * 0x8000000 < 2 ^ 64" by code_simp
  have c: "(4096 :: int) dvd 0x8000000" "(0 :: int) < 200" "(200 :: int) * 2 ^ 20 < 2 ^ 30 * 0x8000000" by simp_all
  have l: "length (memory_range_bytes ?mr) = 16" by (simp add: memory_range_bytes_def length_word_bytes)
  have cf: "copy_from_user plain_user 0x100 16 ?u = Some (memory_range_bytes ?mr)"
    using plain_struct [of 16 "0x100"] l by (simp add: user_struct_def plain_program_def uaccess.defs)
  have p: "pools_ok (petmem_pool_list (mach ?p)) (kmem (mach ?p)) []" by (simp add: demo_empty_def)
  have n: "unat (mr_pages ?mr) < 2 ^ 19" by simp
  have r: "room (pool_heads demo_kalloc) 0 (va (mr_base_addr ?mr)) (4096 * unat (mr_pages ?mr)) (petmem_pool_list (mach ?p))"
    using demo_block_room by (simp add: demo_kalloc_def demo_empty_def)
  show ?thesis
    using offline_memory_pooled [OF run b refl, unfolded a u, OF c d cf p n r] by fastforce
qed

end
